(* ===== verification/Prelude.thy ===== *)
theory Prelude
  imports Main "HOL-Library.Word" "HOL-Library.Multiset" "HOL-Library.Monad_Syntax"
    "HOL-Library.Signed_Division"
begin

text \<open>
  Prelude of the development: the C scalar types of the simulator, checked array
  access, the collections of rewrite rules the component theories share, and generic
  lemmas on lists, options and words.

  Two kinds of failure are kept apart everywhere. An error the C code reports (a return
  value of -1 or 1, a NULL result) is an ordinary value of the model. Undefined
  behaviour (a NULL dereference, an access outside an array, a read of freed memory) is
  the value \<open>None\<close> of an option, and a sequence of statements is a \<open>do\<close> block in the
  option monad, so that nothing after it is executed.
\<close>

unbundle bit_operations_syntax

section \<open>C scalar types\<close>

text \<open>
  \<open>addr_t\<close> and \<open>arg_t\<close> are 64 bits wide (\<open>MM64\<close> is defined in \<open>include/os-cfg.h\<close>),
  \<open>BYTE\<close> is a \<open>char\<close> (8 bits, signed on the targets of the Makefile), and a C \<open>int\<close>
  that takes part in bit or address arithmetic is a 32-bit word read with \<open>sint\<close>.
  Counters and return codes that stay small are \<open>int\<close> or \<open>nat\<close>.
\<close>

type_synonym u64 = "64 word"
type_synonym u32 = "32 word"
type_synonym cint = "32 word"
type_synonym byte = "8 word"

text \<open>The conversions the C compiler inserts between these types.\<close>

definition u64_to_int :: "u64 \<Rightarrow> cint" where
  "u64_to_int w = ucast w"

definition int_to_u64 :: "cint \<Rightarrow> u64" where
  "int_to_u64 w = scast w"

definition byte_to_u64 :: "byte \<Rightarrow> u64" where
  "byte_to_u64 b = scast b"

definition byte_to_u32 :: "byte \<Rightarrow> u32" where
  "byte_to_u32 b = scast b"

section \<open>Collections of rules\<close>

named_theorems c_access \<open>checked array access\<close>
named_theorems queue_simps \<open>the queue operations on the contents of a queue\<close>
named_theorems frame_simps \<open>fields an operation does not write\<close>

section \<open>Checked array access\<close>

text \<open>\<open>rd xs i\<close> is \<open>xs[i]\<close> and \<open>wr xs i v\<close> is \<open>xs[i] = v\<close>; both are undefined outside the array.\<close>

definition rd :: "'a list \<Rightarrow> nat \<Rightarrow> 'a option" where
  "rd xs i = (if i < length xs then Some (xs ! i) else None)"

definition wr :: "'a list \<Rightarrow> nat \<Rightarrow> 'a \<Rightarrow> 'a list option" where
  "wr xs i v = (if i < length xs then Some (xs[i := v]) else None)"

lemma rd_Some [c_access]: "rd xs i = Some x \<longleftrightarrow> i < length xs \<and> x = xs ! i"
  by (auto simp: rd_def)

lemma rd_None [c_access]: "rd xs i = None \<longleftrightarrow> length xs \<le> i"
  by (auto simp: rd_def)

lemma wr_Some [c_access]: "wr xs i v = Some ys \<longleftrightarrow> i < length xs \<and> ys = xs[i := v]"
  by (auto simp: wr_def)

lemma wr_None [c_access]: "wr xs i v = None \<longleftrightarrow> length xs \<le> i"
  by (auto simp: wr_def)

lemma rd_in: "i < length xs \<Longrightarrow> rd xs i = Some (xs ! i)"
  by (simp add: rd_def)

lemma wr_in: "i < length xs \<Longrightarrow> wr xs i v = Some (xs[i := v])"
  by (simp add: wr_def)

section \<open>Lists\<close>

lemma take_Suc_update_at_end:
  "n < length xs \<Longrightarrow> take (Suc n) (xs[n := x]) = take n xs @ [x]"
  by (simp add: take_Suc_conv_app_nth)

lemma take_snoc:
  "length xs \<le> n \<Longrightarrow> take n (xs @ [x]) = (if length xs < n then xs @ [x] else xs)"
  by auto

lemma map_the_Some: "\<forall>x\<in>set xs. x \<noteq> None \<Longrightarrow> map (Some \<circ> the) xs = xs"
  by (induction xs) auto

lemma find_index_unique:
  "i < length xs \<Longrightarrow> xs ! i = x \<Longrightarrow> x \<notin> set (take i xs) \<Longrightarrow>
     remove1 x xs = take i xs @ drop (Suc i) xs"
  by (metis id_take_nth_drop remove1.simps(2) remove1_append)

lemma mset_remove_at:
  "i < length xs \<Longrightarrow> mset (take i xs @ drop (Suc i) xs) = mset xs - {#xs ! i#}"
  by (metis add_mset_remove_trivial id_take_nth_drop mset.simps(2) mset_append union_mset_add_mset_right)

lemma mset_rotate1 [simp]: "mset (rotate1 xs) = mset xs"
  by (cases xs) simp_all

lemma mset_rotate [simp]: "mset (rotate n xs) = mset xs"
  by (induction n) simp_all

lemma rotate_Cons_append: "rotate1 (x # xs) = xs @ [x]"
  by simp

text \<open>Replacing an element in a sum of multisets.\<close>

lemma sum_update:
  fixes f :: "'a \<Rightarrow> 'b multiset"
  assumes "i < length xs"
  shows "sum_list (map f (xs[i := y])) + f (xs ! i) = sum_list (map f xs) + f y"
proof -
  have "xs = take i xs @ xs ! i # drop (Suc i) xs" "xs[i := y] = take i xs @ y # drop (Suc i) xs"
    using assms by (simp_all add: id_take_nth_drop upd_conv_take_nth_drop)
  then have "sum_list (map f xs) = sum_list (map f (take i xs)) + (f (xs ! i) + sum_list (map f (drop (Suc i) xs)))"
    "sum_list (map f (xs[i := y])) = sum_list (map f (take i xs)) + (f y + sum_list (map f (drop (Suc i) xs)))"
    by (metis map_append list.simps(9) sum_list.append sum_list.Cons)+
  then show ?thesis by simp
qed

section \<open>Reachable states of a step relation\<close>

text \<open>
  The threads of the simulator (the timer, the processors, the loader) are step relations
  labelled with the thread that moves. The states a run can be in, and the runs themselves:
\<close>

inductive reach :: "('s \<Rightarrow> bool) \<Rightarrow> ('s \<Rightarrow> 'a \<Rightarrow> 's \<Rightarrow> bool) \<Rightarrow> 's \<Rightarrow> bool"
  for init :: "'s \<Rightarrow> bool" and stp :: "'s \<Rightarrow> 'a \<Rightarrow> 's \<Rightarrow> bool" where
  reach_init: "init s \<Longrightarrow> reach init stp s"
| reach_step: "reach init stp s \<Longrightarrow> stp s a s' \<Longrightarrow> reach init stp s'"

inductive run_of :: "('s \<Rightarrow> 'a \<Rightarrow> 's \<Rightarrow> bool) \<Rightarrow> 's \<Rightarrow> 'a list \<Rightarrow> 's \<Rightarrow> bool"
  for stp :: "'s \<Rightarrow> 'a \<Rightarrow> 's \<Rightarrow> bool" where
  run_Nil: "run_of stp s [] s"
| run_Cons: "stp s a s1 \<Longrightarrow> run_of stp s1 as s' \<Longrightarrow> run_of stp s (a # as) s'"

inductive_simps run_of_simps [simp]: "run_of stp s [] s'" "run_of stp s (a # as) s'"

lemma reach_run: "run_of stp s as s' \<Longrightarrow> reach init stp s \<Longrightarrow> reach init stp s'"
  by (induction rule: run_of.induct) (auto intro: reach_step)

lemma run_append: "run_of stp s as s1 \<Longrightarrow> run_of stp s1 bs s' \<Longrightarrow> run_of stp s (as @ bs) s'"
  by (induction rule: run_of.induct) auto

text \<open>The contract of an invariant: it holds at the start and every step keeps it.\<close>

locale step_invariant =
  fixes init :: "'s \<Rightarrow> bool" and stp :: "'s \<Rightarrow> 'a \<Rightarrow> 's \<Rightarrow> bool" and inv :: "'s \<Rightarrow> bool"
  assumes inv_init: "init s \<Longrightarrow> inv s"
    and inv_step: "stp s a s' \<Longrightarrow> inv s \<Longrightarrow> inv s'"
begin

lemma reach_inv: "reach init stp s \<Longrightarrow> inv s"
  by (induction rule: reach.induct) (auto intro: inv_init inv_step)

lemma run_inv: "run_of stp s as s' \<Longrightarrow> inv s \<Longrightarrow> inv s'"
  by (induction rule: run_of.induct) (auto intro: inv_step)

end

section \<open>Words\<close>

lemma nat_div_16_fixed: "(y :: nat) = y div 16 \<longleftrightarrow> y = 0"
  using div_less_dividend [of 16 y] by (cases "y = 0") auto

lemma unat_drop_bit: "unat (drop_bit m n) = unat n div 2 ^ m"
  by (subst unat_drop_bit_eq) (rule drop_bit_eq_div)

lemma unat_take_bit: "unat (take_bit m n) = unat n mod 2 ^ m"
  by (subst unsigned_take_bit_eq) (rule take_bit_eq_mod)

lemma drop_push_drop: "drop_bit l (push_bit l (drop_bit l (n :: 'a::len word))) = drop_bit l n"
  by (rule bit_word_eqI) (auto simp: bit_simps dest: bit_imp_le_length)

lemma unat_u32_less: "unat (w :: u32) < 2 ^ 32"
proof -
  have "(unsigned w :: nat) < 2 ^ LENGTH(32)" by (rule unsigned_less)
  then show ?thesis by simp
qed

lemma unat_u64_less: "unat (w :: u64) < 2 ^ 64"
proof -
  have "(unsigned w :: nat) < 2 ^ LENGTH(64)" by (rule unsigned_less)
  then show ?thesis by simp
qed

lemma unat_u32_of_nat: "n < 2 ^ 32 \<Longrightarrow> unat (of_nat n :: u32) = n"
  by (simp add: unat_of_nat take_bit_nat_eq_self)

lemma unat_u32_Suc: "unat (w :: u32) < 2 ^ 32 - 1 \<Longrightarrow> unat (w + 1) = Suc (unat w)"
  by (simp add: unat_word_ariths)

lemma unat_u64_of_nat: "a < 2 ^ 64 \<Longrightarrow> unat (of_nat a :: u64) = a"
  by (simp add: unat_of_nat take_bit_nat_eq_self)

lemma u64_of_nat_inj:
  "of_nat a = (of_nat b :: u64) \<Longrightarrow> a < 2 ^ 64 \<Longrightarrow> b < 2 ^ 64 \<Longrightarrow> a = b"
  by (metis unat_u64_of_nat)

lemma uint_less_of_unat: "unat w < 2 ^ k \<Longrightarrow> uint w < 2 ^ k"
proof -
  assume "unat w < 2 ^ k"
  then have "int (unat w) < int (2 ^ k)" by (simp only: of_nat_less_iff)
  then show ?thesis by simp
qed

lemma sint_u64_to_int:
  assumes "unat w < 2 ^ 31"
  shows "sint (u64_to_int w) = int (unat w)"
proof -
  have b: "uint w < 2 ^ 31" using assms by (rule uint_less_of_unat)
  then have u: "uint (u64_to_int w) = uint w"
    by (simp add: u64_to_int_def unsigned_ucast_eq take_bit_int_eq_self)
  have "sint (u64_to_int w) = signed_take_bit 31 (uint (u64_to_int w))"
    by (simp add: sint_uint)
  also have "\<dots> = uint w"
    unfolding u using b uint_ge_0 [of w] by (intro signed_take_bit_int_eq_self) linarith+
  finally show ?thesis by simp
qed

lemma int_to_u64_to_int:
  assumes "unat w < 2 ^ 31"
  shows "int_to_u64 (u64_to_int w) = w"
  unfolding int_to_u64_def scast_eq sint_u64_to_int [OF assms] by simp

end
