(* ===== verification/Scanf.thy ===== *)
theory Scanf
  imports Prelude
begin

text \<open>
  The part of C's formatted input and output that the loader and the boot code use:
  \<open>%u\<close>, \<open>%lu\<close>, \<open>%llu\<close>, \<open>%d\<close>, \<open>%s\<close>, white-space directives and \<open>fgets\<close>, on the characters
  of a stream that are still to be read. A conversion that fails to match is a value, since
  the code goes on after it with what its variables held; a number that does not fit its
  type and a string that does not fit its buffer are undefined (\<open>None\<close>).
\<close>

section \<open>Characters\<close>

definition newline :: char where "newline = char_of (10 :: nat)"

definition is_space :: "char \<Rightarrow> bool" where
  "is_space c \<longleftrightarrow> c = CHR '' '' \<or> (9 \<le> (of_char c :: nat) \<and> (of_char c :: nat) \<le> 13)"

definition is_digit :: "char \<Rightarrow> bool" where
  "is_digit c \<longleftrightarrow> 48 \<le> (of_char c :: nat) \<and> (of_char c :: nat) \<le> 57"

text \<open>A C string ends at the first NUL.\<close>

definition cstr :: "string \<Rightarrow> string" where
  "cstr s = takeWhile (\<lambda>c. (of_char c :: nat) \<noteq> 0) s"

definition skip_ws :: "string \<Rightarrow> string" where
  "skip_ws s = dropWhile is_space s"

section \<open>Numbers\<close>

text \<open>Decimal digits, printed and read back.\<close>

fun digits :: "nat \<Rightarrow> string" where
  "digits n = (if n < 10 then [char_of (48 + n)] else digits (n div 10) @ [char_of (48 + n mod 10)])"

declare digits.simps [simp del]

definition digits_val :: "string \<Rightarrow> nat" where
  "digits_val s = foldl (\<lambda>a c. a * 10 + (of_char c - 48)) 0 s"

text \<open>An optional sign, then digits: whether there was a minus, the digits, the rest.\<close>

definition scan_sign :: "string \<Rightarrow> bool \<times> string" where
  "scan_sign s = (case s of [] \<Rightarrow> (False, [])
     | c # r \<Rightarrow> if c = CHR ''-'' then (True, r) else if c = CHR ''+'' then (False, r) else (False, s))"

text \<open>\<open>%u\<close> and its longer forms, at the width of the result. A minus negates in the type.\<close>

definition scan_u :: "string \<Rightarrow> ('w::len word option \<times> string) option" where
  "scan_u s = (let (neg, s) = scan_sign (skip_ws s);
                   ds = takeWhile is_digit s; r = dropWhile is_digit s; n = digits_val ds in
     if ds = [] then Some (None, s)
     else if n < 2 ^ LENGTH('w) then Some (Some (if neg then - of_nat n else of_nat n), r)
     else None)"

text \<open>\<open>%d\<close>.\<close>

definition scan_d :: "string \<Rightarrow> (int option \<times> string) option" where
  "scan_d s = (let (neg, s) = scan_sign (skip_ws s);
                   ds = takeWhile is_digit s; r = dropWhile is_digit s;
                   n = (if neg then - int (digits_val ds) else int (digits_val ds)) in
     if ds = [] then Some (None, s)
     else if - (2 ^ 31) \<le> n \<and> n < 2 ^ 31 then Some (Some n, r)
     else None)"

text \<open>
  Several numeric conversions in a row, as in \<open>"%u %u"\<close>: the values assigned, in order,
  and the rest; the first one that does not match ends the call. A white-space directive
  before a numeric conversion skips what the conversion would skip itself.
\<close>

primrec scan_us :: "nat \<Rightarrow> string \<Rightarrow> ('w::len word list \<times> string) option" where
  "scan_us 0 s = Some ([], s)"
| "scan_us (Suc n) s = do { (r, s) \<leftarrow> scan_u s;
     case r of None \<Rightarrow> Some ([], s) | Some v \<Rightarrow> do { (vs, s) \<leftarrow> scan_us n s; Some (v # vs, s) } }"

section \<open>Strings\<close>

text \<open>\<open>%s\<close> into a buffer of \<open>cap\<close> bytes; at the end of the stream the buffer keeps what it held.\<close>

definition scan_s :: "nat \<Rightarrow> string option \<Rightarrow> string \<Rightarrow> (string option \<times> string) option" where
  "scan_s cap old s = (let s = skip_ws s; w = takeWhile (\<lambda>c. \<not> is_space c) s in
     if s = [] then Some (old, [])
     else if length w < cap then Some (Some (cstr w), drop (length w) s)
     else None)"

text \<open>The next line, newline included, of at most \<open>n\<close> characters; \<open>fgets\<close> with a buffer of \<open>n + 1\<close>.\<close>

primrec read_line :: "nat \<Rightarrow> string \<Rightarrow> string \<times> string" where
  "read_line 0 s = ([], s)"
| "read_line (Suc n) s = (case s of [] \<Rightarrow> ([], [])
     | c # r \<Rightarrow> if c = newline then ([c], r) else (let (l, r) = read_line n r in (c # l, r)))"

definition fgets :: "nat \<Rightarrow> string option \<Rightarrow> string \<Rightarrow> string option \<times> string" where
  "fgets cap old s = (if s = [] then (old, []) else
     (let (l, r) = read_line (cap - 1) s in (Some (cstr l), r)))"

section \<open>What was printed is read back\<close>

lemma of_char_char_of: "n < 256 \<Longrightarrow> of_char (char_of (n :: nat)) = (n :: nat)"
  by (simp add: of_char_of take_bit_nat_eq_self)

lemma digit_char: "n < 10 \<Longrightarrow> of_char (char_of (48 + n :: nat)) = (48 + n :: nat)"
  by (simp add: of_char_char_of)

lemma digits_nonempty [simp]: "digits n \<noteq> []"
  by (subst digits.simps) simp

lemma digits_are_digits: "c \<in> set (digits n) \<Longrightarrow> is_digit c"
proof (induction n rule: digits.induct)
  case (1 n)
  show ?case
  proof (cases "n < 10")
    case True
    with "1.prems" show ?thesis by (simp add: digits.simps [of n] is_digit_def digit_char)
  next
    case False
    have "is_digit (char_of (48 + n mod 10 :: nat))" by (simp add: is_digit_def digit_char)
    with False 1 show ?thesis by (auto simp: digits.simps [of n])
  qed
qed

lemma digits_val_digits [simp]: "digits_val (digits n) = n"
proof (induction n rule: digits.induct)
  case (1 n)
  then show ?case
    by (cases "n < 10") (simp_all add: digits.simps [of n] digits_val_def digit_char)
qed

lemma length_digits: "n < 10 ^ Suc k \<Longrightarrow> length (digits n) \<le> Suc k"
proof (induction n arbitrary: k rule: digits.induct)
  case (1 n)
  show ?case
  proof (cases "n < 10")
    case True
    then show ?thesis by (simp add: digits.simps [of n])
  next
    case False
    with "1.prems" obtain j where k: "k = Suc j" by (cases k) auto
    have "n div 10 < 10 ^ Suc j" using "1.prems" k by (simp add: less_mult_imp_div_less)
    from "1.IH" [OF False this] False k show ?thesis by (simp add: digits.simps [of n])
  qed
qed

lemma digit_not_space: "is_digit c \<Longrightarrow> \<not> is_space c"
  by (auto simp: is_digit_def is_space_def)

lemma digit_not_sign: "is_digit c \<Longrightarrow> c \<noteq> CHR ''-'' \<and> c \<noteq> CHR ''+''"
  by (auto simp: is_digit_def)

text \<open>A number is followed by something that is not a digit.\<close>

definition no_digit :: "string \<Rightarrow> bool" where
  "no_digit r \<longleftrightarrow> r = [] \<or> \<not> is_digit (hd r)"

lemma take_digits: "no_digit r \<Longrightarrow> takeWhile is_digit (digits n @ r) = digits n"
  and drop_digits: "no_digit r \<Longrightarrow> dropWhile is_digit (digits n @ r) = r"
proof -
  assume r: "no_digit r"
  have a: "\<And>c. c \<in> set (digits n) \<Longrightarrow> is_digit c" by (rule digits_are_digits)
  have r': "takeWhile is_digit r = []" "dropWhile is_digit r = r"
    using r by (cases r; simp add: no_digit_def)+
  show "takeWhile is_digit (digits n @ r) = digits n"
    using a r'(1) by (simp add: takeWhile_append2)
  show "dropWhile is_digit (digits n @ r) = r"
    using a r'(2) by (simp add: dropWhile_append2)
qed

lemma skip_ws_spaces: "\<forall>c\<in>set w. is_space c \<Longrightarrow> skip_ws (w @ s) = skip_ws s"
  by (simp add: skip_ws_def dropWhile_append2)

lemma skip_ws_digits [simp]: "skip_ws (digits n @ s) = digits n @ s"
proof -
  obtain c cs where c: "digits n = c # cs" by (cases "digits n") auto
  then have "is_digit c" using digits_are_digits [of c n] by simp
  with c show ?thesis by (simp add: skip_ws_def digit_not_space)
qed

lemma scan_sign_digits [simp]: "scan_sign (digits n @ s) = (False, digits n @ s)"
proof -
  obtain c cs where c: "digits n = c # cs" by (cases "digits n") auto
  then have "is_digit c" using digits_are_digits [of c n] by simp
  with c digit_not_sign [of c] show ?thesis by (simp add: scan_sign_def)
qed

lemma scan_u_digits:
  assumes "\<forall>c\<in>set w. is_space c" "n < 2 ^ LENGTH('w)" "no_digit r"
  shows "scan_u (w @ digits n @ r) = Some (Some (of_nat n :: 'w::len word), r)"
  using assms by (simp add: scan_u_def skip_ws_spaces take_digits drop_digits)

lemma scan_d_digits:
  assumes "\<forall>c\<in>set w. is_space c" "n < 2 ^ 31" "no_digit r"
  shows "scan_d (w @ digits n @ r) = Some (Some (int n), r)"
proof -
  have "int n < 2 ^ 31" using assms(2) by (metis of_nat_less_iff of_nat_numeral of_nat_power)
  with assms(1,3) show ?thesis by (simp add: scan_d_def skip_ws_spaces take_digits drop_digits)
qed

end
