(* ===== verification/Layout.thy ===== *)
theory Layout
  imports Prelude
begin

text \<open>
  The constants and macros of \<open>include/bitops.h\<close>, \<open>include/mm.h\<close> and \<open>include/mm64.h\<close>:
  bit positions, masks and the operators on them. \<open>CONFIG64\<close> is not defined, so
  \<open>BITS_PER_LONG\<close> is 32 and \<open>GENMASK\<close> makes 32-bit unsigned masks; \<open>long\<close> has 8 bytes.
  Two headers lay out an address: \<open>mm.h\<close> with pages of 256 bytes below 2^22, \<open>mm64.h\<close> with pages
  of 4096 bytes below 2^57. \<open>BIT_ULL_MASK\<close>, \<open>BIT_ULL_WORD\<close> and \<open>PAGING64_ADDR_OFFST\<close> name
  macros that do not exist and cannot be expanded.
\<close>

section \<open>bitops.h\<close>

definition BITS_PER_LONG :: nat where [simp]: "BITS_PER_LONG = 32"
definition BITS_PER_BYTE :: nat where "BITS_PER_BYTE = 8"
definition SIZEOF_LONG :: nat where "SIZEOF_LONG = 8"

definition DIV_ROUND_UP :: "'a::len word \<Rightarrow> 'a word \<Rightarrow> 'a word" where
  "DIV_ROUND_UP n d = (n + d - 1) div d"

definition BIT :: "nat \<Rightarrow> u32" where
  "BIT nr = push_bit nr 1"

definition BIT_ULL :: "nat \<Rightarrow> u64" where
  "BIT_ULL nr = push_bit nr 1"

definition BIT_MASK :: "nat \<Rightarrow> u64" where
  "BIT_MASK nr = push_bit (nr mod BITS_PER_LONG) 1"

definition BIT_WORD :: "nat \<Rightarrow> nat" where
  "BIT_WORD nr = nr div BITS_PER_LONG"

definition BITS_TO_LONGS :: "u64 \<Rightarrow> u64" where
  "BITS_TO_LONGS nr = DIV_ROUND_UP nr (of_nat (BITS_PER_BYTE * SIZEOF_LONG))"

definition GENMASK :: "nat \<Rightarrow> nat \<Rightarrow> u32" where
  "GENMASK h l = push_bit l (NOT 0) AND drop_bit (BITS_PER_LONG - h - 1) (NOT 0)"

text \<open>The macros \<open>NBITS2\<close> to \<open>NBITS32\<close> and \<open>NBITS\<close>: the position of the highest set bit.\<close>

definition NBITS2 :: "u32 \<Rightarrow> nat" where
  "NBITS2 n = (if n AND 2 \<noteq> 0 then 1 else 0)"

definition NBITS4 :: "u32 \<Rightarrow> nat" where
  "NBITS4 n = (if n AND 0xC \<noteq> 0 then 2 + NBITS2 (drop_bit 2 n) else NBITS2 n)"

definition NBITS8 :: "u32 \<Rightarrow> nat" where
  "NBITS8 n = (if n AND 0xF0 \<noteq> 0 then 4 + NBITS4 (drop_bit 4 n) else NBITS4 n)"

definition NBITS16 :: "u32 \<Rightarrow> nat" where
  "NBITS16 n = (if n AND 0xFF00 \<noteq> 0 then 8 + NBITS8 (drop_bit 8 n) else NBITS8 n)"

definition NBITS32 :: "u32 \<Rightarrow> nat" where
  "NBITS32 n = (if n AND 0xFFFF0000 \<noteq> 0 then 16 + NBITS16 (drop_bit 16 n) else NBITS16 n)"

definition NBITS :: "u32 \<Rightarrow> nat" where
  "NBITS n = (if n = 0 then 0 else NBITS32 n)"

definition EXTRACT_NBITS :: "u32 \<Rightarrow> nat \<Rightarrow> nat \<Rightarrow> u32" where
  "EXTRACT_NBITS nr h l = drop_bit l (nr AND GENMASK h l)"

section \<open>mm.h\<close>

text \<open>The bus, the pages and the devices.\<close>

definition PAGING_CPU_BUS_WIDTH :: nat where "PAGING_CPU_BUS_WIDTH = 22"
definition PAGING_PAGESZ :: nat where "PAGING_PAGESZ = 256"
definition PAGING_MEMRAMSZ :: u32 where "PAGING_MEMRAMSZ = BIT 21"
definition PAGING_MEMSWPSZ :: u32 where "PAGING_MEMSWPSZ = BIT 29"
definition PAGING_SWPFPN_OFFSET :: nat where "PAGING_SWPFPN_OFFSET = 5"
definition PAGING_MAX_PGN :: u32 where
  "PAGING_MAX_PGN = DIV_ROUND_UP (BIT PAGING_CPU_BUS_WIDTH) (of_nat PAGING_PAGESZ)"
definition PAGING_SBRK_INIT_SZ :: nat where "PAGING_SBRK_INIT_SZ = PAGING_PAGESZ"

definition PAGING_PAGE_ALIGNSZ :: "u64 \<Rightarrow> u64" where
  "PAGING_PAGE_ALIGNSZ sz = DIV_ROUND_UP sz (of_nat PAGING_PAGESZ) * of_nat PAGING_PAGESZ"

text \<open>The fields of an entry.\<close>

definition PAGING_PTE_USRNUM_LOBIT :: nat where "PAGING_PTE_USRNUM_LOBIT = 15"
definition PAGING_PTE_USRNUM_HIBIT :: nat where "PAGING_PTE_USRNUM_HIBIT = 27"
definition PAGING_PTE_FPN_LOBIT :: nat where "PAGING_PTE_FPN_LOBIT = 0"
definition PAGING_PTE_FPN_HIBIT :: nat where "PAGING_PTE_FPN_HIBIT = 12"
definition PAGING_PTE_SWPTYP_LOBIT :: nat where "PAGING_PTE_SWPTYP_LOBIT = 0"
definition PAGING_PTE_SWPTYP_HIBIT :: nat where "PAGING_PTE_SWPTYP_HIBIT = 4"
definition PAGING_PTE_SWPOFF_LOBIT :: nat where "PAGING_PTE_SWPOFF_LOBIT = 5"
definition PAGING_PTE_SWPOFF_HIBIT :: nat where "PAGING_PTE_SWPOFF_HIBIT = 25"

definition PAGING_PTE_PRESENT_MASK :: u32 where "PAGING_PTE_PRESENT_MASK = BIT 31"
definition PAGING_PTE_SWAPPED_MASK :: u32 where "PAGING_PTE_SWAPPED_MASK = BIT 30"
definition PAGING_PTE_RESERVE_MASK :: u32 where "PAGING_PTE_RESERVE_MASK = BIT 29"
definition PAGING_PTE_DIRTY_MASK :: u32 where "PAGING_PTE_DIRTY_MASK = BIT 28"
definition PAGING_PTE_EMPTY01_MASK :: u32 where "PAGING_PTE_EMPTY01_MASK = BIT 14"
definition PAGING_PTE_EMPTY02_MASK :: u32 where "PAGING_PTE_EMPTY02_MASK = BIT 13"
definition PAGING_PTE_USRNUM_MASK :: u32 where
  "PAGING_PTE_USRNUM_MASK = GENMASK PAGING_PTE_USRNUM_HIBIT PAGING_PTE_USRNUM_LOBIT"
definition PAGING_PTE_FPN_MASK :: u32 where
  "PAGING_PTE_FPN_MASK = GENMASK PAGING_PTE_FPN_HIBIT PAGING_PTE_FPN_LOBIT"
definition PAGING_PTE_SWPTYP_MASK :: u32 where
  "PAGING_PTE_SWPTYP_MASK = GENMASK PAGING_PTE_SWPTYP_HIBIT PAGING_PTE_SWPTYP_LOBIT"
definition PAGING_PTE_SWPOFF_MASK :: u32 where
  "PAGING_PTE_SWPOFF_MASK = GENMASK PAGING_PTE_SWPOFF_HIBIT PAGING_PTE_SWPOFF_LOBIT"

text \<open>The fields of an address.\<close>

definition PAGING_ADDR_OFFST_LOBIT :: nat where "PAGING_ADDR_OFFST_LOBIT = 0"
definition PAGING_ADDR_OFFST_HIBIT :: nat where "PAGING_ADDR_OFFST_HIBIT = NBITS (of_nat PAGING_PAGESZ) - 1"
definition PAGING_ADDR_PGN_LOBIT :: nat where "PAGING_ADDR_PGN_LOBIT = NBITS (of_nat PAGING_PAGESZ)"
definition PAGING_ADDR_PGN_HIBIT :: nat where "PAGING_ADDR_PGN_HIBIT = PAGING_CPU_BUS_WIDTH - 1"
definition PAGING_ADDR_FPN_LOBIT :: nat where "PAGING_ADDR_FPN_LOBIT = NBITS (of_nat PAGING_PAGESZ)"
definition PAGING_ADDR_FPN_HIBIT :: nat where "PAGING_ADDR_FPN_HIBIT = NBITS PAGING_MEMRAMSZ - 1"
definition PAGING_SWP_LOBIT :: nat where "PAGING_SWP_LOBIT = NBITS (of_nat PAGING_PAGESZ)"
definition PAGING_SWP_HIBIT :: nat where "PAGING_SWP_HIBIT = NBITS PAGING_MEMSWPSZ - 1"

definition PAGING_OFFST_MASK :: u32 where
  "PAGING_OFFST_MASK = GENMASK PAGING_ADDR_OFFST_HIBIT PAGING_ADDR_OFFST_LOBIT"
definition PAGING_PGN_MASK :: u32 where
  "PAGING_PGN_MASK = GENMASK PAGING_ADDR_PGN_HIBIT PAGING_ADDR_PGN_LOBIT"
definition PAGING_FPN_MASK :: u32 where
  "PAGING_FPN_MASK = GENMASK PAGING_ADDR_FPN_HIBIT PAGING_ADDR_FPN_LOBIT"
definition PAGING_SWP_MASK :: u32 where
  "PAGING_SWP_MASK = GENMASK PAGING_SWP_HIBIT PAGING_SWP_LOBIT"

text \<open>\<open>SETBIT\<close>, \<open>CLRBIT\<close> and \<open>SETVAL\<close> on a 64-bit entry with a 32-bit mask; \<open>SETVAL\<close> with a
  value of type \<open>int\<close> computes the field in 32 bits. \<open>~mask\<close> of a 32-bit mask is extended with
  zeros, so clearing a field also clears the upper half of the entry, and the model keeps that.
  \<open>GETVAL\<close> is applied to 32-bit values.\<close>

definition SETBIT :: "u64 \<Rightarrow> u32 \<Rightarrow> u64" where
  "SETBIT v m = v OR ucast m"

definition CLRBIT :: "u64 \<Rightarrow> u32 \<Rightarrow> u64" where
  "CLRBIT v m = v AND ucast (NOT m)"

definition SETVAL :: "u64 \<Rightarrow> u64 \<Rightarrow> u32 \<Rightarrow> nat \<Rightarrow> u64" where
  "SETVAL v val m offst = (v AND ucast (NOT m)) OR (push_bit offst val AND ucast m)"

definition SETVAL_int :: "u64 \<Rightarrow> cint \<Rightarrow> u32 \<Rightarrow> nat \<Rightarrow> u64" where
  "SETVAL_int v val m offst = (v AND ucast (NOT m)) OR ucast (push_bit offst val AND m)"

definition GETVAL :: "u32 \<Rightarrow> u32 \<Rightarrow> nat \<Rightarrow> u32" where
  "GETVAL v m offst = drop_bit offst (v AND m)"

definition PAGING_PTE_SET_PRESENT :: "u64 \<Rightarrow> u64" where
  "PAGING_PTE_SET_PRESENT pte = pte OR ucast PAGING_PTE_PRESENT_MASK"

definition PAGING_PAGE_PRESENT :: "u32 \<Rightarrow> bool" where
  "PAGING_PAGE_PRESENT pte \<longleftrightarrow> pte AND PAGING_PTE_PRESENT_MASK \<noteq> 0"

definition PAGING_PTE_OFFST :: "u32 \<Rightarrow> u32" where
  "PAGING_PTE_OFFST pte = GETVAL pte PAGING_OFFST_MASK PAGING_ADDR_OFFST_LOBIT"

definition PAGING_PTE_PGN :: "u32 \<Rightarrow> u32" where
  "PAGING_PTE_PGN pte = GETVAL pte PAGING_PGN_MASK PAGING_ADDR_PGN_LOBIT"

definition PAGING_PTE_FPN :: "u32 \<Rightarrow> u32" where
  "PAGING_PTE_FPN pte = GETVAL pte PAGING_PTE_FPN_MASK PAGING_PTE_FPN_LOBIT"

definition PAGING_PTE_SWP :: "u32 \<Rightarrow> u32" where
  "PAGING_PTE_SWP pte = GETVAL pte PAGING_PTE_SWPOFF_MASK PAGING_SWPFPN_OFFSET"

definition PAGING_SWP :: "u32 \<Rightarrow> u32" where
  "PAGING_SWP pte = drop_bit PAGING_SWPFPN_OFFSET (pte AND PAGING_PTE_SWPOFF_MASK)"

definition PAGING_OFFST :: "u32 \<Rightarrow> u32" where
  "PAGING_OFFST x = GETVAL x PAGING_OFFST_MASK PAGING_ADDR_OFFST_LOBIT"

definition PAGING_PGN :: "u32 \<Rightarrow> u32" where
  "PAGING_PGN x = GETVAL x PAGING_PGN_MASK PAGING_ADDR_PGN_LOBIT"

definition PAGING_FPN :: "u32 \<Rightarrow> u32" where
  "PAGING_FPN x = GETVAL x PAGING_PTE_FPN_MASK PAGING_PTE_FPN_LOBIT"

text \<open>Both tests on ranges are constant.\<close>

definition INCLUDE :: "u64 \<Rightarrow> u64 \<Rightarrow> u64 \<Rightarrow> u64 \<Rightarrow> bool" where
  "INCLUDE x1 x2 y1 y2 = False"

definition OVERLAP :: "u64 \<Rightarrow> u64 \<Rightarrow> u64 \<Rightarrow> u64 \<Rightarrow> bool" where
  "OVERLAP x1 x2 y1 y2 = False"

section \<open>mm64.h\<close>

definition MM64_BITS_PER_LONG :: nat where [simp]: "MM64_BITS_PER_LONG = 64"
definition PAGING64_CPU_BUS_WIDTH :: nat where "PAGING64_CPU_BUS_WIDTH = 57"
definition PAGING64_PAGESZ :: u64 where "PAGING64_PAGESZ = 4096"

definition GENMASK64 :: "nat \<Rightarrow> nat \<Rightarrow> u64" where
  "GENMASK64 h l = push_bit l (NOT 0) AND drop_bit (MM64_BITS_PER_LONG - h - 1) (NOT 0)"

definition PAGING64_MAX_PGN :: nat where
  "PAGING64_MAX_PGN = unat (DIV_ROUND_UP (BIT_ULL 21) PAGING64_PAGESZ)"

definition PAGING64_PAGE_ALIGNSZ :: "u64 \<Rightarrow> u64" where
  "PAGING64_PAGE_ALIGNSZ sz = DIV_ROUND_UP sz PAGING64_PAGESZ * PAGING64_PAGESZ"

definition PAGING64_ADDR_OFFST_HIBIT :: nat where "PAGING64_ADDR_OFFST_HIBIT = 11"
definition PAGING64_ADDR_OFFST_LOBIT :: nat where "PAGING64_ADDR_OFFST_LOBIT = 0"
definition PAGING64_ADDR_PT_HIBIT :: nat where [simp]: "PAGING64_ADDR_PT_HIBIT = 20"
definition PAGING64_ADDR_PT_LOBIT :: nat where [simp]: "PAGING64_ADDR_PT_LOBIT = 12"
definition PAGING64_ADDR_PT_SHIFT :: nat where [simp]: "PAGING64_ADDR_PT_SHIFT = 12"
definition PAGING64_ADDR_PMD_HIBIT :: nat where [simp]: "PAGING64_ADDR_PMD_HIBIT = 29"
definition PAGING64_ADDR_PMD_LOBIT :: nat where [simp]: "PAGING64_ADDR_PMD_LOBIT = 21"
definition PAGING64_ADDR_PUD_HIBIT :: nat where [simp]: "PAGING64_ADDR_PUD_HIBIT = 38"
definition PAGING64_ADDR_PUD_LOBIT :: nat where [simp]: "PAGING64_ADDR_PUD_LOBIT = 30"
definition PAGING64_ADDR_P4D_HIBIT :: nat where [simp]: "PAGING64_ADDR_P4D_HIBIT = 47"
definition PAGING64_ADDR_P4D_LOBIT :: nat where [simp]: "PAGING64_ADDR_P4D_LOBIT = 39"
definition PAGING64_ADDR_PGD_HIBIT :: nat where [simp]: "PAGING64_ADDR_PGD_HIBIT = 56"
definition PAGING64_ADDR_PGD_LOBIT :: nat where [simp]: "PAGING64_ADDR_PGD_LOBIT = 48"

text \<open>The mask of the offset is made of the bit positions of \<open>mm.h\<close>.\<close>

definition PAGING64_ADDR_OFFST_MASK :: u64 where
  "PAGING64_ADDR_OFFST_MASK = GENMASK64 PAGING_ADDR_OFFST_HIBIT PAGING_ADDR_OFFST_LOBIT"
definition PAGING64_ADDR_PT_MASK :: u64 where
  "PAGING64_ADDR_PT_MASK = GENMASK64 PAGING64_ADDR_PT_HIBIT PAGING64_ADDR_PT_LOBIT"
definition PAGING64_ADDR_PMD_MASK :: u64 where
  "PAGING64_ADDR_PMD_MASK = GENMASK64 PAGING64_ADDR_PMD_HIBIT PAGING64_ADDR_PMD_LOBIT"
definition PAGING64_ADDR_PUD_MASK :: u64 where
  "PAGING64_ADDR_PUD_MASK = GENMASK64 PAGING64_ADDR_PUD_HIBIT PAGING64_ADDR_PUD_LOBIT"
definition PAGING64_ADDR_P4D_MASK :: u64 where
  "PAGING64_ADDR_P4D_MASK = GENMASK64 PAGING64_ADDR_P4D_HIBIT PAGING64_ADDR_P4D_LOBIT"
definition PAGING64_ADDR_PGD_MASK :: u64 where
  "PAGING64_ADDR_PGD_MASK = GENMASK64 PAGING64_ADDR_PGD_HIBIT PAGING64_ADDR_PGD_LOBIT"

definition PAGING64_ADDR_PT :: "u64 \<Rightarrow> u64" where
  "PAGING64_ADDR_PT addr = drop_bit PAGING64_ADDR_PT_LOBIT (addr AND PAGING64_ADDR_PT_MASK)"
definition PAGING64_ADDR_PMD :: "u64 \<Rightarrow> u64" where
  "PAGING64_ADDR_PMD addr = drop_bit PAGING64_ADDR_PMD_LOBIT (addr AND PAGING64_ADDR_PMD_MASK)"
definition PAGING64_ADDR_PUD :: "u64 \<Rightarrow> u64" where
  "PAGING64_ADDR_PUD addr = drop_bit PAGING64_ADDR_PUD_LOBIT (addr AND PAGING64_ADDR_PUD_MASK)"
definition PAGING64_ADDR_P4D :: "u64 \<Rightarrow> u64" where
  "PAGING64_ADDR_P4D addr = drop_bit PAGING64_ADDR_P4D_LOBIT (addr AND PAGING64_ADDR_P4D_MASK)"
definition PAGING64_ADDR_PGD :: "u64 \<Rightarrow> u64" where
  "PAGING64_ADDR_PGD addr = drop_bit PAGING64_ADDR_PGD_LOBIT (addr AND PAGING64_ADDR_PGD_MASK)"

section \<open>Bits\<close>

lemma NBITS_256 [simp]: "NBITS 256 = 8"
  by (simp add: NBITS_def NBITS32_def NBITS16_def NBITS8_def NBITS4_def NBITS2_def)

lemma NBITS_PAGESZ [simp]: "NBITS (of_nat PAGING_PAGESZ) = 8"
  by (simp add: PAGING_PAGESZ_def)

lemma MAX_PGN_512 [simp]: "PAGING64_MAX_PGN = 512"
  by (simp add: PAGING64_MAX_PGN_def DIV_ROUND_UP_def BIT_ULL_def PAGING64_PAGESZ_def)

lemma bit_GENMASK [simp]: "h < 32 \<Longrightarrow> bit (GENMASK h l) n \<longleftrightarrow> l \<le> n \<and> n \<le> h"
  by (auto simp: GENMASK_def bit_simps)

lemma bit_GENMASK64 [simp]: "h < 64 \<Longrightarrow> bit (GENMASK64 h l) n \<longleftrightarrow> l \<le> n \<and> n \<le> h"
  by (auto simp: GENMASK64_def bit_simps)

lemma bit_BIT [simp]: "nr < 32 \<Longrightarrow> bit (BIT nr) n \<longleftrightarrow> n = nr"
  by (auto simp: BIT_def bit_simps)

lemmas mask_defs = PAGING_PTE_PRESENT_MASK_def PAGING_PTE_SWAPPED_MASK_def PAGING_PTE_DIRTY_MASK_def
  PAGING_PTE_RESERVE_MASK_def PAGING_PTE_EMPTY01_MASK_def PAGING_PTE_EMPTY02_MASK_def PAGING_PTE_USRNUM_MASK_def
  PAGING_PTE_FPN_MASK_def PAGING_PTE_SWPTYP_MASK_def PAGING_PTE_SWPOFF_MASK_def
  PAGING_OFFST_MASK_def PAGING_PGN_MASK_def PAGING_ADDR_OFFST_HIBIT_def PAGING_ADDR_OFFST_LOBIT_def
  PAGING_ADDR_PGN_HIBIT_def PAGING_ADDR_PGN_LOBIT_def PAGING_ADDR_FPN_LOBIT_def PAGING_CPU_BUS_WIDTH_def
  PAGING_PTE_USRNUM_HIBIT_def PAGING_PTE_USRNUM_LOBIT_def PAGING_PTE_FPN_HIBIT_def PAGING_PTE_FPN_LOBIT_def
  PAGING_PTE_SWPTYP_HIBIT_def PAGING_PTE_SWPTYP_LOBIT_def PAGING_PTE_SWPOFF_HIBIT_def PAGING_PTE_SWPOFF_LOBIT_def
  PAGING_SWPFPN_OFFSET_def

lemmas pte_op_defs = SETBIT_def CLRBIT_def SETVAL_def SETVAL_int_def GETVAL_def

lemmas mask64_defs = PAGING64_ADDR_PT_MASK_def PAGING64_ADDR_PMD_MASK_def PAGING64_ADDR_PUD_MASK_def
  PAGING64_ADDR_P4D_MASK_def PAGING64_ADDR_PGD_MASK_def

lemmas address_field_defs = PAGING64_ADDR_PT_def PAGING64_ADDR_PMD_def PAGING64_ADDR_PUD_def
  PAGING64_ADDR_P4D_def PAGING64_ADDR_PGD_def

text \<open>
  An entry of a page in RAM: its fields are disjoint and cover the 32 bits. An entry of a page
  in swap: the offset lies over the user number, the two empty bits and the upper part of the
  frame number.
\<close>
lemma entry_layout:
  "PAGING_PTE_FPN_MASK + PAGING_PTE_EMPTY02_MASK + PAGING_PTE_EMPTY01_MASK + PAGING_PTE_USRNUM_MASK +
     PAGING_PTE_DIRTY_MASK + PAGING_PTE_RESERVE_MASK + PAGING_PTE_SWAPPED_MASK + PAGING_PTE_PRESENT_MASK = NOT 0 \<and>
   PAGING_PTE_FPN_MASK OR PAGING_PTE_EMPTY02_MASK OR PAGING_PTE_EMPTY01_MASK OR PAGING_PTE_USRNUM_MASK OR
     PAGING_PTE_DIRTY_MASK OR PAGING_PTE_RESERVE_MASK OR PAGING_PTE_SWAPPED_MASK OR PAGING_PTE_PRESENT_MASK = NOT 0 \<and>
   PAGING_PTE_SWPTYP_MASK AND PAGING_PTE_SWPOFF_MASK = 0 \<and>
   PAGING_PTE_SWPOFF_MASK AND PAGING_PTE_USRNUM_MASK = GENMASK 25 15"
  by (simp add: mask_defs GENMASK_def BIT_def mask_eq_exp_minus_1)

text \<open>The page number and the offset of \<open>mm.h\<close> cut the 22 bits of the bus in two; the mask that
  \<open>mm64.h\<close> calls the offset has the 8 bits of the small pages.\<close>

lemma address_layout:
  "PAGING_PGN_MASK + PAGING_OFFST_MASK = BIT PAGING_CPU_BUS_WIDTH - 1 \<and> PAGING_PGN_MASK AND PAGING_OFFST_MASK = 0 \<and>
   PAGING64_ADDR_OFFST_MASK = of_nat PAGING_PAGESZ - 1 \<and>
   PAGING64_ADDR_PGD_MASK + PAGING64_ADDR_P4D_MASK + PAGING64_ADDR_PUD_MASK + PAGING64_ADDR_PMD_MASK + PAGING64_ADDR_PT_MASK
     + (PAGING64_PAGESZ - 1) = BIT_ULL PAGING64_CPU_BUS_WIDTH - 1"
  by (simp add: mask_defs mask64_defs PAGING64_ADDR_OFFST_MASK_def PAGING_PAGESZ_def GENMASK_def GENMASK64_def BIT_def
      BIT_ULL_def PAGING64_PAGESZ_def PAGING64_CPU_BUS_WIDTH_def mask_eq_exp_minus_1)

end
