(* ===== verification/Paging.thy ===== *)
theory Paging
  imports Layout
begin

text \<open>
  The functions of \<open>src/mm64.c\<close> that only compute with entries and addresses: \<open>init_pte\<close>, what
  \<open>pte_set_swap\<close> and \<open>pte_set_fpn\<close> do to an entry, \<open>get_pd_from_address\<close> and
  \<open>get_pd_from_pagenum\<close>. A page table entry is 64 bits wide in the tables.
\<close>

section \<open>Page table entries\<close>

text \<open>\<open>int init_pte(addr_t *pte, \<dots>)\<close>: the return code and the new entry.\<close>

definition init_pte :: "u64 \<Rightarrow> int \<Rightarrow> u64 \<Rightarrow> int \<Rightarrow> int \<Rightarrow> cint \<Rightarrow> u64 \<Rightarrow> int \<times> u64" where
  "init_pte pte pre fpn drt swp swptyp swpoff =
     (if pre \<noteq> 0 then
        if swp = 0 then
          if fpn = 0 then (- 1, pte)
          else
            let pte = SETBIT pte PAGING_PTE_PRESENT_MASK;
                pte = CLRBIT pte PAGING_PTE_SWAPPED_MASK;
                pte = CLRBIT pte PAGING_PTE_DIRTY_MASK
            in (0, SETVAL pte fpn PAGING_PTE_FPN_MASK PAGING_PTE_FPN_LOBIT)
        else
          let pte = SETBIT pte PAGING_PTE_PRESENT_MASK;
              pte = SETBIT pte PAGING_PTE_SWAPPED_MASK;
              pte = CLRBIT pte PAGING_PTE_DIRTY_MASK;
              pte = SETVAL_int pte swptyp PAGING_PTE_SWPTYP_MASK PAGING_PTE_SWPTYP_LOBIT
          in (0, SETVAL pte swpoff PAGING_PTE_SWPOFF_MASK PAGING_PTE_SWPOFF_LOBIT)
      else (0, pte))"

text \<open>What \<open>pte_set_swap\<close> and \<open>pte_set_fpn\<close> do to the entry they have found.\<close>

definition pte_swapped :: "u64 \<Rightarrow> cint \<Rightarrow> u64 \<Rightarrow> u64" where
  "pte_swapped pte swptyp swpoff =
     (let pte = SETBIT pte PAGING_PTE_PRESENT_MASK;
          pte = SETBIT pte PAGING_PTE_SWAPPED_MASK;
          pte = SETVAL_int pte swptyp PAGING_PTE_SWPTYP_MASK PAGING_PTE_SWPTYP_LOBIT
      in SETVAL pte swpoff PAGING_PTE_SWPOFF_MASK PAGING_PTE_SWPOFF_LOBIT)"

definition pte_online :: "u64 \<Rightarrow> u64 \<Rightarrow> u64" where
  "pte_online pte fpn =
     (let pte = SETBIT pte PAGING_PTE_PRESENT_MASK;
          pte = CLRBIT pte PAGING_PTE_SWAPPED_MASK
      in SETVAL pte fpn PAGING_PTE_FPN_MASK PAGING_PTE_FPN_LOBIT)"

section \<open>The five directory indices of an address\<close>

text \<open>\<open>int get_pd_from_address(addr, &pgd, &p4d, &pud, &pmd, &pt)\<close>: the five results.\<close>

definition get_pd_from_address :: "u64 \<Rightarrow> u64 \<times> u64 \<times> u64 \<times> u64 \<times> u64" where
  "get_pd_from_address addr =
     (drop_bit PAGING64_ADDR_PGD_LOBIT (addr AND PAGING64_ADDR_PGD_MASK),
      drop_bit PAGING64_ADDR_P4D_LOBIT (addr AND PAGING64_ADDR_P4D_MASK),
      drop_bit PAGING64_ADDR_PUD_LOBIT (addr AND PAGING64_ADDR_PUD_MASK),
      drop_bit PAGING64_ADDR_PMD_LOBIT (addr AND PAGING64_ADDR_PMD_MASK),
      drop_bit PAGING64_ADDR_PT_LOBIT (addr AND PAGING64_ADDR_PT_MASK))"

definition get_pd_from_pagenum :: "u64 \<Rightarrow> u64 \<times> u64 \<times> u64 \<times> u64 \<times> u64" where
  "get_pd_from_pagenum pgn = get_pd_from_address (push_bit PAGING64_ADDR_PT_SHIFT pgn)"

section \<open>Bits of the operators\<close>

lemma bit_pte_online:
  "bit (pte_online pte fpn) n \<longleftrightarrow>
     (if n < 13 then bit fpn n else n = 31 \<or> (n < 32 \<and> n \<noteq> 30 \<and> bit pte n))"
  by (auto simp: pte_online_def pte_op_defs mask_defs bit_simps Let_def)

lemma bit_pte_swapped:
  "bit (pte_swapped pte t off) n \<longleftrightarrow>
     (if n < 5 then bit t n else if n < 26 then bit off (n - 5)
      else n = 31 \<or> n = 30 \<or> (n < 32 \<and> bit pte n))"
  by (auto simp: pte_swapped_def pte_op_defs mask_defs bit_simps Let_def)

lemma bit_PAGING_FPN: "bit (PAGING_FPN x) n \<longleftrightarrow> n < 13 \<and> bit x n"
  by (auto simp: PAGING_FPN_def GETVAL_def mask_defs bit_simps)

lemma bit_PAGING_SWP: "bit (PAGING_SWP x) n \<longleftrightarrow> n < 21 \<and> bit x (n + 5)"
  by (auto simp: PAGING_SWP_def mask_defs bit_simps add.commute)

lemma PAGING_PTE_SWP_eq [simp]: "PAGING_PTE_SWP x = PAGING_SWP x"
  by (simp add: PAGING_PTE_SWP_def PAGING_SWP_def GETVAL_def)

lemma AND_BIT_nonzero: "nr < 32 \<Longrightarrow> x AND BIT nr \<noteq> 0 \<longleftrightarrow> bit x nr"
proof -
  assume "nr < 32"
  then have "x AND BIT nr = (if bit x nr then BIT nr else 0)" and "BIT nr \<noteq> 0"
    by (auto intro!: bit_word_eqI simp: bit_simps) (metis bit_0_eq bit_BIT bot_apply bot_bool_def)
  then show ?thesis by simp
qed

lemma PAGE_PRESENT_bit [simp]: "PAGING_PAGE_PRESENT x \<longleftrightarrow> bit x 31"
  by (simp add: PAGING_PAGE_PRESENT_def PAGING_PTE_PRESENT_MASK_def AND_BIT_nonzero)

lemma SWAPPED_bit: "x AND PAGING_PTE_SWAPPED_MASK \<noteq> 0 \<longleftrightarrow> bit x 30"
  by (simp add: PAGING_PTE_SWAPPED_MASK_def AND_BIT_nonzero)

lemma bit_PAGING_PGN: "bit (PAGING_PGN x) n \<longleftrightarrow> n < 14 \<and> bit x (n + 8)"
  by (auto simp: PAGING_PGN_def GETVAL_def mask_defs bit_simps add.commute)

lemma bit_PAGING_OFFST: "bit (PAGING_OFFST x) n \<longleftrightarrow> n < 8 \<and> bit x n"
  by (auto simp: PAGING_OFFST_def GETVAL_def mask_defs bit_simps)

lemma PAGING_PGN_eq: "PAGING_PGN x = take_bit 14 (drop_bit 8 x)"
  by (rule bit_word_eqI) (auto simp: bit_PAGING_PGN bit_simps add.commute)

lemma PAGING_OFFST_eq: "PAGING_OFFST x = take_bit 8 x"
  by (rule bit_word_eqI) (auto simp: bit_PAGING_OFFST bit_simps)

lemma get_pd_from_address_eq:
  "get_pd_from_address a =
     (take_bit 9 (drop_bit 48 a), take_bit 9 (drop_bit 39 a), take_bit 9 (drop_bit 30 a),
      take_bit 9 (drop_bit 21 a), take_bit 9 (drop_bit 12 a))"
  unfolding get_pd_from_address_def mask64_defs prod.inject
  by (intro conjI bit_word_eqI) (auto simp: bit_simps)

lemma get_pd_from_pagenum_eq:
  "get_pd_from_pagenum p =
     (take_bit 9 (drop_bit 36 p), take_bit 9 (drop_bit 27 p), take_bit 9 (drop_bit 18 p),
      take_bit 9 (drop_bit 9 p), take_bit 9 p)"
  unfolding get_pd_from_pagenum_def get_pd_from_address_eq prod.inject
  by (intro conjI bit_word_eqI) (auto simp: bit_simps)

lemma unat_take_bit_9: "unat (take_bit 9 w :: u64) < 512"
  unfolding unat_take_bit by simp

lemma get_pd_pagenum_inj:
  "get_pd_from_pagenum p = get_pd_from_pagenum q \<longleftrightarrow> take_bit 45 p = take_bit 45 q"
proof -
  have join: "take_bit 45 x = push_bit 36 (take_bit 9 (drop_bit 36 x)) OR
      push_bit 27 (take_bit 9 (drop_bit 27 x)) OR push_bit 18 (take_bit 9 (drop_bit 18 x)) OR
      push_bit 9 (take_bit 9 (drop_bit 9 x)) OR take_bit 9 x" for x :: u64
    by (rule bit_word_eqI) (simp add: bit_simps cong: conj_cong, auto)
  have parts: "take_bit 9 (drop_bit k x) = take_bit 9 (drop_bit k (take_bit 45 x))"
    if "k \<le> 36" for k and x :: u64
    using that by (intro bit_word_eqI) (auto simp: bit_simps)
  show ?thesis
  proof
    assume "get_pd_from_pagenum p = get_pd_from_pagenum q"
    then show "take_bit 45 p = take_bit 45 q"
      by (subst (1 2) join) (simp only: get_pd_from_pagenum_eq prod.inject)
  next
    assume eq: "take_bit 45 p = take_bit 45 q"
    have "take_bit 9 (drop_bit k p) = take_bit 9 (drop_bit k q)" if "k \<le> 36" for k
      using parts [OF that, of p] parts [OF that, of q] eq by simp
    from this [of 36] this [of 27] this [of 18] this [of 9] this [of 0]
    show "get_pd_from_pagenum p = get_pd_from_pagenum q"
      by (simp add: get_pd_from_pagenum_eq)
  qed
qed

section \<open>Properties\<close>

text \<open>
  An entry set online reads back the frame number (13 bits of it), is present and not
  swapped, and keeps the user bits 13 to 29 of the old entry; the upper half is cleared.
\<close>
lemma pte_online_fields:
  "ucast (PAGING_FPN (ucast (pte_online pte fpn))) = (take_bit 13 fpn :: u64) \<and>
   PAGING_PAGE_PRESENT (ucast (pte_online pte fpn)) \<and>
   ucast (pte_online pte fpn) AND PAGING_PTE_SWAPPED_MASK = 0 \<and>
   take_bit 17 (drop_bit 13 (pte_online pte fpn)) = take_bit 17 (drop_bit 13 pte) \<and>
   drop_bit 32 (pte_online pte fpn) = 0"
  using SWAPPED_bit [of "ucast (pte_online pte fpn)"]
  by (auto intro!: bit_word_eqI simp: bit_PAGING_FPN bit_pte_online bit_simps)

text \<open>
  An entry set to swapped reads back the swap offset (21 bits) and the swap type
  (5 bits) and is marked swapped, but it is still marked present as well, so the test
  \<open>PAGING_PAGE_PRESENT\<close> takes a page in swap for a page in RAM, and the frame number
  read from it is the low part of the swap entry.
\<close>
lemma pte_swapped_fields:
  "ucast (PAGING_SWP (ucast (pte_swapped pte t off))) = (take_bit 21 off :: u64) \<and>
   ucast (pte_swapped pte t off) AND PAGING_PTE_SWPTYP_MASK = take_bit 5 t \<and>
   ucast (pte_swapped pte t off) AND PAGING_PTE_SWAPPED_MASK \<noteq> 0 \<and>
   PAGING_PAGE_PRESENT (ucast (pte_swapped pte t off)) \<and>
   ucast (PAGING_FPN (ucast (pte_swapped pte t off))) =
     (push_bit 5 (take_bit 8 off) OR ucast (take_bit 5 t) :: u64)"
  unfolding SWAPPED_bit PAGE_PRESENT_bit
  by (intro conjI bit_word_eqI; simp add: bit_PAGING_SWP bit_PAGING_FPN bit_pte_swapped
      mask_defs bit_simps add.commute; arith)

text \<open>
  Init_pte refuses an online page with frame 0 and leaves the entry alone then and when
  the page is not present; otherwise it makes the online (or the swapped) entry of
  pte_set_fpn (or pte_set_swap) with the dirty bit cleared.
\<close>
lemma init_pte_cases:
  "init_pte pte pre fpn drt swp t off =
     (if pre = 0 then (0, pte)
      else if swp = 0 \<and> fpn = 0 then (- 1, pte)
      else if swp = 0 then (0, unset_bit 28 (pte_online pte fpn))
      else (0, unset_bit 28 (pte_swapped pte t off)))"
  by (auto simp: init_pte_def pte_online_def pte_swapped_def Let_def intro!: bit_word_eqI)
    (auto simp: pte_op_defs mask_defs bit_simps)

text \<open>
  The five indices of an address are below 512 and determine it up to its page offset
  and the bits above 57: put back at their positions they give the address with the low
  12 bits cleared. Two page numbers have the same indices exactly when they agree in
  their low 45 bits.
\<close>
lemma get_pd_round_trip:
  "(case get_pd_from_address a of (pgd, p4d, pud, pmd, pt) \<Rightarrow>
      push_bit 48 pgd OR push_bit 39 p4d OR push_bit 30 pud OR push_bit 21 pmd OR push_bit 12 pt
        = push_bit 12 (drop_bit 12 (take_bit 57 a)) \<and>
      unat pgd < 512 \<and> unat p4d < 512 \<and> unat pud < 512 \<and> unat pmd < 512 \<and> unat pt < 512) \<and>
   (get_pd_from_pagenum p = get_pd_from_pagenum q \<longleftrightarrow> take_bit 45 p = take_bit 45 q)"
proof -
  have c: "push_bit 48 (take_bit 9 (drop_bit 48 a)) OR push_bit 39 (take_bit 9 (drop_bit 39 a)) OR
      push_bit 30 (take_bit 9 (drop_bit 30 a)) OR push_bit 21 (take_bit 9 (drop_bit 21 a)) OR
      push_bit 12 (take_bit 9 (drop_bit 12 a)) = push_bit 12 (drop_bit 12 (take_bit 57 a))"
    by (rule bit_word_eqI) (simp add: bit_simps cong: conj_cong, auto)
  show ?thesis using c get_pd_pagenum_inj [of p q] by (simp add: get_pd_from_address_eq unat_take_bit_9)
qed

text \<open>
  The access path (libread, libwrite) splits an address at 8 bits and the mapping path
  (vmap_page_range) at 12 bits: below the 4 MB of the bus the two agree on the page
  number only for the first 256 bytes.
\<close>
lemma page_split_mismatch:
  assumes "a < (2 ^ 22 :: u64)"
  shows "ucast (PAGING_PGN (u64_to_int a)) = drop_bit 8 a \<and>
    (ucast (PAGING_PGN (u64_to_int a)) = (drop_bit 12 a :: u64) \<longleftrightarrow> a < 256)"
proof -
  have tb: "take_bit 22 a = a"
    using assms by (simp add: word_unat_eq_iff unsigned_take_bit_eq take_bit_nat_eq_self word_less_nat_alt)
  have "ucast (PAGING_PGN (u64_to_int a)) = drop_bit 8 (take_bit 22 a)"
    by (rule bit_word_eqI) (auto simp: bit_PAGING_PGN u64_to_int_def bit_simps add.commute)
  with tb have l: "ucast (PAGING_PGN (u64_to_int a)) = drop_bit 8 a" by simp
  have "drop_bit 8 a = drop_bit 12 a \<longleftrightarrow> unat a div 2 ^ 8 = unat a div 2 ^ 12"
    by (simp only: word_unat_eq_iff unat_drop_bit)
  also have "\<dots> \<longleftrightarrow> unat a div 256 = (unat a div 256) div 16"
    by (simp flip: div_mult2_eq)
  also have "\<dots> \<longleftrightarrow> unat a div 256 = 0" by (rule nat_div_16_fixed)
  also have "\<dots> \<longleftrightarrow> unat a < 256" by (simp add: div_eq_0_iff)
  also have "\<dots> \<longleftrightarrow> a < 256" by (simp add: word_less_nat_alt)
  finally show ?thesis using l by simp
qed

lemma page_split_mismatch_witness:
  "ucast (PAGING_PGN (u64_to_int 300)) = (1 :: u64) \<and> drop_bit 12 (300 :: u64) = 0"
  using page_split_mismatch [of 300] by simp

text \<open>The macros test the upper half of the bits: the halving step of the binary search.\<close>

lemma AND_GENMASK_nonzero:
  fixes n :: u32
  assumes "unat n < 2 ^ Suc h" "h < 32"
  shows "n AND GENMASK h l \<noteq> 0 \<longleftrightarrow> 2 ^ l \<le> unat n"
proof -
  have "take_bit (Suc h) n = n"
    using assms(1) by (simp add: word_unat_eq_iff unsigned_take_bit_eq take_bit_nat_eq_self)
  moreover have "take_bit (Suc h) n AND GENMASK h l = push_bit l (drop_bit l (take_bit (Suc h) n))"
    using assms(2) by (intro bit_word_eqI) (auto simp: bit_simps)
  ultimately have e: "n AND GENMASK h l = push_bit l (drop_bit l n)" by simp
  have "push_bit l (drop_bit l n) = 0 \<longleftrightarrow> drop_bit l n = 0"
    by (metis drop_push_drop drop_bit_of_0 push_bit_of_0)
  also have "\<dots> \<longleftrightarrow> unat n div 2 ^ l = 0"
    by (metis unat_drop_bit unat_eq_zero)
  finally show ?thesis using e by (simp add: div_eq_0_iff not_less)
qed

definition log2_of :: "nat \<Rightarrow> u32 \<Rightarrow> bool" where
  "log2_of x n \<longleftrightarrow> 2 ^ x \<le> unat n \<and> unat n < 2 ^ (x + 1)"

lemma log2_of_shift: "log2_of x (drop_bit m n) \<Longrightarrow> log2_of (m + x) n"
  unfolding log2_of_def unat_drop_bit
  by (simp add: power_add less_mult_imp_div_less div_less_iff_less_mult mult.commute
      less_eq_div_iff_mult_less_eq)

lemma log2_halve:
  assumes "n \<noteq> 0" "unat n < 2 ^ (2 * m)" "0 < m" "2 * m \<le> 32"
    and IH: "\<And>n. n \<noteq> 0 \<Longrightarrow> unat n < 2 ^ m \<Longrightarrow> log2_of (f n) n"
  shows "log2_of (if n AND GENMASK (2 * m - 1) m \<noteq> 0 then m + f (drop_bit m n) else f n) n"
proof -
  have t: "n AND GENMASK (2 * m - 1) m \<noteq> 0 \<longleftrightarrow> 2 ^ m \<le> unat n"
    using assms by (intro AND_GENMASK_nonzero) auto
  have d: "unat (drop_bit m n) = unat n div 2 ^ m"
    by (rule unat_drop_bit)
  show ?thesis
  proof (cases "2 ^ m \<le> unat n")
    case True
    then have "unat n div 2 ^ m \<noteq> 0" by (simp add: div_eq_0_iff)
    then have "drop_bit m n \<noteq> 0" by (metis d unat_0)
    moreover have "unat (drop_bit m n) < 2 ^ m"
      using assms(2) by (simp add: d mult_2 power_add less_mult_imp_div_less)
    ultimately show ?thesis using True t log2_of_shift IH by simp
  next
    case False
    with t IH [OF assms(1)] show ?thesis by simp
  qed
qed

lemma GENMASK_halves:
  "GENMASK 1 1 = 2" "GENMASK 3 2 = 0xC" "GENMASK 7 4 = 0xF0" "GENMASK 15 8 = 0xFF00"
  "GENMASK 31 16 = 0xFFFF0000"
  by (simp_all add: GENMASK_def mask_eq_exp_minus_1)

lemma NBITS2_log2: "n \<noteq> 0 \<Longrightarrow> unat n < 2 ^ 2 \<Longrightarrow> log2_of (NBITS2 n) n"
  using log2_halve [of n 1 "\<lambda>_. 0"] GENMASK_halves(1)
  by (simp add: NBITS2_def log2_of_def unat_gt_0 Suc_le_eq split: if_splits)

lemma NBITS4_log2: "n \<noteq> 0 \<Longrightarrow> unat n < 2 ^ 4 \<Longrightarrow> log2_of (NBITS4 n) n"
  using log2_halve [of n 2 NBITS2] NBITS2_log2 by (simp add: NBITS4_def GENMASK_halves)

lemma NBITS8_log2: "n \<noteq> 0 \<Longrightarrow> unat n < 2 ^ 8 \<Longrightarrow> log2_of (NBITS8 n) n"
  using log2_halve [of n 4 NBITS4] NBITS4_log2 by (simp add: NBITS8_def GENMASK_halves)

lemma NBITS16_log2: "n \<noteq> 0 \<Longrightarrow> unat n < 2 ^ 16 \<Longrightarrow> log2_of (NBITS16 n) n"
  using log2_halve [of n 8 NBITS8] NBITS8_log2 by (simp add: NBITS16_def GENMASK_halves)

lemma NBITS32_log2: "n \<noteq> 0 \<Longrightarrow> log2_of (NBITS32 n) n"
  using log2_halve [of n 16 NBITS16] NBITS16_log2 unsigned_less [where 'a = nat, of n]
  by (simp add: NBITS32_def GENMASK_halves)

text \<open>
  \<open>NBITS\<close> is the position of the highest set bit: for every non-zero 32-bit number n,
  2^(NBITS n) <= n < 2^(NBITS n + 1).
\<close>
lemma NBITS_is_log2:
  assumes "n \<noteq> 0"
  shows "2 ^ NBITS n \<le> unat n \<and> unat n < 2 ^ (NBITS n + 1)"
  using NBITS32_log2 [OF assms] assms by (simp add: NBITS_def log2_of_def)

lemma NBITS_is_log2_witness:
  "2 ^ NBITS 4096 \<le> (4096 :: nat) \<and> (4096 :: nat) < 2 ^ (NBITS 4096 + 1)"
  using NBITS_is_log2 [of 4096] by simp

end
