(* ===== verification/Memphy.thy ===== *)
theory Memphy
  imports Paging
begin

text \<open>
  The physical memory devices (\<open>src/mm-memphy.c\<close>, \<open>struct memphy_struct\<close> of
  \<open>include/os-mm.h\<close>) and the page copy between two of them (\<open>__swap_cp_page\<close> of
  \<open>src/mm64.c\<close>). A device pointer is never NULL where these functions are called. Results
  that C stores through a pointer are components of the result; the old contents of the
  target is an argument, since a failing call leaves it. Memory that \<open>malloc\<close> leaves
  uninitialised and the code then uses is an explicit argument as well: \<open>junk\<close> is the
  chain that an uninitialised \<open>fp_next\<close> leads to (empty when the block happens to be zero).
\<close>

section \<open>State and operations\<close>

record memphy_struct =
  storage :: "byte list"
  maxsz :: int
  rdmflg :: int
  cursor :: int
  free_fp_list :: "u64 list"

text \<open>The loop of \<open>int MEMPHY_mv_csr(mp, offset)\<close>\<close>

function mv_csr_loop :: "u64 \<Rightarrow> int \<Rightarrow> int \<Rightarrow> int \<Rightarrow> int" where
  "mv_csr_loop offset mx numstep csr =
     (if of_int numstep < offset \<and> numstep < mx
      then mv_csr_loop offset mx (numstep + 1) ((csr + 1) mod mx) else csr)"
  by pat_completeness auto
termination
  by (relation "measure (\<lambda>(offset, mx, numstep, csr). nat (mx - numstep))") auto

declare mv_csr_loop.simps [simp del]

definition MEMPHY_mv_csr :: "memphy_struct \<Rightarrow> u64 \<Rightarrow> int \<times> memphy_struct" where
  "MEMPHY_mv_csr mp offset = (0, mp\<lparr>cursor := mv_csr_loop offset (maxsz mp) 0 0\<rparr>)"

definition MEMPHY_seq_read ::
  "memphy_struct \<Rightarrow> u64 \<Rightarrow> byte \<Rightarrow> (int \<times> byte \<times> memphy_struct) option" where
  "MEMPHY_seq_read mp addr value =
     (if rdmflg mp = 0 then Some (- 1, value, mp)
      else let (_, mp) = MEMPHY_mv_csr mp addr
           in do { b \<leftarrow> rd (storage mp) (unat addr); Some (0, b, mp) })"

definition MEMPHY_read ::
  "memphy_struct \<Rightarrow> u64 \<Rightarrow> byte \<Rightarrow> (int \<times> byte \<times> memphy_struct) option" where
  "MEMPHY_read mp addr value =
     (if rdmflg mp \<noteq> 0 then do { b \<leftarrow> rd (storage mp) (unat addr); Some (0, b, mp) }
      else MEMPHY_seq_read mp addr value)"

definition MEMPHY_seq_write ::
  "memphy_struct \<Rightarrow> u64 \<Rightarrow> byte \<Rightarrow> (int \<times> memphy_struct) option" where
  "MEMPHY_seq_write mp addr value =
     (if rdmflg mp = 0 then Some (- 1, mp)
      else let (_, mp) = MEMPHY_mv_csr mp addr
           in do { st \<leftarrow> wr (storage mp) (unat addr) value; Some (0, mp\<lparr>storage := st\<rparr>) })"

definition MEMPHY_write ::
  "memphy_struct \<Rightarrow> u64 \<Rightarrow> byte \<Rightarrow> (int \<times> memphy_struct) option" where
  "MEMPHY_write mp addr data =
     (if rdmflg mp \<noteq> 0
      then do { st \<leftarrow> wr (storage mp) (unat addr) data; Some (0, mp\<lparr>storage := st\<rparr>) }
      else MEMPHY_seq_write mp addr data)"

text \<open>The loop of \<open>MEMPHY_format\<close> appends the frames \<open>iter\<close> to \<open>numfp - 1\<close> at the tail.\<close>

function format_loop :: "int \<Rightarrow> int \<Rightarrow> u64 list \<Rightarrow> u64 list" where
  "format_loop iter numfp fps =
     (if iter < numfp then format_loop (iter + 1) numfp (fps @ [of_int iter]) else fps)"
  by pat_completeness auto
termination
  by (relation "measure (\<lambda>(iter, numfp, fps). nat (numfp - iter))") auto

declare format_loop.simps [simp del]

text \<open>\<open>int MEMPHY_format(mp, pagesz)\<close>: the first node's \<open>fp_next\<close> is only set when a second
  node exists.\<close>

definition MEMPHY_format :: "memphy_struct \<Rightarrow> int \<Rightarrow> u64 list \<Rightarrow> int \<times> memphy_struct" where
  "MEMPHY_format mp pagesz junk =
     (let numfp = maxsz mp sdiv pagesz
      in if numfp \<le> 0 then (- 1, mp)
         else (0, mp\<lparr>free_fp_list := format_loop 1 numfp [0] @ (if numfp = 1 then junk else [])\<rparr>))"

definition MEMPHY_get_freefp :: "memphy_struct \<Rightarrow> u64 \<Rightarrow> int \<times> u64 \<times> memphy_struct" where
  "MEMPHY_get_freefp mp retfpn =
     (case free_fp_list mp of
        [] \<Rightarrow> (- 1, retfpn, mp)
      | fpn # fp_next \<Rightarrow> (0, fpn, mp\<lparr>free_fp_list := fp_next\<rparr>))"

definition MEMPHY_put_freefp :: "memphy_struct \<Rightarrow> u64 \<Rightarrow> int \<times> memphy_struct" where
  "MEMPHY_put_freefp mp fpn = (0, mp\<lparr>free_fp_list := fpn # free_fp_list mp\<rparr>)"

text \<open>\<open>int MEMPHY_dump(mp)\<close>: the printed lines are pairs of an address and a value; \<open>v\<close> is the
  variable \<open>tempValue\<close>, which is not initialised.\<close>

primrec dump_cells ::
  "memphy_struct \<Rightarrow> nat list \<Rightarrow> byte \<Rightarrow> ((nat \<times> byte) list \<times> memphy_struct) option" where
  "dump_cells mp [] v = Some ([], mp)"
| "dump_cells mp (i # is) v =
     do { (r, v, mp) \<leftarrow> MEMPHY_read mp (of_nat i) v;
          (out, mp) \<leftarrow> dump_cells mp is v;
          Some ((if r = 0 \<and> v \<noteq> 0 then [(i, v)] else []) @ out, mp) }"

definition MEMPHY_dump ::
  "memphy_struct \<Rightarrow> byte \<Rightarrow> (int \<times> (nat \<times> byte) list \<times> memphy_struct) option" where
  "MEMPHY_dump mp v =
     do { (out, mp) \<leftarrow> dump_cells mp [0..<nat (maxsz mp)] v; Some (0, out, mp) }"

text \<open>\<open>int init_memphy(mp, max_size, randomflg)\<close>\<close>

definition init_memphy :: "memphy_struct \<Rightarrow> u64 \<Rightarrow> int \<Rightarrow> u64 list \<Rightarrow> int \<times> memphy_struct" where
  "init_memphy mp max_size randomflg junk =
     (let mp = mp\<lparr>storage := replicate (unat max_size) 0, maxsz := sint (u64_to_int max_size)\<rparr>;
          (_, mp) = MEMPHY_format mp (int PAGING_PAGESZ) junk;
          mp = mp\<lparr>rdmflg := (if randomflg \<noteq> 0 then 1 else 0)\<rparr>;
          mp = (if rdmflg mp = 0 then mp\<lparr>cursor := 0\<rparr> else mp)
      in (0, mp))"

text \<open>\<open>int __swap_cp_page(mpsrc, srcfpn, mpdst, dstfpn)\<close> on two different devices; \<open>data\<close> is
  the uninitialised variable of the loop body.\<close>

primrec swap_cells ::
  "byte \<Rightarrow> u64 \<Rightarrow> u64 \<Rightarrow> nat list \<Rightarrow> memphy_struct \<times> memphy_struct \<Rightarrow>
     (memphy_struct \<times> memphy_struct) option" where
  "swap_cells data srcfpn dstfpn [] mps = Some mps"
| "swap_cells data srcfpn dstfpn (cellidx # cs) mps =
     (let addrsrc = srcfpn * of_nat PAGING_PAGESZ + of_nat cellidx;
          addrdst = dstfpn * of_nat PAGING_PAGESZ + of_nat cellidx
      in do { (_, d, mpsrc) \<leftarrow> MEMPHY_read (fst mps) addrsrc data;
              (_, mpdst) \<leftarrow> MEMPHY_write (snd mps) addrdst d;
              swap_cells data srcfpn dstfpn cs (mpsrc, mpdst) })"

definition swap_cp_page ::
  "byte \<Rightarrow> memphy_struct \<Rightarrow> u64 \<Rightarrow> memphy_struct \<Rightarrow> u64 \<Rightarrow>
     (int \<times> memphy_struct \<times> memphy_struct) option" where
  "swap_cp_page data mpsrc srcfpn mpdst dstfpn =
     do { (mpsrc, mpdst) \<leftarrow> swap_cells data srcfpn dstfpn [0..<PAGING_PAGESZ] (mpsrc, mpdst);
          Some (0, mpsrc, mpdst) }"

section \<open>A device as a store of bytes\<close>

text \<open>What the clients of a random-access device rely on.\<close>

locale byte_store =
  fixes ld :: "'m \<Rightarrow> u64 \<Rightarrow> byte \<Rightarrow> (int \<times> byte \<times> 'm) option"
    and st :: "'m \<Rightarrow> u64 \<Rightarrow> byte \<Rightarrow> (int \<times> 'm) option"
    and bytes :: "'m \<Rightarrow> byte list"
    and ok :: "'m \<Rightarrow> bool"
  assumes read_in: "ok m \<Longrightarrow> unat a < length (bytes m) \<Longrightarrow> ld m a v = Some (0, bytes m ! unat a, m)"
    and read_out: "ok m \<Longrightarrow> length (bytes m) \<le> unat a \<Longrightarrow> ld m a v = None"
    and write_in: "ok m \<Longrightarrow> unat a < length (bytes m) \<Longrightarrow>
      \<exists>m'. st m a b = Some (0, m') \<and> ok m' \<and> bytes m' = (bytes m)[unat a := b]"
    and write_out: "ok m \<Longrightarrow> length (bytes m) \<le> unat a \<Longrightarrow> st m a b = None"
begin

lemma read_after_write:
  assumes "ok m" "st m a b = Some (r, m')" "unat c < length (bytes m)"
  shows "ld m' c v = Some (0, if c = a then b else bytes m ! unat c, m')"
proof -
  have a: "unat a < length (bytes m)"
    using assms(1,2) write_out [of m a b] by (metis not_le option.distinct(1))
  from write_in [OF assms(1) a, of b] assms(2) have m': "ok m'" "bytes m' = (bytes m)[unat a := b]"
    by auto
  with assms(3) a show ?thesis
    by (auto simp: read_in nth_list_update word_unat_eq_iff)
qed

lemma write_length: "ok m \<Longrightarrow> st m a b = Some (r, m') \<Longrightarrow> ok m' \<and> r = 0 \<and> length (bytes m') = length (bytes m)"
  by (metis length_list_update not_le option.distinct(1) option.inject prod.inject write_in write_out)

end

text \<open>The invariant of a random-access device: the flag is set.\<close>

definition random_access :: "memphy_struct \<Rightarrow> bool" where
  "random_access mp \<longleftrightarrow> rdmflg mp \<noteq> 0"

interpretation ram: byte_store MEMPHY_read MEMPHY_write storage random_access
  by unfold_locales (auto simp: MEMPHY_read_def MEMPHY_write_def random_access_def rd_def wr_def)

section \<open>A device as a pool of frames\<close>

locale frame_pool =
  fixes get :: "'m \<Rightarrow> u64 \<Rightarrow> int \<times> u64 \<times> 'm"
    and put :: "'m \<Rightarrow> u64 \<Rightarrow> int \<times> 'm"
    and frames :: "'m \<Rightarrow> u64 list"
  assumes get_Nil: "frames m = [] \<Longrightarrow> get m f0 = (- 1, f0, m)"
    and get_Cons: "frames m = f # fs \<Longrightarrow> \<exists>m'. get m f0 = (0, f, m') \<and> frames m' = fs"
    and put_frames: "frames (snd (put m f)) = f # frames m"
begin

text \<open>Taking a frame and giving it back restores the pool.\<close>

lemma put_get: "fst (get m f0) = 0 \<Longrightarrow>
    frames (snd (put (snd (snd (get m f0))) (fst (snd (get m f0))))) = frames m"
  using get_Nil [of m f0] get_Cons [of m _ _ f0] by (cases "frames m") (auto simp: put_frames)

lemma get_put: "\<exists>m'. get (snd (put m f)) f0 = (0, f, m') \<and> frames m' = frames m"
  using get_Cons put_frames by simp

text \<open>Giving back a list of frames, first one first, puts them in front in reverse order.\<close>

lemma put_all: "frames (foldl (\<lambda>m f. snd (put m f)) m fs) = rev fs @ frames m"
  by (induction fs arbitrary: m) (simp_all add: put_frames)

end

interpretation pool: frame_pool MEMPHY_get_freefp MEMPHY_put_freefp free_fp_list
  by unfold_locales (auto simp: MEMPHY_get_freefp_def MEMPHY_put_freefp_def)

section \<open>The loops\<close>

lemma of_int_less_u64:
  "0 \<le> k \<Longrightarrow> k < 2 ^ 31 \<Longrightarrow> (of_int k :: u64) < w \<longleftrightarrow> k < uint w"
  by (simp add: word_less_def uint_word_of_int_eq take_bit_int_eq_self)

lemma mv_csr_loop_eq:
  "0 \<le> k \<Longrightarrow> k \<le> mx \<Longrightarrow> 0 < mx \<Longrightarrow> mx < 2 ^ 31 \<Longrightarrow> k \<le> uint off \<Longrightarrow>
     mv_csr_loop off mx k (k mod mx) = min (uint off) mx mod mx"
proof (induction "nat (mx - k)" arbitrary: k)
  case 0
  then show ?case by (subst mv_csr_loop.simps) auto
next
  case (Suc n)
  have guard: "of_int k < off \<and> k < mx \<longleftrightarrow> k < uint off \<and> k < mx"
    using Suc.prems of_int_less_u64 [of k off] by auto
  show ?case
  proof (cases "k < uint off \<and> k < mx")
    case True
    with guard have "mv_csr_loop off mx k (k mod mx) = mv_csr_loop off mx (k + 1) ((k + 1) mod mx)"
      by (subst mv_csr_loop.simps) (simp add: mod_add_left_eq)
    with Suc True show ?thesis by simp
  next
    case False
    with guard Suc.prems show ?thesis by (subst mv_csr_loop.simps) auto
  qed
qed

lemma format_loop_eq:
  "0 \<le> i \<Longrightarrow> i \<le> n \<Longrightarrow> format_loop i n fps = fps @ map of_int [i..n - 1]"
proof (induction i n fps rule: format_loop.induct)
  case (1 i n fps)
  show ?case
  proof (cases "i < n")
    case True
    with "1" have "format_loop (i + 1) n (fps @ [of_int i]) = fps @ [of_int i] @ map of_int [i + 1..n - 1]"
      by simp
    with True show ?thesis by (subst format_loop.simps) (simp add: upto_rec1)
  next
    case False
    with "1.prems" show ?thesis by (subst format_loop.simps) simp
  qed
qed

lemma map_upto_of_nat: "map of_int [0..int n - 1] = (map of_nat [0..<n] :: u64 list)"
  by (induction n) (simp_all add: upto_rec2)

lemma format_frames:
  "0 < n \<Longrightarrow> format_loop 1 (int n) [0] = (map of_nat [0..<n] :: u64 list)"
  by (simp add: format_loop_eq upto_rec1 flip: map_upto_of_nat)

lemma cell_address:
  assumes "unat (f :: u64) * 256 + 256 \<le> n" "n < 2 ^ 64" "k < 256"
  shows "unat (f * of_nat PAGING_PAGESZ + of_nat k) = unat f * 256 + k"
  using assms by (simp add: PAGING_PAGESZ_def unat_word_ariths unat_of_nat take_bit_nat_eq_self)

lemma swap_cells_copies:
  assumes src: "random_access src" "unat s * 256 + 256 \<le> length (storage src)" "length (storage src) < 2 ^ 64"
  shows "random_access dst \<Longrightarrow> unat d * 256 + 256 \<le> length (storage dst) \<Longrightarrow>
    length (storage dst) < 2 ^ 64 \<Longrightarrow> k + n \<le> 256 \<Longrightarrow>
    swap_cells v s d [k..<k + n] (src, dst) = Some (src, dst\<lparr>storage :=
      take (unat d * 256 + k) (storage dst) @ take n (drop (unat s * 256 + k) (storage src)) @
      drop (unat d * 256 + k + n) (storage dst)\<rparr>)"
proof (induction n arbitrary: k dst)
  case 0
  then show ?case by simp
next
  case (Suc n)
  let ?b = "storage src ! (unat s * 256 + k)"
  let ?dst = "dst\<lparr>storage := (storage dst)[unat d * 256 + k := ?b]\<rparr>"
  have as: "unat (s * of_nat PAGING_PAGESZ + of_nat k) = unat s * 256 + k"
    using cell_address [OF src(2,3)] Suc.prems by simp
  have ad: "unat (d * of_nat PAGING_PAGESZ + of_nat k) = unat d * 256 + k"
    using cell_address [OF Suc.prems(2,3)] Suc.prems by simp
  have r: "MEMPHY_read src (s * of_nat PAGING_PAGESZ + of_nat k) v = Some (0, ?b, src)"
    using src Suc.prems as by (subst ram.read_in) auto
  have w: "MEMPHY_write dst (d * of_nat PAGING_PAGESZ + of_nat k) ?b = Some (0, ?dst)"
    using Suc.prems ad by (simp add: MEMPHY_write_def random_access_def wr_def)
  have "swap_cells v s d [k..<k + Suc n] (src, dst) = swap_cells v s d [Suc k..<Suc k + n] (src, ?dst)"
    using r w by (simp add: upt_conv_Cons del: upt_Suc)
  also have "\<dots> = Some (src, ?dst\<lparr>storage :=
      take (unat d * 256 + Suc k) (storage ?dst) @ take n (drop (unat s * 256 + Suc k) (storage src)) @
      drop (unat d * 256 + Suc k + n) (storage ?dst)\<rparr>)"
    using Suc.prems by (intro Suc.IH) (simp_all add: random_access_def)
  also have "take (unat d * 256 + Suc k) (storage ?dst) = take (unat d * 256 + k) (storage dst) @ [?b]"
    using Suc.prems by (simp add: take_Suc_update_at_end)
  also have "drop (unat d * 256 + Suc k + n) (storage ?dst) = drop (unat d * 256 + k + Suc n) (storage dst)"
    using Suc.prems by simp
  finally show ?case
    using src(2) Suc.prems by (simp add: Cons_nth_drop_Suc [symmetric])
qed

lemma dump_cells_eq:
  "random_access mp \<Longrightarrow> k + n \<le> length (storage mp) \<Longrightarrow> length (storage mp) < 2 ^ 64 \<Longrightarrow>
    dump_cells mp [k..<k + n] v =
      Some (filter (\<lambda>(i, b). b \<noteq> 0) (map (\<lambda>i. (i, storage mp ! i)) [k..<k + n]), mp)"
proof (induction n arbitrary: k v)
  case 0
  then show ?case by simp
next
  case (Suc n)
  have "MEMPHY_read mp (of_nat k) v = Some (0, storage mp ! k, mp)"
    using Suc.prems ram.read_in [of mp "of_nat k" v] by (simp add: unat_u64_of_nat)
  with Suc.IH [of "Suc k" "storage mp ! k"] Suc.prems show ?case
    by (simp add: upt_conv_Cons del: upt_Suc)
qed

section \<open>Properties\<close>

text \<open>
  A random-access device is a store of bytes: an access outside the storage is the only
  undefined case, a write succeeds and changes exactly one byte, and every later read
  returns the last byte written at its address.
\<close>
lemma memphy_read_after_write:
  assumes "rdmflg mp \<noteq> 0"
  shows "(MEMPHY_write mp a b = None \<longleftrightarrow> length (storage mp) \<le> unat a) \<and>
    (\<forall>r mp' c v. MEMPHY_write mp a b = Some (r, mp') \<and> unat c < length (storage mp) \<longrightarrow>
       r = 0 \<and> MEMPHY_read mp' c v = Some (0, if c = a then b else storage mp ! unat c, mp'))"
proof -
  have ok: "random_access mp" using assms by (simp add: random_access_def)
  show ?thesis
    using ram.write_in [OF ok, of a b] ram.write_out [OF ok, of a b]
      ram.read_after_write [OF ok, of a b] ram.write_length [OF ok, of a b]
    by (metis linorder_not_le option.distinct(1))
qed

text \<open>A small device for the witnesses.\<close>

definition demo_mem :: memphy_struct where
  "demo_mem = \<lparr>storage = [7, 8, 9], maxsz = 3, rdmflg = 1, cursor = 0, free_fp_list = []\<rparr>"

lemma memphy_read_after_write_witness:
  "\<exists>mp'. MEMPHY_write demo_mem 1 5 = Some (0, mp') \<and> MEMPHY_read mp' 1 0 = Some (0, 5, mp') \<and>
     MEMPHY_read mp' 2 0 = Some (0, 9, mp')"
  using memphy_read_after_write [of demo_mem 1 5]
  by (simp add: demo_mem_def MEMPHY_write_def MEMPHY_read_def wr_def rd_def)

text \<open>
  A device initialised as sequential can not be used: every read and write reports -1,
  because the sequential routines reject exactly the devices that are sequential
  (they test \<open>!mp->rdmflg\<close>), and the storage never changes.
\<close>
lemma sequential_device_refuses:
  assumes "rdmflg mp = 0"
  shows "MEMPHY_read mp a v = Some (- 1, v, mp) \<and> MEMPHY_write mp a b = Some (- 1, mp) \<and>
    MEMPHY_seq_read mp a v = Some (- 1, v, mp) \<and> MEMPHY_seq_write mp a b = Some (- 1, mp)"
  using assms by (simp add: MEMPHY_read_def MEMPHY_write_def MEMPHY_seq_read_def MEMPHY_seq_write_def)

lemma sequential_device_refuses_witness:
  "MEMPHY_read (snd (init_memphy demo_mem 3 0 [])) 0 5 = Some (- 1, 5, snd (init_memphy demo_mem 3 0 []))"
proof -
  have "rdmflg (snd (init_memphy demo_mem 3 0 [])) = 0"
    by (simp add: init_memphy_def case_prod_beta)
  from sequential_device_refuses [OF this] show ?thesis by blast
qed

text \<open>
  Moving the cursor of a sequential device stops: it ends at the requested offset, or at
  the start again when the offset is past the end of the device.
\<close>
lemma mv_csr_position:
  assumes "0 < maxsz mp" "maxsz mp < 2 ^ 31"
  shows "MEMPHY_mv_csr mp off =
    (0, mp\<lparr>cursor := if uint off < maxsz mp then uint off else 0\<rparr>)"
  using mv_csr_loop_eq [of 0 "maxsz mp" off] assms
  by (auto simp: MEMPHY_mv_csr_def min_def)

lemma mv_csr_position_witness: "cursor (snd (MEMPHY_mv_csr demo_mem 2)) = 2"
  using mv_csr_position [of demo_mem 2] by (simp add: demo_mem_def)

lemma sdiv_nat: "0 < d \<Longrightarrow> int n sdiv int d = int (n div d)"
  by (simp add: signed_divide_int_def sgn_if zdiv_int)

text \<open>
  Init_memphy makes a device of zero bytes whose free list holds the frames 0 to
  size/256 - 1, each once. Two sizes are not handled: with exactly one frame the list
  continues into whatever the uninitialised \<open>fp_next\<close> points to, and a device smaller than
  a frame (such as a swap of size 0) keeps an uninitialised free list.
\<close>
lemma init_memphy_frames:
  assumes "unat max_size < 2 ^ 31"
  shows "fst (init_memphy mp max_size fl junk) = 0 \<and>
    storage (snd (init_memphy mp max_size fl junk)) = replicate (unat max_size) 0 \<and>
    maxsz (snd (init_memphy mp max_size fl junk)) = int (unat max_size) \<and>
    (rdmflg (snd (init_memphy mp max_size fl junk)) \<noteq> 0 \<longleftrightarrow> fl \<noteq> 0) \<and>
    free_fp_list (snd (init_memphy mp max_size fl junk)) =
      (if unat max_size < 256 then free_fp_list mp
       else if unat max_size < 512 then 0 # junk
       else map of_nat [0..<unat max_size div 256])"
proof -
  let ?n = "unat max_size div 256"
  have m: "sint (u64_to_int max_size) = int (unat max_size)" by (rule sint_u64_to_int [OF assms])
  have "int (unat max_size) sdiv int PAGING_PAGESZ = int ?n"
    unfolding PAGING_PAGESZ_def by (rule sdiv_nat) simp
  then have d: "uint max_size sdiv int PAGING_PAGESZ = int ?n" by simp
  have z: "?n = 0 \<longleftrightarrow> unat max_size < 256" by (simp add: div_eq_0_iff)
  have o: "?n = 1 \<longleftrightarrow> 256 \<le> unat max_size \<and> unat max_size < 512" by auto
  have f: "free_fp_list (snd (MEMPHY_format (mp\<lparr>storage := replicate (unat max_size) 0,
        maxsz := int (unat max_size)\<rparr>) (int PAGING_PAGESZ) junk)) =
      (if ?n = 0 then free_fp_list mp else if ?n = 1 then 0 # junk else map of_nat [0..<?n])"
    using format_frames [of ?n] by (auto simp: MEMPHY_format_def d Let_def)
  have "storage (snd (MEMPHY_format x p j)) = storage x \<and> maxsz (snd (MEMPHY_format x p j)) = maxsz x"
    for x p j by (simp add: MEMPHY_format_def Let_def)
  with f m z o show ?thesis by (auto simp: init_memphy_def case_prod_beta Let_def)
qed

lemma init_memphy_frames_witness:
  "free_fp_list (snd (init_memphy demo_mem 1024 1 [])) = [0, 1, 2, 3]"
proof -
  have "[0..<4] = [0, 1, 2, 3 :: nat]" by code_simp
  with init_memphy_frames [of 1024 demo_mem 1 "[]"] show ?thesis by simp
qed

text \<open>
  The free list of frames is a stack: a frame given back is the next one taken, taking a
  frame and giving it back restores the list, and taking one from the empty list reports
  -1, keeps the caller's variable and changes nothing.
\<close>
lemma freefp_stack:
  "(\<exists>mp'. MEMPHY_get_freefp (snd (MEMPHY_put_freefp mp f)) f0 = (0, f, mp') \<and>
      free_fp_list mp' = free_fp_list mp) \<and>
   (case MEMPHY_get_freefp mp f0 of (r, g, mp') \<Rightarrow>
      if free_fp_list mp = [] then r = - 1 \<and> g = f0 \<and> mp' = mp
      else r = 0 \<and> free_fp_list (snd (MEMPHY_put_freefp mp' g)) = free_fp_list mp)"
  using pool.get_put [of mp f f0] pool.put_get [of mp f0] pool.get_Nil [of mp f0]
    pool.get_Cons [of mp _ _ f0]
  by (cases "free_fp_list mp") auto

text \<open>
  Swapping a page copies its 256 bytes: when both frames lie inside their random-access
  devices, the call returns 0, the target frame becomes equal to the source frame, and
  every other byte of the target device and the whole source device are unchanged.
\<close>
lemma swap_cp_page_copies:
  assumes "rdmflg src \<noteq> 0" "rdmflg dst \<noteq> 0"
    and "unat s * 256 + 256 \<le> length (storage src)" "length (storage src) < 2 ^ 64"
    and "unat d * 256 + 256 \<le> length (storage dst)" "length (storage dst) < 2 ^ 64"
  shows "swap_cp_page v src s dst d = Some (0, src, dst\<lparr>storage :=
    take (unat d * 256) (storage dst) @ take 256 (drop (unat s * 256) (storage src)) @
    drop (unat d * 256 + 256) (storage dst)\<rparr>)"
  using swap_cells_copies [of src s dst d 0 256 v] assms
  by (simp add: swap_cp_page_def random_access_def PAGING_PAGESZ_def)

lemma swap_cp_page_copies_witness:
  "\<exists>m. swap_cp_page 0 (snd (init_memphy demo_mem 1024 1 [])) 3
      (demo_mem\<lparr>storage := replicate 512 7\<rparr>) 1 = Some (0, snd (init_memphy demo_mem 1024 1 []), m) \<and>
    storage m = replicate 256 7 @ replicate 256 0"
proof -
  obtain src where src: "src = snd (init_memphy demo_mem 1024 1 [])" by simp
  then have i: "storage src = replicate 1024 0" "rdmflg src \<noteq> 0"
    using init_memphy_frames [of 1024 demo_mem 1 "[]"] by simp_all
  obtain dst where dst: "dst = demo_mem\<lparr>storage := replicate 512 7\<rparr>" by simp
  then have j: "storage dst = replicate 512 7" "rdmflg dst \<noteq> 0" by (simp_all add: demo_mem_def)
  show ?thesis
    using swap_cp_page_copies [of src dst 3 1 0] i j
    unfolding src [symmetric] dst [symmetric] by simp
qed

text \<open>
  MEMPHY_dump prints exactly the non-zero bytes of a random-access device, with their
  addresses in increasing order, and changes nothing.
\<close>
lemma memphy_dump_lists_nonzero:
  assumes "rdmflg mp \<noteq> 0" "nat (maxsz mp) \<le> length (storage mp)" "length (storage mp) < 2 ^ 64"
  shows "MEMPHY_dump mp v =
    Some (0, filter (\<lambda>(i, b). b \<noteq> 0) (map (\<lambda>i. (i, storage mp ! i)) [0..<nat (maxsz mp)]), mp)"
  using dump_cells_eq [of mp 0 "nat (maxsz mp)" v] assms by (simp add: MEMPHY_dump_def random_access_def)

lemma memphy_dump_lists_nonzero_witness:
  "MEMPHY_dump demo_mem 0 = Some (0, [(0, 7), (1, 8), (2, 9)], demo_mem)"
proof -
  have "[0..<3] = [0, 1, 2 :: nat]" by code_simp
  with memphy_dump_lists_nonzero [of demo_mem 0] show ?thesis by (simp add: demo_mem_def)
qed

end
