(* ===== verification/Pagetable.thy ===== *)
theory Pagetable
  imports Memphy
begin

text \<open>
  The kernel's memory state (\<open>struct mm_struct\<close>, \<open>struct krnl_t\<close>) and the five-level page
  directory of \<open>src/mm64.c\<close>. A directory table is a block of \<open>PAGING64_MAX_PGN\<close> = 512 words
  made by \<open>calloc\<close>; the blocks allocated so far are the list \<open>tables\<close> and the address of
  block number n is modelled by the number n + 1, so that 0 is NULL and each block has its
  own address. \<open>calloc\<close> returns NULL when the 64-bit address space has no room for another
  table of 4096 bytes; the code does not check it, so a failing call makes the next access
  undefined. The tables are never freed.

  The lemmas show that the directory is a tree and that it implements a map from page
  numbers (45 bits of them) to entries: \<open>pte_of k p\<close> is the entry of page \<open>p\<close>.
\<close>

section \<open>State\<close>

record vm_rg_struct =
  rg_start :: u64
  rg_end :: u64

text \<open>\<open>vm_next\<close> is the list that holds the areas; \<open>vm_mm\<close> (the way back to the \<open>mm_struct\<close>)
  is not read anywhere.\<close>

record vm_area_struct =
  vm_id :: u64
  vm_start :: u64
  vm_end :: u64
  sbrk :: u64
  vm_freerg_list :: "vm_rg_struct list"

record mm_struct =
  pgd :: u64
  p4d :: u64
  pud :: u64
  pmd :: u64
  pt :: u64
  mmap :: "vm_area_struct list"
  symrgtbl :: "vm_rg_struct list"
  fifo_pgn :: "u64 list"

text \<open>The part of \<open>struct krnl_t\<close> that memory management uses, with the heap of tables.\<close>

record krnl_t =
  mm :: "mm_struct option"
  tables :: "u64 list list"
  mram :: memphy_struct
  active_mswp :: memphy_struct

section \<open>Tables and the walk\<close>

definition MAX_TABLES :: nat where
  "MAX_TABLES = 2 ^ 52 - 1"

text \<open>\<open>(addr_t)calloc(PAGING64_MAX_PGN, sizeof(addr_t))\<close>\<close>

definition calloc_table :: "u64 list list \<Rightarrow> u64 list list \<times> u64" where
  "calloc_table h =
     (if length h < MAX_TABLES then (h @ [replicate PAGING64_MAX_PGN 0], of_nat (Suc (length h)))
      else (h, 0))"

text \<open>\<open>t[i]\<close> and \<open>t[i] = v\<close> for a table address \<open>t\<close>\<close>

definition tab_rd :: "u64 list list \<Rightarrow> u64 \<Rightarrow> u64 \<Rightarrow> u64 option" where
  "tab_rd h t i = (if t = 0 then None else do { tbl \<leftarrow> rd h (unat t - 1); rd tbl (unat i) })"

definition tab_wr :: "u64 list list \<Rightarrow> u64 \<Rightarrow> u64 \<Rightarrow> u64 \<Rightarrow> u64 list list option" where
  "tab_wr h t i v =
     (if t = 0 then None
      else do { tbl \<leftarrow> rd h (unat t - 1); tbl \<leftarrow> wr tbl (unat i) v; wr h (unat t - 1) tbl })"

text \<open>One level: \<open>if (t[i] == 0) t[i] = (addr_t)calloc(\<dots>); next = (addr_t* )t[i];\<close>\<close>

definition descend :: "u64 list list \<Rightarrow> u64 \<Rightarrow> u64 \<Rightarrow> (u64 list list \<times> u64) option" where
  "descend h t i =
     do { e \<leftarrow> tab_rd h t i;
          if e = 0
          then (let (h, b) = calloc_table h in do { h \<leftarrow> tab_wr h t i b; Some (h, b) })
          else Some (h, e) }"

text \<open>The four levels that every routine walks: the tables below the root, the last one
  holding the entries.\<close>

definition walk_levels ::
  "u64 list list \<Rightarrow> u64 \<Rightarrow> u64 \<times> u64 \<times> u64 \<times> u64 \<times> u64 \<Rightarrow>
     (u64 list list \<times> u64 \<times> u64 \<times> u64 \<times> u64) option" where
  "walk_levels h root idx =
     (case idx of (i_pgd, i_p4d, i_pud, i_pmd, i_pt) \<Rightarrow>
        do { (h, p4d_tbl) \<leftarrow> descend h root i_pgd;
             (h, pud_tbl) \<leftarrow> descend h p4d_tbl i_p4d;
             (h, pmd_tbl) \<leftarrow> descend h pud_tbl i_pud;
             (h, pt_tbl) \<leftarrow> descend h pmd_tbl i_pmd;
             Some (h, p4d_tbl, pud_tbl, pmd_tbl, pt_tbl) })"

definition pt_index :: "u64 \<Rightarrow> u64" where
  "pt_index pgn = snd (snd (snd (snd (get_pd_from_pagenum pgn))))"

section \<open>Operations\<close>

text \<open>Find the entry of a page and replace it by a function of its old value: the common
  part of the routines that set an entry.\<close>

definition pte_update :: "(u64 \<Rightarrow> u64) \<Rightarrow> krnl_t \<Rightarrow> u64 \<Rightarrow> krnl_t option" where
  "pte_update f k pgn =
     do { m \<leftarrow> mm k;
          (h, _, _, _, pt_tbl) \<leftarrow> walk_levels (tables k) (pgd m) (get_pd_from_pagenum pgn);
          e \<leftarrow> tab_rd h pt_tbl (pt_index pgn);
          h \<leftarrow> tab_wr h pt_tbl (pt_index pgn) (f e);
          Some (k\<lparr>tables := h\<rparr>) }"

definition pte_set_swap :: "krnl_t \<Rightarrow> u64 \<Rightarrow> cint \<Rightarrow> u64 \<Rightarrow> (int \<times> krnl_t) option" where
  "pte_set_swap k pgn swptyp swpoff =
     do { k \<leftarrow> pte_update (\<lambda>pte. pte_swapped pte swptyp swpoff) k pgn; Some (0, k) }"

definition pte_set_fpn :: "krnl_t \<Rightarrow> u64 \<Rightarrow> u64 \<Rightarrow> (int \<times> krnl_t) option" where
  "pte_set_fpn k pgn fpn = do { k \<leftarrow> pte_update (\<lambda>pte. pte_online pte fpn) k pgn; Some (0, k) }"

definition pte_set_entry :: "krnl_t \<Rightarrow> u64 \<Rightarrow> u32 \<Rightarrow> (int \<times> krnl_t) option" where
  "pte_set_entry k pgn pte_val = do { k \<leftarrow> pte_update (\<lambda>_. ucast pte_val) k pgn; Some (0, k) }"

definition pte_get_entry :: "krnl_t \<Rightarrow> u64 \<Rightarrow> (u32 \<times> krnl_t) option" where
  "pte_get_entry k pgn =
     (case mm k of
        None \<Rightarrow> Some (0, k)
      | Some m \<Rightarrow>
          if pgd m = 0 \<or> p4d m = 0 \<or> pud m = 0 \<or> pmd m = 0 \<or> pt m = 0 then Some (0, k)
          else
            do { (h, _, _, _, pt_tbl) \<leftarrow> walk_levels (tables k) (pgd m) (get_pd_from_pagenum pgn);
                 e \<leftarrow> tab_rd h pt_tbl (pt_index pgn);
                 Some (ucast e, k\<lparr>tables := h\<rparr>) })"

text \<open>\<open>vmap_pgd_memset\<close>: the pattern is written through \<open>mm->pt\<close>, not through the table found.\<close>

primrec memset_loop :: "mm_struct \<Rightarrow> u64 \<Rightarrow> nat list \<Rightarrow> u64 list list \<Rightarrow> u64 list list option" where
  "memset_loop m addr [] h = Some h"
| "memset_loop m addr (pgit # ps) h =
     (let pgn = addr div PAGING64_PAGESZ + of_nat pgit
      in do { (h, _) \<leftarrow> walk_levels h (pgd m) (get_pd_from_pagenum pgn);
              h \<leftarrow> tab_wr h (pt m) (pt_index pgn) 0xdeadbeef;
              memset_loop m addr ps h })"

definition vmap_pgd_memset :: "krnl_t \<Rightarrow> u64 \<Rightarrow> cint \<Rightarrow> (int \<times> krnl_t) option" where
  "vmap_pgd_memset k addr pgnum =
     (if sint pgnum \<le> 0 then Some (0, k)
      else do { m \<leftarrow> mm k;
                h \<leftarrow> memset_loop m addr [0..<nat (sint pgnum)] (tables k);
                Some (0, k\<lparr>tables := h\<rparr>) })"

section \<open>Reading and writing tables\<close>

definition valid_tab :: "u64 list list \<Rightarrow> u64 \<Rightarrow> bool" where
  "valid_tab h t \<longleftrightarrow> t \<noteq> 0 \<and> unat t \<le> length h"

definition full_tabs :: "u64 list list \<Rightarrow> bool" where
  "full_tabs h \<longleftrightarrow> (\<forall>tbl \<in> set h. length tbl = PAGING64_MAX_PGN)"

lemma valid_tab_pos: "valid_tab h t \<Longrightarrow> 0 < unat t \<and> unat t \<le> length h"
  by (simp add: valid_tab_def unat_gt_0)

lemma tab_index_less: "valid_tab h t \<Longrightarrow> unat t - 1 < length h"
  using valid_tab_pos [of h t] by linarith

lemma tab_rd_valid:
  assumes "full_tabs h" "valid_tab h t" "unat i < 512"
  shows "tab_rd h t i = Some (h ! (unat t - 1) ! unat i)"
proof -
  have "h ! (unat t - 1) \<in> set h" using tab_index_less [OF assms(2)] by (rule nth_mem)
  then have "length (h ! (unat t - 1)) = 512" using assms(1) by (simp add: full_tabs_def)
  with assms tab_index_less [OF assms(2)] show ?thesis
    by (simp add: tab_rd_def rd_def valid_tab_def)
qed

lemma tab_wr_valid:
  assumes "full_tabs h" "valid_tab h t" "unat i < 512"
  shows "tab_wr h t i v = Some (h[unat t - 1 := (h ! (unat t - 1))[unat i := v]])"
proof -
  have "h ! (unat t - 1) \<in> set h" using tab_index_less [OF assms(2)] by (rule nth_mem)
  then have "length (h ! (unat t - 1)) = 512" using assms(1) by (simp add: full_tabs_def)
  with assms tab_index_less [OF assms(2)] show ?thesis
    by (simp add: tab_wr_def rd_def wr_def valid_tab_def)
qed

lemma valid_tab_inj:
  assumes "valid_tab h t" "valid_tab h u"
  shows "unat t - 1 = unat u - 1 \<longleftrightarrow> t = u"
proof -
  have "unat t - 1 = unat u - 1 \<longleftrightarrow> unat t = unat u"
    using valid_tab_pos [OF assms(1)] valid_tab_pos [OF assms(2)] by linarith
  then show ?thesis by (simp only: word_unat_eq_iff)
qed

lemma tab_wr_spec:
  assumes "full_tabs h" "valid_tab h t" "unat i < 512"
  obtains h' where "tab_wr h t i v = Some h'" "full_tabs h'" "length h' = length h"
    "\<And>u j. valid_tab h u \<Longrightarrow> unat j < 512 \<Longrightarrow>
       tab_rd h' u j = (if u = t \<and> j = i then Some v else tab_rd h u j)"
proof -
  let ?h = "h[unat t - 1 := (h ! (unat t - 1))[unat i := v]]"
  have "h ! (unat t - 1) \<in> set h" using tab_index_less [OF assms(2)] by (rule nth_mem)
  then have len: "length (h ! (unat t - 1)) = 512" using assms(1) by (simp add: full_tabs_def)
  have full: "full_tabs ?h"
    using assms(1) len by (auto simp: full_tabs_def dest!: subsetD [OF set_update_subset_insert])
  show thesis
  proof (rule that)
    show "tab_wr h t i v = Some ?h" by (rule tab_wr_valid [OF assms])
    show "full_tabs ?h" by (rule full)
    show "length ?h = length h" by simp
    fix u j assume u: "valid_tab h u" "unat (j :: u64) < 512"
    have "valid_tab ?h u" using u by (simp add: valid_tab_def)
    with u full assms(1) have "tab_rd ?h u j = Some (?h ! (unat u - 1) ! unat j)"
      "tab_rd h u j = Some (h ! (unat u - 1) ! unat j)" by (simp_all add: tab_rd_valid)
    moreover have "?h ! (unat u - 1) ! unat j =
        (if u = t \<and> j = i then v else h ! (unat u - 1) ! unat j)"
      using assms(3) len tab_index_less [OF assms(2)] valid_tab_inj [OF assms(2) u(1)]
        word_unat_eq_iff [of i j] by (cases "u = t"; cases "j = i") simp_all
    ultimately show "tab_rd ?h u j = (if u = t \<and> j = i then Some v else tab_rd h u j)"
      by simp
  qed
qed

section \<open>The directory is a tree\<close>

text \<open>\<open>path h root p\<close> is the table reached from the root along the indices \<open>p\<close>.\<close>

definition next_tab :: "u64 list list \<Rightarrow> u64 \<Rightarrow> u64 \<Rightarrow> u64 option" where
  "next_tab h t i = (case tab_rd h t i of None \<Rightarrow> None | Some e \<Rightarrow> if e = 0 then None else Some e)"

definition path :: "u64 list list \<Rightarrow> u64 \<Rightarrow> u64 list \<Rightarrow> u64 option" where
  "path h root p = foldl (\<lambda>t i. case t of None \<Rightarrow> None | Some t \<Rightarrow> next_tab h t i) (Some root) p"

lemma path_Nil [simp]: "path h root [] = Some root"
  by (simp add: path_def)

lemma path_snoc [simp]:
  "path h root (p @ [i]) = (case path h root p of None \<Rightarrow> None | Some t \<Rightarrow> next_tab h t i)"
  by (simp add: path_def)

lemma path_None_append: "path h root p = None \<Longrightarrow> path h root (p @ q) = None"
  by (induction q rule: rev_induct) (simp_all flip: append_assoc)

definition idx_ok :: "u64 list \<Rightarrow> bool" where
  "idx_ok p \<longleftrightarrow> (\<forall>i \<in> set p. unat i < 512)"

lemma idx_ok_simps [simp]: "idx_ok []" "idx_ok (p @ q) \<longleftrightarrow> idx_ok p \<and> idx_ok q"
  "idx_ok (i # p) \<longleftrightarrow> unat i < 512 \<and> idx_ok p"
  by (auto simp: idx_ok_def)

text \<open>
  Every table has 512 words, every non-zero word of the four upper levels is the address of
  a table, and no table is reached along two different paths.
\<close>

definition dir_ok :: "u64 list list \<Rightarrow> u64 \<Rightarrow> bool" where
  "dir_ok h root \<longleftrightarrow> full_tabs h \<and> length h \<le> MAX_TABLES \<and> valid_tab h root \<and>
     (\<forall>p t i e. idx_ok p \<and> length p < 4 \<and> unat i < 512 \<and> path h root p = Some t \<and>
        tab_rd h t i = Some e \<and> e \<noteq> 0 \<longrightarrow> valid_tab h e) \<and>
     (\<forall>p q t. idx_ok p \<and> idx_ok q \<and> length p \<le> 4 \<and> length q \<le> 4 \<and>
        path h root p = Some t \<and> path h root q = Some t \<longrightarrow> p = q)"

text \<open>The entry a path of four indices and a fifth one lead to; 0 where there is no table.\<close>

definition entry_at :: "u64 list list \<Rightarrow> u64 \<Rightarrow> u64 list \<Rightarrow> u64 \<Rightarrow> u64" where
  "entry_at h root p i =
     (case path h root p of None \<Rightarrow> 0 | Some t \<Rightarrow> (case tab_rd h t i of None \<Rightarrow> 0 | Some e \<Rightarrow> e))"

lemma dir_full: "dir_ok h root \<Longrightarrow> full_tabs h"
  and dir_root: "dir_ok h root \<Longrightarrow> valid_tab h root"
  by (simp_all add: dir_ok_def)

lemma dir_valid:
  "dir_ok h root \<Longrightarrow> idx_ok p \<Longrightarrow> length p < 4 \<Longrightarrow> unat i < 512 \<Longrightarrow> path h root p = Some t \<Longrightarrow>
     tab_rd h t i = Some e \<Longrightarrow> e \<noteq> 0 \<Longrightarrow> valid_tab h e"
  unfolding dir_ok_def by blast

lemma dir_inj:
  "dir_ok h root \<Longrightarrow> path h root p = Some t \<Longrightarrow> path h root q = Some t \<Longrightarrow> idx_ok p \<Longrightarrow> idx_ok q \<Longrightarrow>
     length p \<le> 4 \<Longrightarrow> length q \<le> 4 \<Longrightarrow> p = q"
  unfolding dir_ok_def by blast

lemma next_tab_Some: "next_tab h t i = Some e \<longleftrightarrow> tab_rd h t i = Some e \<and> e \<noteq> 0"
  by (auto simp: next_tab_def split: option.splits)

lemma path_valid:
  "dir_ok h root \<Longrightarrow> idx_ok p \<Longrightarrow> length p \<le> 4 \<Longrightarrow> path h root p = Some t \<Longrightarrow> valid_tab h t"
proof (induction p arbitrary: t rule: rev_induct)
  case Nil
  then show ?case by (simp add: dir_root)
next
  case (snoc i p)
  then obtain u where u: "path h root p = Some u" "tab_rd h u i = Some t" "t \<noteq> 0"
    by (auto simp: next_tab_Some split: option.splits)
  with snoc.prems show ?case by (intro dir_valid [of h root p i u t]) auto
qed

lemma valid_tab_append: "valid_tab h t \<Longrightarrow> valid_tab (h @ x) t"
  by (simp add: valid_tab_def)

lemma tab_rd_append: "valid_tab h t \<Longrightarrow> tab_rd (h @ x) t i = tab_rd h t i"
  using tab_index_less [of h t] by (simp add: tab_rd_def rd_def nth_append)

text \<open>The address of a fresh table.\<close>

definition fresh_tab :: "u64 list list \<Rightarrow> u64" where
  "fresh_tab h = of_nat (Suc (length h))"

lemma unat_fresh: "length h < MAX_TABLES \<Longrightarrow> unat (fresh_tab h) = Suc (length h)"
  unfolding fresh_tab_def by (rule unat_u64_of_nat) (simp add: MAX_TABLES_def)

lemma fresh_valid:
  assumes "length h < MAX_TABLES"
  shows "valid_tab (h @ [x]) (fresh_tab h)" and "\<not> valid_tab h (fresh_tab h)" and "fresh_tab h \<noteq> 0"
proof -
  show nz: "fresh_tab h \<noteq> 0" using unat_fresh [OF assms] by (metis nat.distinct(1) unat_0)
  with unat_fresh [OF assms] show "valid_tab (h @ [x]) (fresh_tab h)" "\<not> valid_tab h (fresh_tab h)"
    by (simp_all add: valid_tab_def)
qed

lemma fresh_zero:
  assumes "length h < MAX_TABLES" "unat i < 512"
  shows "tab_rd (h @ [replicate 512 0]) (fresh_tab h) i = Some 0"
  using assms fresh_valid(3) [OF assms(1)] by (simp add: tab_rd_def rd_def unat_fresh)

text \<open>
  Adding a table at a free slot \<open>p @ [i]\<close> of the directory: the slot of \<open>t\<close> holds the address of the
  new table, which is all zero, and every other word is as before.
\<close>

definition grows :: "u64 list list \<Rightarrow> u64 \<Rightarrow> u64 list \<Rightarrow> u64 \<Rightarrow> u64 \<Rightarrow> u64 list list \<Rightarrow> bool" where
  "grows h root p t i h' \<longleftrightarrow> dir_ok h root \<and> length h < MAX_TABLES \<and>
     idx_ok p \<and> length p < 4 \<and> path h root p = Some t \<and> unat i < 512 \<and> tab_rd h t i = Some 0 \<and>
     full_tabs h' \<and> length h' = Suc (length h) \<and>
     (\<forall>u j. valid_tab h u \<longrightarrow> unat j < 512 \<longrightarrow>
        tab_rd h' u j = (if u = t \<and> j = i then Some (fresh_tab h) else tab_rd h u j)) \<and>
     (\<forall>j. unat j < 512 \<longrightarrow> tab_rd h' (fresh_tab h) j = Some 0)"

lemma growsD:
  assumes "grows h root p t i h'"
  shows "dir_ok h root" "length h < MAX_TABLES" "idx_ok p" "length p < 4" "path h root p = Some t" "unat i < 512"
    "tab_rd h t i = Some 0" "full_tabs h'" "length h' = Suc (length h)" "valid_tab h t" "t \<noteq> fresh_tab h"
  using assms path_valid [of h root p t] fresh_valid(2) [of h] by (auto simp: grows_def)

lemma grows_rd:
  "grows h root p t i h' \<Longrightarrow> valid_tab h u \<Longrightarrow> unat j < 512 \<Longrightarrow>
     tab_rd h' u j = (if u = t \<and> j = i then Some (fresh_tab h) else tab_rd h u j)"
  "grows h root p t i h' \<Longrightarrow> unat j < 512 \<Longrightarrow> tab_rd h' (fresh_tab h) j = Some 0"
  by (simp_all add: grows_def)

lemma grows_valid:
  assumes "grows h root p t i h'"
  shows "valid_tab h' u \<longleftrightarrow> u = fresh_tab h \<or> valid_tab h u"
  using growsD(9) [OF assms] unat_fresh [OF growsD(2) [OF assms]] fresh_valid(3) [OF growsD(2) [OF assms]]
  by (auto simp: valid_tab_def word_unat_eq_iff)

lemma grows_next:
  assumes "grows h root p t i h'" "unat j < 512"
  shows "next_tab h' (fresh_tab h) j = None"
    and "next_tab h' t j = (if j = i then Some (fresh_tab h) else next_tab h t j)"
  using grows_rd [OF assms(1)] growsD [OF assms(1)] assms(2) fresh_valid(3) [of h]
  by (simp_all add: next_tab_def)

lemma grows_rd_other:
  assumes "grows h root p t i h'" "path h root q = Some u" "idx_ok q" "length q \<le> 4" "q \<noteq> p" "unat j < 512"
  shows "tab_rd h' u j = tab_rd h u j"
proof -
  have "u \<noteq> t" using dir_inj [OF growsD(1) [OF assms(1)] assms(2), of p] growsD(3-5) [OF assms(1)] assms(3-5) by auto
  then show ?thesis
    using grows_rd(1) [OF assms(1) path_valid [OF growsD(1) [OF assms(1)] assms(3,4,2)] assms(6)] by simp
qed

text \<open>The new path leads to the new table, paths beyond it lead nowhere, and all other paths are
  as before.\<close>

lemma grows_path:
  assumes g: "grows h root p t i h'"
  shows "idx_ok q \<Longrightarrow> length q \<le> 4 \<Longrightarrow> path h' root q =
    (if take (Suc (length p)) q = p @ [i]
     then (if length q = Suc (length p) then Some (fresh_tab h) else None) else path h root q)"
proof (induction q rule: rev_induct)
  case Nil
  then show ?case by simp
next
  case (snoc j q)
  then have j: "unat j < 512" and q: "idx_ok q" "length q \<le> 4" by auto
  note IH = snoc.IH [OF q]
  consider (below) "take (Suc (length p)) q = p @ [i]" | (at) "q = p"
    | (else) "take (Suc (length p)) q \<noteq> p @ [i]" "q \<noteq> p" by blast
  then show ?case
  proof cases
    case below
    then have "Suc (length p) \<le> length q"
      by (metis length_append_singleton length_take min.absorb_iff1 min.commute)
    with IH below grows_next(1) [OF g j] show ?thesis by auto
  next
    case at
    with IH growsD(5) [OF g] grows_next(2) [OF g j] show ?thesis by simp
  next
    case else
    then have "take (Suc (length p)) (q @ [j]) \<noteq> p @ [i]" by (cases "length q \<le> length p") auto
    with IH else grows_rd_other [OF g _ q else(2) j] show ?thesis
      by (simp add: next_tab_def split: option.split)
  qed
qed

lemma grows_path_new: "grows h root p t i h' \<Longrightarrow> path h' root (p @ [i]) = Some (fresh_tab h)"
  using grows_path [of h root p t i h' "p @ [i]"] growsD(3,4,6) [of h root p t i h'] by simp

lemma grows_path_cases:
  assumes "grows h root p t i h'" "path h' root q = Some u" "idx_ok q" "length q \<le> 4"
  shows "q = p @ [i] \<and> u = fresh_tab h \<or> path h root q = Some u \<and> valid_tab h u"
  using grows_path [OF assms(1,3,4)] path_valid [OF growsD(1) [OF assms(1)] assms(3,4)] assms(2)
  by (auto split: if_splits)

lemma grows_dir_ok:
  assumes g: "grows h root p t i h'"
  shows "dir_ok h' root"
  unfolding dir_ok_def
proof (intro conjI allI impI)
  show "full_tabs h'" "length h' \<le> MAX_TABLES" using growsD [OF g] by auto
  show "valid_tab h' root" using grows_valid [OF g] dir_root [OF growsD(1) [OF g]] by simp
next
  fix q u j e
  assume a: "idx_ok q \<and> length q < 4 \<and> unat j < 512 \<and> path h' root q = Some u \<and>
    tab_rd h' u j = Some e \<and> e \<noteq> 0"
  with grows_path_cases [OF g, of q u] grows_rd(2) [OF g, of j]
  have u: "path h root q = Some u" "valid_tab h u" by auto
  with a grows_rd(1) [OF g, of u j] grows_valid [OF g] dir_valid [OF growsD(1) [OF g], of q j u e]
  show "valid_tab h' e" by (auto split: if_splits)
next
  fix q r u
  assume a: "idx_ok q \<and> idx_ok r \<and> length q \<le> 4 \<and> length r \<le> 4 \<and>
    path h' root q = Some u \<and> path h' root r = Some u"
  then show "q = r"
    using grows_path_cases [OF g, of q u] grows_path_cases [OF g, of r u] dir_inj [OF growsD(1) [OF g], of q u r]
      fresh_valid(2) [OF growsD(2) [OF g]] by auto
qed

lemma grows_entry_at:
  assumes g: "grows h root p t i h'" and q: "idx_ok q" "length q = 4" "unat j < 512"
  shows "entry_at h' root q j = entry_at h root q j"
proof (cases "take (Suc (length p)) q = p @ [i]")
  case True
  have "path h root (p @ [i]) = None" using growsD(5,7) [OF g] by (simp add: next_tab_def)
  with True have "path h root q = None" by (metis append_take_drop_id path_None_append)
  with True grows_path [OF g q(1)] q grows_rd(2) [OF g q(3)] show ?thesis by (simp add: entry_at_def)
next
  case False
  have "q \<noteq> p" using growsD(4) [OF g] q(2) by auto
  with False grows_path [OF g q(1)] q grows_rd_other [OF g _ q(1) _ _ q(3)] show ?thesis
    by (simp add: entry_at_def split: option.split)
qed

text \<open>A step down the directory, with the table it may have to add.\<close>

lemma add_table_grows:
  assumes ok: "dir_ok h root" and room: "length h < MAX_TABLES"
    and p: "idx_ok p" "length p < 4" "path h root p = Some t" and i: "unat i < 512"
    and free: "tab_rd h t i = Some 0"
  obtains h' where "tab_wr (h @ [replicate 512 0]) t i (fresh_tab h) = Some h'" "grows h root p t i h'"
proof -
  let ?h = "h @ [replicate 512 0]"
  have t: "valid_tab h t" using path_valid [OF ok p(1) _ p(3)] p(2) by simp
  then have tf: "fresh_tab h \<noteq> t" using fresh_valid(2) [OF room] by blast
  have full: "full_tabs ?h" using dir_full [OF ok] by (simp add: full_tabs_def)
  from tab_wr_spec [OF full valid_tab_append [OF t] i] obtain h' where h':
    "tab_wr ?h t i (fresh_tab h) = Some h'" "full_tabs h'" "length h' = length ?h"
    and rd: "\<And>u j. valid_tab ?h u \<Longrightarrow> unat j < 512 \<Longrightarrow> tab_rd h' u j =
      (if u = t \<and> j = i then Some (fresh_tab h) else tab_rd ?h u j)" by metis
  have "tab_rd h' u j = (if u = t \<and> j = i then Some (fresh_tab h) else tab_rd h u j)"
    if "valid_tab h u" "unat j < 512" for u j
    using rd [OF valid_tab_append that(2)] that by (simp add: tab_rd_append)
  moreover have "tab_rd h' (fresh_tab h) j = Some 0" if "unat j < 512" for j
    using rd [OF fresh_valid(1) [OF room] that] fresh_zero [OF room that] tf by simp
  ultimately have "grows h root p t i h'" using ok room p i free h' by (simp add: grows_def)
  with h'(1) show thesis by (rule that)
qed

lemma descend_ok:
  assumes ok: "dir_ok h root" and room: "length h < MAX_TABLES"
    and p: "idx_ok p" "length p < 4" "path h root p = Some t" and i: "unat i < 512"
  obtains h' t' where "descend h t i = Some (h', t')" "dir_ok h' root"
    "path h' root (p @ [i]) = Some t'" "length h' \<le> Suc (length h)"
    "\<And>q j. idx_ok q \<Longrightarrow> length q = 4 \<Longrightarrow> unat j < 512 \<Longrightarrow> entry_at h' root q j = entry_at h root q j"
proof -
  have t: "valid_tab h t" using path_valid [OF ok p(1) _ p(3)] p(2) by simp
  from tab_rd_valid [OF dir_full [OF ok] t i] obtain e where e: "tab_rd h t i = Some e" by blast
  show thesis
  proof (cases "e = 0")
    case False
    with e that [of h e] p ok show thesis by (simp add: descend_def next_tab_def)
  next
    case True
    with e have "tab_rd h t i = Some 0" by simp
    with add_table_grows [OF assms this] obtain h' where
      h': "tab_wr (h @ [replicate 512 0]) t i (fresh_tab h) = Some h'" and g: "grows h root p t i h'" by blast
    have "descend h t i = Some (h', fresh_tab h)"
      using e True h' room by (simp add: descend_def calloc_table_def fresh_tab_def)
    then show thesis
      using that [of h' "fresh_tab h"] grows_dir_ok [OF g] grows_path_new [OF g] growsD(9) [OF g]
        grows_entry_at [OF g] by simp
  qed
qed

text \<open>Writing an entry, a word of a table of the fifth level, leaves the tree alone.\<close>

definition sets :: "u64 list list \<Rightarrow> u64 \<Rightarrow> u64 list \<Rightarrow> u64 \<Rightarrow> u64 \<Rightarrow> u64 \<Rightarrow> u64 list list \<Rightarrow> bool" where
  "sets h root p t i v h' \<longleftrightarrow> dir_ok h root \<and> idx_ok p \<and> length p = 4 \<and> path h root p = Some t \<and>
     full_tabs h' \<and> length h' = length h \<and>
     (\<forall>u j. valid_tab h u \<longrightarrow> unat j < 512 \<longrightarrow>
        tab_rd h' u j = (if u = t \<and> j = i then Some v else tab_rd h u j))"

lemma sets_rd:
  assumes "sets h root p t i v h'" "path h root q = Some u" "idx_ok q" "length q \<le> 4" "unat j < 512"
  shows "tab_rd h' u j = (if q = p \<and> j = i then Some v else tab_rd h u j)"
proof -
  have d: "dir_ok h root" using assms(1) by (simp add: sets_def)
  have "u = t \<longleftrightarrow> q = p" using dir_inj [OF d assms(2), of p] assms by (auto simp: sets_def)
  with assms path_valid [OF d assms(3,4,2)] show ?thesis by (simp add: sets_def)
qed

lemma sets_path:
  assumes s: "sets h root p t i v h'"
  shows "idx_ok q \<Longrightarrow> length q \<le> 4 \<Longrightarrow> path h' root q = path h root q"
proof (induction q rule: rev_induct)
  case Nil
  then show ?case by simp
next
  case (snoc j q)
  then have "q \<noteq> p" using s by (auto simp: sets_def)
  with snoc sets_rd [OF s, of q _ j] show ?case by (simp add: next_tab_def split: option.split)
qed

lemma sets_dir_ok:
  assumes s: "sets h root p t i v h'"
  shows "dir_ok h' root"
proof -
  have d: "dir_ok h root" and v: "\<And>u. valid_tab h' u \<longleftrightarrow> valid_tab h u"
    using s by (simp_all add: sets_def valid_tab_def)
  show ?thesis
    unfolding dir_ok_def
  proof (intro conjI allI impI)
    show "full_tabs h'" "length h' \<le> MAX_TABLES" "valid_tab h' root"
      using s v d by (simp_all add: sets_def dir_ok_def)
  next
    fix q u j e
    assume a: "idx_ok q \<and> length q < 4 \<and> unat j < 512 \<and> path h' root q = Some u \<and>
      tab_rd h' u j = Some e \<and> e \<noteq> 0"
    then have u: "path h root q = Some u" "q \<noteq> p" using sets_path [OF s, of q] s by (auto simp: sets_def)
    with a have "tab_rd h u j = Some e" using sets_rd [OF s, of q u j] by simp
    with a u v dir_valid [OF d, of q j u e] show "valid_tab h' e" by simp
  next
    fix q r u
    assume a: "idx_ok q \<and> idx_ok r \<and> length q \<le> 4 \<and> length r \<le> 4 \<and>
      path h' root q = Some u \<and> path h' root r = Some u"
    then have "path h root q = Some u" "path h root r = Some u"
      using sets_path [OF s, of q] sets_path [OF s, of r] by metis+
    with a dir_inj [OF d, of q u r] show "q = r" by blast
  qed
qed

lemma sets_entry_at:
  assumes s: "sets h root p t i v h'" and q: "idx_ok q" "length q = 4" "unat j < 512"
  shows "entry_at h' root q j = (if q = p \<and> j = i then v else entry_at h root q j)"
proof (cases "path h root q")
  case None
  with sets_path [OF s q(1)] q(2) s show ?thesis by (auto simp: entry_at_def sets_def)
next
  case (Some u)
  with sets_path [OF s q(1)] sets_rd [OF s Some q(1) _ q(3)] q(2) show ?thesis by (simp add: entry_at_def)
qed

lemma write_entry_ok:
  assumes ok: "dir_ok h root" and p: "idx_ok p" "length p = 4" "path h root p = Some t"
    and i: "unat i < 512"
  obtains h' where "tab_wr h t i v = Some h'" "dir_ok h' root" "length h' = length h"
    "\<And>q j. idx_ok q \<Longrightarrow> length q = 4 \<Longrightarrow> unat j < 512 \<Longrightarrow>
       entry_at h' root q j = (if q = p \<and> j = i then v else entry_at h root q j)"
proof -
  have t: "valid_tab h t" using path_valid [OF ok p(1) _ p(3)] p(2) by simp
  from tab_wr_spec [OF dir_full [OF ok] t i] obtain h' where h': "tab_wr h t i v = Some h'"
    "full_tabs h'" "length h' = length h"
    "\<And>u j. valid_tab h u \<Longrightarrow> unat j < 512 \<Longrightarrow> tab_rd h' u j = (if u = t \<and> j = i then Some v else tab_rd h u j)"
    by metis
  then have s: "sets h root p t i v h'" using ok p by (simp add: sets_def)
  show thesis using that [OF h'(1) sets_dir_ok [OF s] h'(3) sets_entry_at [OF s]] .
qed

section \<open>The walk and the entries of a kernel state\<close>

lemma tab_wr_length: "tab_wr h t i v = Some h' \<Longrightarrow> length h' = length h"
  by (auto simp: tab_wr_def bind_eq_Some_conv wr_Some split: if_splits)

lemma descend_length: "descend h t i = Some (h', b) \<Longrightarrow> length h \<le> length h'"
  by (auto simp: descend_def calloc_table_def bind_eq_Some_conv dest!: tab_wr_length split: if_splits)

lemma valid_tab_mono: "valid_tab h t \<Longrightarrow> length h \<le> length h' \<Longrightarrow> valid_tab h' t"
  by (simp add: valid_tab_def)

lemma walk_levels_ok:
  assumes ok: "dir_ok h root" and room: "length h + 4 \<le> MAX_TABLES"
    and idx: "unat a < 512" "unat b < 512" "unat c < 512" "unat d < 512"
  obtains h' t1 t2 t3 t4 where "walk_levels h root (a, b, c, d, e) = Some (h', t1, t2, t3, t4)"
    "dir_ok h' root" "path h' root [a, b, c, d] = Some t4" "length h' \<le> length h + 4"
    "\<And>q j. idx_ok q \<Longrightarrow> length q = 4 \<Longrightarrow> unat j < 512 \<Longrightarrow> entry_at h' root q j = entry_at h root q j"
    "valid_tab h' t1 \<and> valid_tab h' t2 \<and> valid_tab h' t3"
proof -
  from descend_ok [OF ok, of "[]" root a] room idx obtain h1 t1 where 1: "descend h root a = Some (h1, t1)"
    "dir_ok h1 root" "path h1 root [a] = Some t1" "length h1 \<le> Suc (length h)"
    "\<And>q j. idx_ok q \<Longrightarrow> length q = 4 \<Longrightarrow> unat j < 512 \<Longrightarrow> entry_at h1 root q j = entry_at h root q j"
    by auto
  from descend_ok [OF 1(2) _ _ _ 1(3), of b] 1(4) room idx obtain h2 t2 where 2: "descend h1 t1 b = Some (h2, t2)"
    "dir_ok h2 root" "path h2 root [a, b] = Some t2" "length h2 \<le> Suc (length h1)"
    "\<And>q j. idx_ok q \<Longrightarrow> length q = 4 \<Longrightarrow> unat j < 512 \<Longrightarrow> entry_at h2 root q j = entry_at h1 root q j"
    by auto
  from descend_ok [OF 2(2) _ _ _ 2(3), of c] 1(4) 2(4) room idx obtain h3 t3 where 3: "descend h2 t2 c = Some (h3, t3)"
    "dir_ok h3 root" "path h3 root [a, b, c] = Some t3" "length h3 \<le> Suc (length h2)"
    "\<And>q j. idx_ok q \<Longrightarrow> length q = 4 \<Longrightarrow> unat j < 512 \<Longrightarrow> entry_at h3 root q j = entry_at h2 root q j"
    by auto
  from descend_ok [OF 3(2) _ _ _ 3(3), of d] 1(4) 2(4) 3(4) room idx obtain h4 t4 where 4: "descend h3 t3 d = Some (h4, t4)"
    "dir_ok h4 root" "path h4 root [a, b, c, d] = Some t4" "length h4 \<le> Suc (length h3)"
    "\<And>q j. idx_ok q \<Longrightarrow> length q = 4 \<Longrightarrow> unat j < 512 \<Longrightarrow> entry_at h4 root q j = entry_at h3 root q j"
    by auto
  have "walk_levels h root (a, b, c, d, e) = Some (h4, t1, t2, t3, t4)"
    by (simp add: walk_levels_def 1(1) 2(1) 3(1) 4(1))
  moreover have "length h4 \<le> length h + 4" using 1(4) 2(4) 3(4) 4(4) by linarith
  moreover have "valid_tab h4 t1 \<and> valid_tab h4 t2 \<and> valid_tab h4 t3"
    using path_valid [OF 1(2) _ _ 1(3)] path_valid [OF 2(2) _ _ 2(3)] path_valid [OF 3(2) _ _ 3(3)] idx
      descend_length [OF 2(1)] descend_length [OF 3(1)] descend_length [OF 4(1)]
    by (auto elim: valid_tab_mono)
  ultimately show thesis using that 4(2,3) 1(5) 2(5) 3(5) 4(5) by presburger
qed

definition dir_path :: "u64 \<Rightarrow> u64 list" where
  "dir_path pgn = (case get_pd_from_pagenum pgn of (a, b, c, d, e) \<Rightarrow> [a, b, c, d])"

lemma dir_path_props [simp]: "idx_ok (dir_path pgn)" "length (dir_path pgn) = 4" "unat (pt_index pgn) < 512"
  by (simp_all add: dir_path_def pt_index_def get_pd_from_pagenum_eq unat_take_bit_9)

lemma dir_path_same:
  "dir_path p = dir_path q \<and> pt_index p = pt_index q \<longleftrightarrow> take_bit 45 p = take_bit 45 q"
  by (subst get_pd_pagenum_inj [symmetric])
    (auto simp: dir_path_def pt_index_def split: prod.splits)

lemma walk_page_ok:
  assumes "dir_ok h root" "length h + 4 \<le> MAX_TABLES"
  obtains h' t1 t2 t3 t4 where "walk_levels h root (get_pd_from_pagenum pgn) = Some (h', t1, t2, t3, t4)"
    "dir_ok h' root" "path h' root (dir_path pgn) = Some t4" "length h' \<le> length h + 4"
    "\<And>q. entry_at h' root (dir_path q) (pt_index q) = entry_at h root (dir_path q) (pt_index q)"
    "valid_tab h' t1 \<and> valid_tab h' t2 \<and> valid_tab h' t3"
proof -
  obtain a b c d e where g: "get_pd_from_pagenum pgn = (a, b, c, d, e)" by (metis prod_cases5)
  then have "unat a < 512" "unat b < 512" "unat c < 512" "unat d < 512"
    by (auto simp: get_pd_from_pagenum_eq unat_take_bit_9)
  from walk_levels_ok [OF assms this, of e] that g show thesis
    by (simp add: dir_path_def) (metis dir_path_def dir_path_props)
qed

text \<open>The entry of a page in a kernel state, and the states with a well-formed directory.\<close>

definition pte_of :: "krnl_t \<Rightarrow> u64 \<Rightarrow> u64" where
  "pte_of k pgn = (case mm k of None \<Rightarrow> 0
     | Some m \<Rightarrow> entry_at (tables k) (pgd m) (dir_path pgn) (pt_index pgn))"

definition wf_dir :: "krnl_t \<Rightarrow> bool" where
  "wf_dir k \<longleftrightarrow> (case mm k of None \<Rightarrow> False | Some m \<Rightarrow> dir_ok (tables k) (pgd m))"

definition room :: "krnl_t \<Rightarrow> nat" where
  "room k = MAX_TABLES - length (tables k)"

lemma pte_update_ok:
  assumes "wf_dir k" "4 \<le> room k"
  obtains h where "pte_update f k p = Some (k\<lparr>tables := h\<rparr>)" "wf_dir (k\<lparr>tables := h\<rparr>)"
    "room k \<le> room (k\<lparr>tables := h\<rparr>) + 4"
    "\<And>q. pte_of (k\<lparr>tables := h\<rparr>) q =
      (if take_bit 45 q = take_bit 45 p then f (pte_of k p) else pte_of k q)"
proof -
  from assms obtain m where m: "mm k = Some m" and ok: "dir_ok (tables k) (pgd m)"
    by (auto simp: wf_dir_def split: option.splits)
  have r: "length (tables k) + 4 \<le> MAX_TABLES" using assms(2) by (simp add: room_def)
  obtain h' t1 t2 t3 t4
    where w: "walk_levels (tables k) (pgd m) (get_pd_from_pagenum p) = Some (h', t1, t2, t3, t4)"
      "dir_ok h' (pgd m)" "path h' (pgd m) (dir_path p) = Some t4" "length h' \<le> length (tables k) + 4"
      and same: "\<And>q. entry_at h' (pgd m) (dir_path q) (pt_index q) =
        entry_at (tables k) (pgd m) (dir_path q) (pt_index q)"
    by (rule walk_page_ok [OF ok r, of p]) (rule that; assumption)
  have "valid_tab h' t4" using path_valid [OF w(2) _ _ w(3)] by simp
  from tab_rd_valid [OF dir_full [OF w(2)] this, of "pt_index p"] obtain e
    where e: "tab_rd h' t4 (pt_index p) = Some e" by simp
  then have pe: "pte_of k p = e" using same [of p] m w(3) by (simp add: pte_of_def entry_at_def)
  from write_entry_ok [OF w(2) _ _ w(3), of "pt_index p" "f e"] obtain h
    where h: "tab_wr h' t4 (pt_index p) (f e) = Some h" "dir_ok h (pgd m)" "length h = length h'"
      "\<And>q. entry_at h (pgd m) (dir_path q) (pt_index q) =
        (if dir_path q = dir_path p \<and> pt_index q = pt_index p then f e
         else entry_at h' (pgd m) (dir_path q) (pt_index q))"
    by (metis dir_path_props)
  show thesis
  proof (rule that [of h])
    show "pte_update f k p = Some (k\<lparr>tables := h\<rparr>)"
      by (simp add: pte_update_def m w(1) e h(1))
    show "wf_dir (k\<lparr>tables := h\<rparr>)" using m h(2) by (simp add: wf_dir_def)
    show "room k \<le> room (k\<lparr>tables := h\<rparr>) + 4" using h(3) w(4) r by (simp add: room_def)
    show "pte_of (k\<lparr>tables := h\<rparr>) q =
        (if take_bit 45 q = take_bit 45 p then f (pte_of k p) else pte_of k q)" for q
      using h(4) [of q] same [of q] pe m by (simp add: pte_of_def dir_path_same)
  qed
qed

section \<open>The interface of a page map\<close>

text \<open>What the mapping routines rely on: updating the entry of one page, as long as there is
  room for four more tables, changes the entry of that page and no other.\<close>

locale page_map =
  fixes upd :: "(u64 \<Rightarrow> u64) \<Rightarrow> 'k \<Rightarrow> u64 \<Rightarrow> 'k option"
    and entry :: "'k \<Rightarrow> u64 \<Rightarrow> u64"
    and ok :: "'k \<Rightarrow> bool"
    and space :: "'k \<Rightarrow> nat"
    and same :: "u64 \<Rightarrow> u64 \<Rightarrow> bool"
  assumes same_refl: "same p p"
    and upd_ok: "ok k \<Longrightarrow> 4 \<le> space k \<Longrightarrow> \<exists>k'. upd f k p = Some k' \<and> ok k' \<and> space k \<le> space k' + 4 \<and>
      (\<forall>q. entry k' q = (if same q p then f (entry k q) else entry k q))"
begin

text \<open>Updating the entries of a list of pages, one after the other.\<close>

primrec upd_all :: "((u64 \<Rightarrow> u64) \<times> u64) list \<Rightarrow> 'k \<Rightarrow> 'k option" where
  "upd_all [] k = Some k"
| "upd_all (fp # fps) k = (case upd (fst fp) k (snd fp) of None \<Rightarrow> None | Some k' \<Rightarrow> upd_all fps k')"

lemma upd_all_ok:
  "ok k \<Longrightarrow> 4 * length fps \<le> space k \<Longrightarrow>
    \<exists>k'. upd_all fps k = Some k' \<and> ok k' \<and> space k \<le> space k' + 4 * length fps \<and>
      (\<forall>q. entry k' q = foldl (\<lambda>e fp. if same q (snd fp) then fst fp e else e) (entry k q) fps)"
proof (induction fps arbitrary: k)
  case Nil
  then show ?case by simp
next
  case (Cons fp fps)
  from upd_ok [OF Cons.prems(1), of "fst fp" "snd fp"] Cons.prems(2) obtain k1
    where k1: "upd (fst fp) k (snd fp) = Some k1" "ok k1" "space k \<le> space k1 + 4"
      "\<forall>q. entry k1 q = (if same q (snd fp) then fst fp (entry k q) else entry k q)" by auto
  with Cons.IH [of k1] Cons.prems(2) show ?case by fastforce
qed

text \<open>When no two of the pages are the same, each one is updated once and the rest not at all.\<close>

lemma fold_miss:
  "(\<forall>fp\<in>set fps. \<not> same q (snd fp)) \<Longrightarrow> foldl (\<lambda>e fp. if same q (snd fp) then fst fp e else e) e fps = e"
  by (induction fps arbitrary: e) simp_all

lemma fold_hit:
  "i < length fps \<Longrightarrow> same q (snd (fps ! i)) \<Longrightarrow> (\<forall>j<length fps. j \<noteq> i \<longrightarrow> \<not> same q (snd (fps ! j))) \<Longrightarrow>
     foldl (\<lambda>e fp. if same q (snd fp) then fst fp e else e) e fps = fst (fps ! i) e"
proof (induction fps arbitrary: i e)
  case Nil
  then show ?case by simp
next
  case (Cons fp fps)
  show ?case
  proof (cases i)
    case 0
    have "\<forall>fp\<in>set fps. \<not> same q (snd fp)"
    proof
      fix fp' assume "fp' \<in> set fps"
      then obtain j where "j < length fps" "fps ! j = fp'" by (auto simp: in_set_conv_nth)
      with Cons.prems(3) 0 show "\<not> same q (snd fp')" by (elim allE [of _ "Suc j"]) auto
    qed
    with 0 Cons.prems(2) show ?thesis by (simp add: fold_miss)
  next
    case (Suc n)
    have "\<not> same q (snd fp)" using Cons.prems(3) Suc by (elim allE [of _ 0]) simp
    moreover have "\<forall>j<length fps. j \<noteq> n \<longrightarrow> \<not> same q (snd (fps ! j))"
      using Cons.prems(3) Suc by auto
    ultimately show ?thesis using Cons.IH [of n] Cons.prems(1,2) Suc by simp
  qed
qed

end

definition same_page :: "u64 \<Rightarrow> u64 \<Rightarrow> bool" where
  "same_page p q \<longleftrightarrow> take_bit 45 p = take_bit 45 q"

lemma pte_of_same: "same_page p q \<Longrightarrow> pte_of k p = pte_of k q"
  using dir_path_same [of p q] by (simp add: same_page_def pte_of_def split: option.split)

interpretation dir: page_map pte_update pte_of wf_dir room same_page
proof
  show "same_page p p" for p by (simp add: same_page_def)
  show "\<exists>k'. pte_update f k p = Some k' \<and> wf_dir k' \<and> room k \<le> room k' + 4 \<and>
      (\<forall>q. pte_of k' q = (if same_page q p then f (pte_of k q) else pte_of k q))"
    if k: "wf_dir k" "4 \<le> room k" for f k p
  proof -
    from pte_update_ok [OF k, of f p] obtain h where h: "pte_update f k p = Some (k\<lparr>tables := h\<rparr>)"
      "wf_dir (k\<lparr>tables := h\<rparr>)" "room k \<le> room (k\<lparr>tables := h\<rparr>) + 4"
      and e: "\<And>q. pte_of (k\<lparr>tables := h\<rparr>) q =
        (if take_bit 45 q = take_bit 45 p then f (pte_of k p) else pte_of k q)" by blast
    have "pte_of (k\<lparr>tables := h\<rparr>) q = (if same_page q p then f (pte_of k q) else pte_of k q)" for q
      using e [of q] pte_of_same [of q p k] by (simp add: same_page_def)
    with h show ?thesis by blast
  qed
qed

text \<open>Reading an entry may add tables on its way, but changes no entry.\<close>

definition has_roots :: "mm_struct \<Rightarrow> bool" where
  "has_roots m \<longleftrightarrow> pgd m \<noteq> 0 \<and> p4d m \<noteq> 0 \<and> pud m \<noteq> 0 \<and> pmd m \<noteq> 0 \<and> pt m \<noteq> 0"

lemma pte_get_entry_ok:
  assumes "wf_dir k" "4 \<le> room k" "mm k = Some m" "has_roots m"
  obtains h where "pte_get_entry k p = Some (ucast (pte_of k p), k\<lparr>tables := h\<rparr>)"
    "wf_dir (k\<lparr>tables := h\<rparr>)" "room k \<le> room (k\<lparr>tables := h\<rparr>) + 4"
    "\<And>q. pte_of (k\<lparr>tables := h\<rparr>) q = pte_of k q"
proof -
  from assms have ok: "dir_ok (tables k) (pgd m)" and r: "length (tables k) + 4 \<le> MAX_TABLES"
    by (simp_all add: wf_dir_def room_def)
  obtain h' t1 t2 t3 t4
    where w: "walk_levels (tables k) (pgd m) (get_pd_from_pagenum p) = Some (h', t1, t2, t3, t4)"
      "dir_ok h' (pgd m)" "path h' (pgd m) (dir_path p) = Some t4" "length h' \<le> length (tables k) + 4"
      and same: "\<And>q. entry_at h' (pgd m) (dir_path q) (pt_index q) =
        entry_at (tables k) (pgd m) (dir_path q) (pt_index q)"
    by (rule walk_page_ok [OF ok r, of p]) (rule that; assumption)
  have "valid_tab h' t4" using path_valid [OF w(2) _ _ w(3)] by simp
  from tab_rd_valid [OF dir_full [OF w(2)] this, of "pt_index p"] obtain e
    where e: "tab_rd h' t4 (pt_index p) = Some e" by simp
  then have "pte_of k p = e" using same [of p] assms(3) w(3) by (simp add: pte_of_def entry_at_def)
  then have "pte_get_entry k p = Some (ucast (pte_of k p), k\<lparr>tables := h'\<rparr>)"
    using assms(3,4) by (simp add: pte_get_entry_def has_roots_def w(1) e)
  with that [of h'] assms(3) w(2,4) r same show thesis
    by (simp add: wf_dir_def room_def pte_of_def)
qed

lemma pte_get_entry_NULL:
  "mm k = Some m \<Longrightarrow> \<not> has_roots m \<Longrightarrow> pte_get_entry k p = Some (0, k)"
  by (auto simp: pte_get_entry_def has_roots_def)

section \<open>A concrete state\<close>

definition demo_mm :: "u64 \<Rightarrow> mm_struct" where
  "demo_mm pt0 = \<lparr>pgd = 1, p4d = 1, pud = 1, pmd = 1, pt = pt0, mmap = [],
     symrgtbl = replicate 30 \<lparr>rg_start = 0, rg_end = 0\<rparr>, fifo_pgn = []\<rparr>"

definition demo_krnl :: "u64 \<Rightarrow> krnl_t" where
  "demo_krnl pt0 = \<lparr>mm = Some (demo_mm pt0), tables = [replicate 512 0], mram = demo_mem,
     active_mswp = demo_mem\<rparr>"

lemma zero_table_rd: "unat i < 512 \<Longrightarrow> tab_rd [replicate 512 0] 1 i = Some 0"
  by (simp add: tab_rd_def rd_def)

lemma path_zero_table: "idx_ok p \<Longrightarrow> path [replicate 512 0] 1 p = (if p = [] then Some 1 else None)"
  by (induction p rule: rev_induct) (simp_all add: next_tab_def zero_table_rd)

lemma dir_ok_zero_table: "dir_ok [replicate 512 0] 1"
  unfolding dir_ok_def
proof (intro conjI allI impI)
  show "full_tabs [replicate 512 0]" "length [replicate 512 (0 :: u64)] \<le> MAX_TABLES"
    "valid_tab [replicate 512 0] 1"
    by (simp_all add: full_tabs_def MAX_TABLES_def valid_tab_def)
qed (auto simp: path_zero_table zero_table_rd split: if_splits)

lemma wf_demo_krnl: "wf_dir (demo_krnl x)"
  by (simp add: wf_dir_def demo_krnl_def demo_mm_def dir_ok_zero_table)

lemma room_demo_krnl: "100 \<le> room (demo_krnl x)"
  by (simp add: room_def demo_krnl_def MAX_TABLES_def)

lemma pte_of_demo: "pte_of (demo_krnl x) p = 0"
  by (simp add: pte_of_def demo_krnl_def demo_mm_def entry_at_def path_zero_table zero_table_rd
      split: option.split)

section \<open>Properties\<close>

text \<open>
  C2: the five-level directory implements a map from page numbers to entries: while there is
  room for four more tables, setting an entry (raw, online, or swapped) succeeds, keeps the
  directory a tree, changes the entry of every page number with the same low 45 bits and
  no other entry.
\<close>
theorem pte_set_refines_map:
  assumes "wf_dir k" "4 \<le> room k"
  shows "\<exists>k1 k2 k3.
    pte_set_entry k p v = Some (0, k1) \<and> wf_dir k1 \<and>
      (\<forall>q. pte_of k1 q = (if same_page q p then ucast v else pte_of k q)) \<and>
    pte_set_fpn k p fpn = Some (0, k2) \<and> wf_dir k2 \<and>
      (\<forall>q. pte_of k2 q = (if same_page q p then pte_online (pte_of k q) fpn else pte_of k q)) \<and>
    pte_set_swap k p typ off = Some (0, k3) \<and> wf_dir k3 \<and>
      (\<forall>q. pte_of k3 q = (if same_page q p then pte_swapped (pte_of k q) typ off else pte_of k q))"
proof -
  from dir.upd_ok [OF assms, of "\<lambda>_. ucast v" p] obtain k1
    where "pte_update (\<lambda>_. ucast v) k p = Some k1" "wf_dir k1"
      "\<forall>q. pte_of k1 q = (if same_page q p then ucast v else pte_of k q)" by blast
  moreover from dir.upd_ok [OF assms, of "\<lambda>e. pte_online e fpn" p] obtain k2
    where "pte_update (\<lambda>e. pte_online e fpn) k p = Some k2" "wf_dir k2"
      "\<forall>q. pte_of k2 q = (if same_page q p then pte_online (pte_of k q) fpn else pte_of k q)" by blast
  moreover from dir.upd_ok [OF assms, of "\<lambda>e. pte_swapped e typ off" p] obtain k3
    where "pte_update (\<lambda>e. pte_swapped e typ off) k p = Some k3" "wf_dir k3"
      "\<forall>q. pte_of k3 q = (if same_page q p then pte_swapped (pte_of k q) typ off else pte_of k q)"
    by blast
  ultimately show ?thesis by (simp add: pte_set_entry_def pte_set_fpn_def pte_set_swap_def)
qed

theorem pte_set_refines_map_witness:
  "\<exists>k1. pte_set_fpn (demo_krnl 0) 77 5 = Some (0, k1) \<and> pte_of k1 77 = pte_online 0 5 \<and> pte_of k1 78 = 0"
  using pte_set_refines_map [OF wf_demo_krnl, of 0 77 0 5 0 0] room_demo_krnl [of 0]
  by (auto simp: pte_of_demo same_page_def)

lemma ucast_u32_u64: "ucast (ucast (v :: u32) :: u64) = v"
  by (rule bit_word_eqI) (auto simp: bit_simps)

text \<open>
  Writing an entry and reading it back: when all five roots are set, reading any page
  after pte_set_entry returns the value written for the pages that share its index and
  the old entry (its low 32 bits) for the others, and reading changes no entry.
\<close>
lemma pte_set_get_round_trip:
  assumes "wf_dir k" "8 \<le> room k" "mm k = Some m" "has_roots m"
  shows "\<exists>k1 k2. pte_set_entry k p v = Some (0, k1) \<and>
    pte_get_entry k1 q = Some (if same_page q p then v else ucast (pte_of k q), k2) \<and>
    pte_of k2 = pte_of k1 \<and> wf_dir k2"
proof -
  from assms(2) have r: "4 \<le> room k" by simp
  obtain h where h: "pte_update (\<lambda>_. ucast v) k p = Some (k\<lparr>tables := h\<rparr>)"
    "wf_dir (k\<lparr>tables := h\<rparr>)" "room k \<le> room (k\<lparr>tables := h\<rparr>) + 4"
    "\<And>q. pte_of (k\<lparr>tables := h\<rparr>) q = (if take_bit 45 q = take_bit 45 p then ucast v else pte_of k q)"
    by (rule pte_update_ok [OF assms(1) r, of "\<lambda>_. ucast v" p]) (rule that; assumption)
  let ?k = "k\<lparr>tables := h\<rparr>"
  from h(3) assms(2) have r2: "4 \<le> room ?k" by simp
  have m2: "mm ?k = Some m" using assms(3) by simp
  obtain h2 where h2: "pte_get_entry ?k q = Some (ucast (pte_of ?k q), ?k\<lparr>tables := h2\<rparr>)"
    "wf_dir (?k\<lparr>tables := h2\<rparr>)" "\<And>q. pte_of (?k\<lparr>tables := h2\<rparr>) q = pte_of ?k q"
    by (rule pte_get_entry_ok [OF h(2) r2 m2 assms(4), of q]) (rule that; assumption)
  have "pte_set_entry k p v = Some (0, ?k)" using h(1) by (simp add: pte_set_entry_def)
  moreover have "pte_of (?k\<lparr>tables := h2\<rparr>) = pte_of ?k" using h2(3) by (rule ext)
  moreover have "ucast (pte_of ?k q) = (if same_page q p then v else ucast (pte_of k q))"
    using h(4) [of q] ucast_u32_u64 [of v] by (simp add: same_page_def)
  ultimately show ?thesis using h2(1,2)
    by (intro exI [of _ ?k] exI [of _ "?k\<lparr>tables := h2\<rparr>"]) simp
qed

lemma pte_set_get_round_trip_witness:
  "\<exists>k1 k2. pte_set_entry (demo_krnl 1) 3 9 = Some (0, k1) \<and> pte_get_entry k1 3 = Some (9, k2)"
  using pte_set_get_round_trip [OF wf_demo_krnl, of 1 "demo_mm 1" 3 9 3] room_demo_krnl [of 1]
  by (auto simp: demo_krnl_def demo_mm_def has_roots_def same_page_def)

text \<open>
  While \<open>mm->pt\<close> is NULL (init_mm leaves it so and nothing sets it), reading an entry
  returns 0 for every page, whatever has been stored in the directory, and filling a range
  of pages with vmap_pgd_memset dereferences NULL.
\<close>
lemma pt_NULL_hides_entries:
  assumes "mm k = Some m" "pt m = 0"
  shows "pte_get_entry k p = Some (0, k) \<and>
    (0 <s n \<longrightarrow> vmap_pgd_memset k addr n = None)"
proof
  show "pte_get_entry k p = Some (0, k)"
    using assms pte_get_entry_NULL [of k m] by (simp add: has_roots_def)
  have "tab_wr h 0 i v = None" for h i v by (simp add: tab_wr_def)
  moreover have "[0..<nat (sint n)] = 0 # [1..<nat (sint n)]" if "0 < sint n"
    using that by (simp add: upt_conv_Cons)
  ultimately show "0 <s n \<longrightarrow> vmap_pgd_memset k addr n = None"
    using assms by (auto simp: vmap_pgd_memset_def word_sless_alt Let_def case_prod_beta
        Option.bind_eq_None_conv)
qed

lemma pt_NULL_hides_entries_witness:
  "\<exists>k1. pte_set_entry (demo_krnl 0) 3 9 = Some (0, k1) \<and> pte_of k1 3 = 9 \<and>
     pte_get_entry k1 3 = Some (0, k1)"
proof -
  from pte_update_ok [OF wf_demo_krnl, of 0 "\<lambda>_. 9" 3] room_demo_krnl [of 0] obtain h
    where h: "pte_update (\<lambda>_. 9) (demo_krnl 0) 3 = Some (demo_krnl 0\<lparr>tables := h\<rparr>)"
      "\<And>q. pte_of (demo_krnl 0\<lparr>tables := h\<rparr>) q =
        (if take_bit 45 q = take_bit 45 (3 :: u64) then 9 else pte_of (demo_krnl 0) q)" by auto
  have "pte_get_entry (demo_krnl 0\<lparr>tables := h\<rparr>) 3 = Some (0, demo_krnl 0\<lparr>tables := h\<rparr>)"
    using pt_NULL_hides_entries [of "demo_krnl 0\<lparr>tables := h\<rparr>" "demo_mm 0" 3]
    by (simp add: demo_krnl_def demo_mm_def)
  with h(1) h(2) [of 3] show ?thesis by (simp add: pte_set_entry_def)
qed

end
