(* ===== verification/Vm.thy ===== *)
theory Vm
  imports Pagetable
begin

text \<open>
  Mapping pages and virtual memory areas: the second half of \<open>src/mm64.c\<close>
  (\<open>vmap_page_range\<close>, \<open>alloc_pages_range\<close>, \<open>vm_map_ram\<close>, \<open>init_mm\<close>, the list helpers and
  \<open>print_pgtbl\<close>) and \<open>src/mm-vm.c\<close>. A process reaches this state through \<open>caller->krnl\<close>,
  which is never NULL; \<open>caller->krnl->mm\<close> may be. Lists of nodes the code links at the front
  are lists with the newest element first. A pointer to an area is its position in
  \<open>mmap\<close>; a function that may return NULL gives a position option, inside the option that
  stands for undefined behaviour.
\<close>

section \<open>Areas and regions\<close>

definition init_vm_rg :: "u64 \<Rightarrow> u64 \<Rightarrow> vm_rg_struct" where
  "init_vm_rg rs re = \<lparr>rg_start = rs, rg_end = re\<rparr>"

definition enlist_vm_rg_node :: "vm_rg_struct list \<Rightarrow> vm_rg_struct \<Rightarrow> vm_rg_struct list" where
  "enlist_vm_rg_node rglist rgnode = rgnode # rglist"

definition enlist_pgn_node :: "u64 list \<Rightarrow> u64 \<Rightarrow> u64 list" where
  "enlist_pgn_node plist pgn = pgn # plist"

text \<open>\<open>get_vma_by_num(mm, vmaid)\<close>: the loop reads \<open>vm_id\<close> of the next area before it is
  compared with NULL, so running off the list is undefined.\<close>

primrec vma_loop :: "vm_area_struct list \<Rightarrow> cint \<Rightarrow> nat \<Rightarrow> nat option" where
  "vma_loop [] vmaid i = None"
| "vma_loop (pvma # vs) vmaid i =
     (if u64_to_int (vm_id pvma) <s vmaid then vma_loop vs vmaid (Suc i) else Some i)"

definition get_vma_by_num :: "mm_struct \<Rightarrow> cint \<Rightarrow> nat option option" where
  "get_vma_by_num m vmaid =
     (if mmap m = [] then Some None
      else do { i \<leftarrow> vma_loop (mmap m) vmaid 0; Some (Some i) })"

text \<open>\<open>caller->krnl->mm\<close> and the area a caller goes on to dereference.\<close>

definition deref_vma :: "krnl_t \<Rightarrow> cint \<Rightarrow> (mm_struct \<times> nat \<times> vm_area_struct) option" where
  "deref_vma k vmaid =
     do { m \<leftarrow> mm k; r \<leftarrow> get_vma_by_num m vmaid; i \<leftarrow> r; a \<leftarrow> rd (mmap m) i; Some (m, i, a) }"

definition get_vm_area_node_at_brk :: "krnl_t \<Rightarrow> cint \<Rightarrow> u64 \<Rightarrow> u64 \<Rightarrow> vm_rg_struct option" where
  "get_vm_area_node_at_brk k vmaid sz alignedsz =
     do { (_, _, cur_vma) \<leftarrow> deref_vma k vmaid;
          Some \<lparr>rg_start = sbrk cur_vma, rg_end = sbrk cur_vma + sz\<rparr> }"

definition validate_overlap_vm_area :: "krnl_t \<Rightarrow> cint \<Rightarrow> u64 \<Rightarrow> u64 \<Rightarrow> int option" where
  "validate_overlap_vm_area k vmaid vmastart vmaend =
     (if vmaend \<le> vmastart then Some (- 1)
      else
        do { m \<leftarrow> mm k;
             if mmap m = [] then Some (- 1)
             else
               do { r \<leftarrow> get_vma_by_num m vmaid;
                    case r of
                      None \<Rightarrow> Some (- 1)
                    | Some i \<Rightarrow>
                        do { cur \<leftarrow> rd (mmap m) i;
                             Some (if list_ex (\<lambda>(j, vma). j \<noteq> i \<and>
                                 OVERLAP (vm_start cur) (vm_end cur) (vm_start vma) (vm_end vma))
                                 (enumerate 0 (mmap m)) then - 1 else 0) } } })"

section \<open>Mapping frames\<close>

text \<open>The loop of \<open>vmap_page_range\<close> runs down the frame list.\<close>

primrec vmap_loop ::
  "u64 list \<Rightarrow> u64 \<Rightarrow> int \<Rightarrow> int \<Rightarrow> vm_rg_struct \<Rightarrow> krnl_t \<Rightarrow> (vm_rg_struct \<times> krnl_t) option" where
  "vmap_loop [] addr pgnum pgit ret_rg k = Some (ret_rg, k)"
| "vmap_loop (fpn # fpit) addr pgnum pgit ret_rg k =
     (if pgit < pgnum then
        let cur_addr = addr + of_int pgit * PAGING64_PAGESZ;
            pgn64 = drop_bit PAGING64_ADDR_PT_SHIFT cur_addr
        in do { (_, k) \<leftarrow> pte_set_fpn k pgn64 fpn;
                m \<leftarrow> mm k;
                vmap_loop fpit addr pgnum (pgit + 1)
                  (ret_rg\<lparr>rg_end := rg_end ret_rg + PAGING64_PAGESZ\<rparr>)
                  (k\<lparr>mm := Some (m\<lparr>fifo_pgn := enlist_pgn_node (fifo_pgn m) pgn64\<rparr>)\<rparr>) }
      else Some (ret_rg, k))"

definition vmap_page_range ::
  "krnl_t \<Rightarrow> u64 \<Rightarrow> cint \<Rightarrow> u64 list \<Rightarrow> (u64 \<times> vm_rg_struct \<times> krnl_t) option" where
  "vmap_page_range k addr pgnum frames =
     do { (ret_rg, k) \<leftarrow> vmap_loop frames addr (sint pgnum) 0 \<lparr>rg_start = addr, rg_end = addr\<rparr> k;
          Some (0, ret_rg, k) }"

text \<open>\<open>alloc_pages_range\<close>: the frames got so far are in \<open>got\<close>, the first one first; when the
  device has no frame left they are given back in that order.\<close>

definition roll_back :: "memphy_struct \<Rightarrow> u64 list \<Rightarrow> memphy_struct" where
  "roll_back mp got = foldl (\<lambda>mp fpn. snd (MEMPHY_put_freefp mp fpn)) mp got"

primrec alloc_loop ::
  "nat \<Rightarrow> u64 \<Rightarrow> u64 list \<Rightarrow> memphy_struct \<Rightarrow> u64 list option \<times> memphy_struct" where
  "alloc_loop 0 fpn got mp = (Some got, mp)"
| "alloc_loop (Suc n) fpn got mp =
     (let (r, fpn, mp) = MEMPHY_get_freefp mp fpn
      in if r \<noteq> 0 then (None, roll_back mp got) else alloc_loop n fpn (got @ [fpn]) mp)"

definition alloc_pages_range :: "krnl_t \<Rightarrow> cint \<Rightarrow> u64 list \<Rightarrow> u64 \<times> u64 list \<times> krnl_t" where
  "alloc_pages_range k req_pgnum frm_lst =
     (if sint req_pgnum \<le> 0 then (0, frm_lst, k)
      else case alloc_loop (nat (sint req_pgnum)) 0 [] (mram k) of
        (None, mp) \<Rightarrow> (- 1, frm_lst, k\<lparr>mram := mp\<rparr>)
      | (Some frames, mp) \<Rightarrow> (0, frames, k\<lparr>mram := mp\<rparr>))"

text \<open>\<open>vm_map_ram\<close>: the call of \<open>alloc_pages_range\<close> is commented out, \<open>ret_alloc\<close> is unsigned.\<close>

definition vm_map_ram ::
  "krnl_t \<Rightarrow> u64 \<Rightarrow> u64 \<Rightarrow> u64 \<Rightarrow> cint \<Rightarrow> vm_rg_struct \<Rightarrow> (u64 \<times> vm_rg_struct \<times> krnl_t) option" where
  "vm_map_ram k astart aend mapstart incpgnum ret_rg =
     (let frm_lst = []; ret_alloc = 0 :: u64
      in if ret_alloc < 0 \<and> ret_alloc \<noteq> - 3000 then Some (- 1, ret_rg, k)
         else if ret_alloc = - 3000 then Some (- 1, ret_rg, k)
         else do { (_, ret_rg, k) \<leftarrow> vmap_page_range k mapstart incpgnum frm_lst;
                   Some (0, ret_rg, k) })"

text \<open>\<open>inc_vma_limit\<close>: the contents of \<open>newrg\<close> (fresh from \<open>malloc\<close>) are never read, zeros
  stand for them.\<close>

definition inc_vma_limit :: "krnl_t \<Rightarrow> cint \<Rightarrow> u64 \<Rightarrow> (int \<times> krnl_t) option" where
  "inc_vma_limit k vmaid inc_sz =
     (let inc_amt = PAGING64_PAGE_ALIGNSZ inc_sz;
          incnumpage = u64_to_int (inc_amt div PAGING64_PAGESZ)
      in do { area \<leftarrow> get_vm_area_node_at_brk k vmaid inc_sz inc_amt;
              (m, i, cur_vma) \<leftarrow> deref_vma k vmaid;
              v \<leftarrow> validate_overlap_vm_area k vmaid (rg_start area) (rg_end area);
              if v < 0 then Some (- 1, k)
              else
                let old_end = vm_end cur_vma;
                    k = k\<lparr>mm := Some (m\<lparr>mmap := (mmap m)[i := cur_vma\<lparr>vm_end := rg_end area\<rparr>]\<rparr>)\<rparr>
                in do { (r, _, k) \<leftarrow> vm_map_ram k (rg_start area) (rg_end area) old_end incnumpage
                            (init_vm_rg 0 0);
                        Some (if r < 0 then - 1 else 0, k) } })"

text \<open>\<open>__mm_swap_page\<close>: copy a page of the RAM to the active swap device.\<close>

definition mm_swap_page :: "byte \<Rightarrow> krnl_t \<Rightarrow> u64 \<Rightarrow> u64 \<Rightarrow> (int \<times> krnl_t) option" where
  "mm_swap_page data k vicfpn swpfpn =
     do { (_, ram, swp) \<leftarrow> swap_cp_page data (mram k) vicfpn (active_mswp k) swpfpn;
          Some (0, k\<lparr>mram := ram, active_mswp := swp\<rparr>) }"

text \<open>\<open>init_mm(mm, caller)\<close>: every field of \<open>*mm\<close> is written, so only its being NULL matters.
  \<open>vma0->vm_freerg_list\<close> is uninitialised when the first region is linked in front of it;
  \<open>junk\<close> is the list it leads to.\<close>

definition init_mm :: "krnl_t \<Rightarrow> bool \<Rightarrow> bool \<Rightarrow> vm_rg_struct list \<Rightarrow> int \<times> krnl_t" where
  "init_mm k mm_null caller_null junk =
     (if mm_null then (- 1, k)
      else if caller_null then (- 1, k)
      else
        let (h, t1) = calloc_table (tables k);
            (h, t2) = calloc_table h;
            (h, t3) = calloc_table h;
            (h, t4) = calloc_table h;
            first_rg = init_vm_rg 0 0;
            vma0 = \<lparr>vm_id = 0, vm_start = 0, vm_end = 0, sbrk = 0,
              vm_freerg_list = enlist_vm_rg_node junk first_rg\<rparr>
        in (0, k\<lparr>mm := Some \<lparr>pgd = t1, p4d = t2, pud = t3, pmd = t4, pt = 0, mmap = [vma0],
              symrgtbl = replicate 30 \<lparr>rg_start = 0, rg_end = 0\<rparr>, fifo_pgn = []\<rparr>, tables := h\<rparr>))"

section \<open>Printing the directory\<close>

text \<open>Each printed line holds the first words of the root and of the tables on the three
  next levels; the walk allocates what is missing. The loop ends because the page numbers
  are below 2^52.\<close>

primrec print_pages ::
  "u64 \<Rightarrow> u64 list \<Rightarrow> u64 list list \<Rightarrow> ((u64 \<times> u64 \<times> u64 \<times> u64) list \<times> u64 list list) option" where
  "print_pages root [] h = Some ([], h)"
| "print_pages root (pgit # ps) h =
     do { (h, p4d_tbl, pud_tbl, pmd_tbl, _) \<leftarrow>
            walk_levels h root (get_pd_from_address (push_bit PAGING64_ADDR_PT_SHIFT pgit));
          a \<leftarrow> tab_rd h root 0;
          b \<leftarrow> tab_rd h p4d_tbl 0;
          c \<leftarrow> tab_rd h pud_tbl 0;
          d \<leftarrow> tab_rd h pmd_tbl 0;
          (out, h) \<leftarrow> print_pages root ps h;
          Some ((a, b, c, d) # out, h) }"

definition print_pgtbl ::
  "krnl_t \<Rightarrow> u64 \<Rightarrow> u64 \<Rightarrow> (int \<times> (u64 \<times> u64 \<times> u64 \<times> u64) list \<times> krnl_t) option" where
  "print_pgtbl k start end' =
     do { m \<leftarrow> mm k;
          (start, end') \<leftarrow>
            (if end' = - 1
             then do { (_, _, cur_vma) \<leftarrow> deref_vma k 0; Some (vm_start cur_vma, vm_end cur_vma) }
             else Some (start, end'));
          (out, h) \<leftarrow> print_pages (pgd m)
            (map of_nat [unat (drop_bit PAGING64_ADDR_PT_SHIFT start)..<Suc (unat (drop_bit PAGING64_ADDR_PT_SHIFT end'))]) (tables k);
          Some (0, out, k\<lparr>tables := h\<rparr>) }"

section \<open>The pages of a range\<close>

definition vpage :: "u64 \<Rightarrow> nat \<Rightarrow> u64" where
  "vpage addr i = drop_bit 12 (addr + of_nat i * PAGING64_PAGESZ)"

lemma vpage_45: "unat (take_bit 45 (vpage addr i)) = (unat addr div 4096 + i) mod 2 ^ 45"
proof -
  have "unat (addr + of_nat i * 4096) = take_bit 64 (unat addr + i * 4096)"
    by (simp add: take_bit_eq_mod unat_word_ariths unat_of_nat mod_simps)
  then have "unat (vpage addr i) = drop_bit 12 (take_bit 64 (unat addr + i * 4096))"
    by (simp add: vpage_def PAGING64_PAGESZ_def unat_drop_bit_eq)
  also have "\<dots> = take_bit 52 (drop_bit 12 (unat addr + i * 4096))"
    by (simp add: drop_bit_take_bit)
  also have "\<dots> = (unat addr div 4096 + i) mod 2 ^ 52"
    by (simp add: take_bit_eq_mod drop_bit_eq_div add.commute)
  finally show ?thesis
    by (simp add: unat_take_bit mod_mod_cancel add.commute)
qed

lemma nat_add_mod_inj:
  assumes "(c + i) mod n = (c + j) mod n" "i < n" "j < (n :: nat)"
  shows "i = j"
proof -
  have "(int c + int i) mod int n = (int c + int j) mod int n"
    using assms(1) by (metis of_nat_add of_nat_mod)
  then have "int n dvd int i - int j" by (simp add: mod_eq_dvd_iff)
  moreover have "\<bar>int i - int j\<bar> < int n" using assms(2,3) by linarith
  ultimately show ?thesis using zdvd_imp_le [of "int n" "\<bar>int i - int j\<bar>"] by fastforce
qed

lemma vpage_same:
  assumes "i < 2 ^ 45" "j < 2 ^ 45"
  shows "same_page (vpage addr i) (vpage addr j) \<longleftrightarrow> i = j"
proof
  assume "same_page (vpage addr i) (vpage addr j)"
  then have "(unat addr div 4096 + i) mod 2 ^ 45 = (unat addr div 4096 + j) mod 2 ^ 45"
    by (simp only: same_page_def flip: vpage_45)
  from this assms show "i = j" by (rule nat_add_mod_inj)
qed (simp add: same_page_def)

section \<open>Mapping a range is a series of updates\<close>

lemma pte_update_frame: "pte_update f k p = Some k' \<Longrightarrow> \<exists>h. k' = k\<lparr>tables := h\<rparr>"
  by (auto simp: pte_update_def bind_eq_Some_conv)

lemma pte_update_mm: "pte_update f k p = Some k' \<Longrightarrow> mm k' = mm k"
  by (drule pte_update_frame) auto

lemma upd_all_frame: "dir.upd_all fps k = Some k' \<Longrightarrow> \<exists>h. k' = k\<lparr>tables := h\<rparr>"
proof (induction fps arbitrary: k)
  case Nil
  then show ?case by (cases k) auto
next
  case (Cons fp fps)
  then obtain k1 where 1: "pte_update (fst fp) k (snd fp) = Some k1" "dir.upd_all fps k1 = Some k'"
    by (auto split: option.splits)
  from Cons.IH [OF 1(2)] pte_update_frame [OF 1(1)] show ?case by auto
qed

lemma krnl_update_swap: "k\<lparr>mm := a, tables := h\<rparr> = k\<lparr>tables := h, mm := a\<rparr>"
  by (cases k) simp

lemma pte_update_fifo:
  "mm k = Some m \<Longrightarrow> pte_update f (k\<lparr>mm := Some (m\<lparr>fifo_pgn := x\<rparr>)\<rparr>) p =
     map_option (\<lambda>k. k\<lparr>mm := Some (m\<lparr>fifo_pgn := x\<rparr>)\<rparr>) (pte_update f k p)"
  by (simp add: pte_update_def map_option_bind case_prod_unfold comp_def krnl_update_swap)

lemma upd_all_fifo:
  "mm k = Some m \<Longrightarrow> dir.upd_all fps (k\<lparr>mm := Some (m\<lparr>fifo_pgn := x\<rparr>)\<rparr>) =
     map_option (\<lambda>k. k\<lparr>mm := Some (m\<lparr>fifo_pgn := x\<rparr>)\<rparr>) (dir.upd_all fps k)"
proof (induction fps arbitrary: k)
  case (Cons fp fps)
  show ?case
  proof (cases "pte_update (fst fp) k (snd fp)")
    case (Some k1)
    with Cons pte_update_mm [OF Some] show ?thesis by (simp add: pte_update_fifo)
  qed (simp add: pte_update_fifo Cons.prems)
qed simp

definition mappings :: "u64 list \<Rightarrow> u64 \<Rightarrow> nat \<Rightarrow> ((u64 \<Rightarrow> u64) \<times> u64) list" where
  "mappings frames addr i =
     zip (map (\<lambda>fpn e. pte_online e fpn) frames) (map (vpage addr) [i..<i + length frames])"

lemma mappings_Cons:
  "mappings (f # fs) addr i = (\<lambda>e. pte_online e f, vpage addr i) # mappings fs addr (Suc i)"
  by (simp add: mappings_def upt_conv_Cons del: upt_Suc)

lemma vmap_loop_upd_all:
  assumes "mm k = Some m" "int i + int (length frames) \<le> n"
  shows "vmap_loop frames addr n (int i) rg k =
    map_option (\<lambda>k'. (rg\<lparr>rg_end := rg_end rg + of_nat (length frames) * PAGING64_PAGESZ\<rparr>,
        k'\<lparr>mm := Some (m\<lparr>fifo_pgn :=
          rev (map (vpage addr) [i..<i + length frames]) @ fifo_pgn m\<rparr>)\<rparr>))
      (dir.upd_all (mappings frames addr i) k)"
  using assms
proof (induction frames arbitrary: k m i rg)
  case Nil
  then show ?case by (cases k; cases m; cases rg) (simp add: mappings_def)
next
  case (Cons f fs)
  let ?p = "vpage addr i"
  have g: "int i < n" using Cons.prems(2) by simp
  show ?case
  proof (cases "pte_update (\<lambda>e. pte_online e f) k ?p")
    case None
    with g show ?thesis by (simp add: mappings_Cons pte_set_fpn_def vpage_def [symmetric] Let_def)
  next
    case (Some k1)
    have m1: "mm k1 = Some m" using pte_update_mm [OF Some] Cons.prems(1) by simp
    let ?m = "m\<lparr>fifo_pgn := ?p # fifo_pgn m\<rparr>"
    let ?rg = "rg\<lparr>rg_end := rg_end rg + PAGING64_PAGESZ\<rparr>"
    have n: "int (Suc i) + int (length fs) \<le> n" using Cons.prems(2) by simp
    have "vmap_loop (f # fs) addr n (int i) rg k =
        vmap_loop fs addr n (int (Suc i)) ?rg (k1\<lparr>mm := Some ?m\<rparr>)"
      using Some g m1 by (simp add: pte_set_fpn_def vpage_def enlist_pgn_node_def add.commute)
    also have "\<dots> = map_option (\<lambda>k'. (?rg\<lparr>rg_end := rg_end ?rg + of_nat (length fs) * PAGING64_PAGESZ\<rparr>,
        k'\<lparr>mm := Some (?m\<lparr>fifo_pgn := rev (map (vpage addr) [Suc i..<Suc i + length fs]) @ fifo_pgn ?m\<rparr>)\<rparr>))
      (dir.upd_all (mappings fs addr (Suc i)) (k1\<lparr>mm := Some ?m\<rparr>))"
      by (rule Cons.IH [OF _ n]) simp
    also have "\<dots> = map_option (\<lambda>k'. (?rg\<lparr>rg_end := rg_end ?rg + of_nat (length fs) * PAGING64_PAGESZ\<rparr>,
        k'\<lparr>mm := Some (?m\<lparr>fifo_pgn := rev (map (vpage addr) [Suc i..<Suc i + length fs]) @ fifo_pgn ?m\<rparr>)\<rparr>))
      (dir.upd_all (mappings fs addr (Suc i)) k1)"
      by (simp only: upd_all_fifo [OF m1] option.map_comp) (simp add: comp_def)
    finally show ?thesis using Some
      by (simp add: mappings_Cons upt_conv_Cons algebra_simps del: upt_Suc)
  qed
qed

lemma fifo_irrelevant:
  assumes "mm k = Some m"
  shows "pte_of (k\<lparr>mm := Some (m\<lparr>fifo_pgn := x\<rparr>)\<rparr>) = pte_of k"
    and "wf_dir (k\<lparr>mm := Some (m\<lparr>fifo_pgn := x\<rparr>)\<rparr>) = wf_dir k"
  using assms by (auto simp: pte_of_def wf_dir_def fun_eq_iff)

lemma mappings_nth:
  "i < length frames \<Longrightarrow> mappings frames addr 0 ! i = ((\<lambda>e. pte_online e (frames ! i)), vpage addr i)"
  by (simp add: mappings_def)

lemma length_mappings [simp]: "length (mappings frames addr i) = length frames"
  by (simp add: mappings_def)

lemma upd_all_mappings:
  assumes "wf_dir k" "4 * length frames \<le> room k" "length frames < 2 ^ 45"
  obtains h where "dir.upd_all (mappings frames addr 0) k = Some (k\<lparr>tables := h\<rparr>)"
    "wf_dir (k\<lparr>tables := h\<rparr>)" "room k \<le> room (k\<lparr>tables := h\<rparr>) + 4 * length frames"
    "\<And>i. i < length frames \<Longrightarrow>
       pte_of (k\<lparr>tables := h\<rparr>) (vpage addr i) = pte_online (pte_of k (vpage addr i)) (frames ! i)"
    "\<And>q. (\<forall>i<length frames. \<not> same_page q (vpage addr i)) \<Longrightarrow>
       pte_of (k\<lparr>tables := h\<rparr>) q = pte_of k q"
proof -
  let ?fps = "mappings frames addr 0"
  have "4 * length ?fps \<le> room k" using assms(2) by simp
  from dir.upd_all_ok [OF assms(1) this] obtain k' where k': "dir.upd_all ?fps k = Some k'" "wf_dir k'"
    "room k \<le> room k' + 4 * length frames"
    "\<forall>q. pte_of k' q = foldl (\<lambda>e fp. if same_page q (snd fp) then fst fp e else e) (pte_of k q) ?fps"
    by auto
  from upd_all_frame [OF k'(1)] obtain h where h: "k' = k\<lparr>tables := h\<rparr>" by blast
  show thesis
  proof (rule that)
    show "dir.upd_all ?fps k = Some (k\<lparr>tables := h\<rparr>)" "wf_dir (k\<lparr>tables := h\<rparr>)"
      "room k \<le> room (k\<lparr>tables := h\<rparr>) + 4 * length frames" using k' h by simp_all
    fix i assume i: "i < length frames"
    have "\<not> same_page (vpage addr i) (snd (?fps ! j))" if "j < length frames" "j \<noteq> i" for j
      using that i assms(3) vpage_same [of i j addr] by (simp add: mappings_nth)
    moreover have "same_page (vpage addr i) (snd (?fps ! i))" using i by (simp add: mappings_nth dir.same_refl)
    ultimately show "pte_of (k\<lparr>tables := h\<rparr>) (vpage addr i) = pte_online (pte_of k (vpage addr i)) (frames ! i)"
      using k'(4) h i dir.fold_hit [of i ?fps "vpage addr i"] by (simp add: mappings_nth)
  next
    fix q assume "\<forall>i<length frames. \<not> same_page q (vpage addr i)"
    then have "\<forall>fp\<in>set ?fps. \<not> same_page q (snd fp)"
      by (auto simp: in_set_conv_nth mappings_nth)
    with k'(4) h show "pte_of (k\<lparr>tables := h\<rparr>) q = pte_of k q" by (simp add: dir.fold_miss)
  qed
qed

lemma sint_less_31: "sint (n :: cint) < 2 ^ 31"
  using sint_lt [of n] by simp

lemma vmap_page_range_ok:
  assumes "wf_dir k" "mm k = Some m" "length frames \<le> nat (sint pgnum)" "4 * length frames \<le> room k"
  obtains k' where "vmap_page_range k addr pgnum frames = Some (0,
      \<lparr>rg_start = addr, rg_end = addr + of_nat (length frames) * PAGING64_PAGESZ\<rparr>, k')"
    "wf_dir k'" "mram k' = mram k" "active_mswp k' = active_mswp k"
    "mm k' = Some (m\<lparr>fifo_pgn := rev (map (vpage addr) [0..<length frames]) @ fifo_pgn m\<rparr>)"
    "\<And>i. i < length frames \<Longrightarrow>
       pte_of k' (vpage addr i) = pte_online (pte_of k (vpage addr i)) (frames ! i)"
    "\<And>q. (\<forall>i<length frames. \<not> same_page q (vpage addr i)) \<Longrightarrow> pte_of k' q = pte_of k q"
proof -
  have len: "length frames < 2 ^ 45" using assms(3) sint_less_31 [of pgnum] by simp
  obtain h where h: "dir.upd_all (mappings frames addr 0) k = Some (k\<lparr>tables := h\<rparr>)" "wf_dir (k\<lparr>tables := h\<rparr>)"
    "\<And>i. i < length frames \<Longrightarrow>
       pte_of (k\<lparr>tables := h\<rparr>) (vpage addr i) = pte_online (pte_of k (vpage addr i)) (frames ! i)"
    "\<And>q. (\<forall>i<length frames. \<not> same_page q (vpage addr i)) \<Longrightarrow>
       pte_of (k\<lparr>tables := h\<rparr>) q = pte_of k q"
    by (rule upd_all_mappings [OF assms(1,4) len, of addr]) (rule that; assumption)
  have m: "mm (k\<lparr>tables := h\<rparr>) = Some m" using assms(2) by simp
  have "int 0 + int (length frames) \<le> sint pgnum \<or> frames = []"
    using assms(3) by (cases "0 \<le> sint pgnum") auto
  then have "vmap_page_range k addr pgnum frames = Some (0,
      \<lparr>rg_start = addr, rg_end = addr + of_nat (length frames) * PAGING64_PAGESZ\<rparr>,
      k\<lparr>tables := h, mm := Some (m\<lparr>fifo_pgn :=
        rev (map (vpage addr) [0..<length frames]) @ fifo_pgn m\<rparr>)\<rparr>)"
  proof
    assume "int 0 + int (length frames) \<le> sint pgnum"
    from vmap_loop_upd_all [OF assms(2) this] h(1) show ?thesis
      by (simp add: vmap_page_range_def)
  next
    assume f: "frames = []"
    then have "k\<lparr>tables := h\<rparr> = k" using h(1) by (simp add: mappings_def)
    moreover have "k\<lparr>mm := Some m\<rparr> = k" using assms(2) by (cases k) simp
    moreover have "m\<lparr>fifo_pgn := fifo_pgn m\<rparr> = m" by (cases m) simp
    ultimately show ?thesis using f by (simp add: vmap_page_range_def)
  qed
  then show thesis
    by (rule that) (simp_all add: fifo_irrelevant [OF m] h(2-4))
qed

section \<open>Allocation of frames\<close>

lemma roll_back_eq: "roll_back mp got = mp\<lparr>free_fp_list := rev got @ free_fp_list mp\<rparr>"
  by (induction got arbitrary: mp) (simp_all add: roll_back_def MEMPHY_put_freefp_def)

lemma alloc_loop_eq:
  "alloc_loop n fpn got mp =
     (if n \<le> length (free_fp_list mp)
      then (Some (got @ take n (free_fp_list mp)), mp\<lparr>free_fp_list := drop n (free_fp_list mp)\<rparr>)
      else (None, mp\<lparr>free_fp_list := rev (got @ free_fp_list mp)\<rparr>))"
proof (induction n arbitrary: fpn got mp)
  case 0
  then show ?case by simp
next
  case (Suc n)
  show ?case
  proof (cases "free_fp_list mp")
    case Nil
    with pool.get_Nil [of mp fpn] show ?thesis by (simp add: roll_back_eq)
  next
    case (Cons f fs)
    then have "MEMPHY_get_freefp mp fpn = (0, f, mp\<lparr>free_fp_list := fs\<rparr>)"
      by (simp add: MEMPHY_get_freefp_def)
    with Suc Cons show ?thesis by simp
  qed
qed

text \<open>The page numbers print_pgtbl visits.\<close>

lemma print_pages_ok:
  "dir_ok h root \<Longrightarrow> length h + 4 * length ps \<le> MAX_TABLES \<Longrightarrow>
     \<exists>out h'. print_pages root ps h = Some (out, h') \<and> length out = length ps \<and> dir_ok h' root \<and>
       length h' \<le> length h + 4 * length ps \<and>
       (\<forall>q. entry_at h' root (dir_path q) (pt_index q) = entry_at h root (dir_path q) (pt_index q))"
proof (induction ps arbitrary: h)
  case Nil
  then show ?case by simp
next
  case (Cons p ps)
  have r: "length h + 4 \<le> MAX_TABLES" using Cons.prems(2) by simp
  obtain h1 t1 t2 t3 t4
    where w: "walk_levels h root (get_pd_from_pagenum p) = Some (h1, t1, t2, t3, t4)"
      "dir_ok h1 root" "length h1 \<le> length h + 4"
      "\<And>q. entry_at h1 root (dir_path q) (pt_index q) = entry_at h root (dir_path q) (pt_index q)"
      "valid_tab h1 t1 \<and> valid_tab h1 t2 \<and> valid_tab h1 t3"
    by (rule walk_page_ok [OF Cons.prems(1) r, of p]) (rule that; assumption)
  have rds: "\<exists>a b c d. tab_rd h1 root 0 = Some a \<and> tab_rd h1 t1 0 = Some b \<and>
      tab_rd h1 t2 0 = Some c \<and> tab_rd h1 t3 0 = Some d"
    using w(5) dir_root [OF w(2)] by (simp add: tab_rd_valid [OF dir_full [OF w(2)]])
  have "length h1 + 4 * length ps \<le> MAX_TABLES" using w(3) Cons.prems(2) by simp
  from Cons.IH [OF w(2) this] obtain out h2 where "print_pages root ps h1 = Some (out, h2)"
    "length out = length ps" "dir_ok h2 root" "length h2 \<le> length h1 + 4 * length ps"
    "\<forall>q. entry_at h2 root (dir_path q) (pt_index q) = entry_at h1 root (dir_path q) (pt_index q)"
    by blast
  with w rds show ?case by (auto simp: get_pd_from_pagenum_def)
qed

lemma print_pgtbl_ok:
  assumes "wf_dir k" "deref_vma k 0 = Some (m, i, a)"
    and n: "n = Suc (unat (drop_bit 12 (vm_end a))) - unat (drop_bit 12 (vm_start a))" "4 * n \<le> room k"
  obtains out h where "print_pgtbl k 0 (- 1) = Some (0, out, k\<lparr>tables := h\<rparr>)" "length out = n"
    "wf_dir (k\<lparr>tables := h\<rparr>)" "pte_of (k\<lparr>tables := h\<rparr>) = pte_of k"
    "room k \<le> room (k\<lparr>tables := h\<rparr>) + 4 * n"
proof -
  have m: "mm k = Some m" using assms(2) by (auto simp: deref_vma_def bind_eq_Some_conv)
  let ?ps = "map of_nat [unat (drop_bit 12 (vm_start a))..<Suc (unat (drop_bit 12 (vm_end a)))] :: u64 list"
  have len: "length ?ps = n" by (simp add: n(1) del: upt_Suc)
  have ok: "dir_ok (tables k) (pgd m)" using assms(1) m by (simp add: wf_dir_def)
  have "length (tables k) \<le> MAX_TABLES" using ok by (simp add: dir_ok_def)
  then have "length (tables k) + 4 * length ?ps \<le> MAX_TABLES"
    using n(2) unfolding len room_def by arith
  from print_pages_ok [OF ok this] obtain out h where h: "print_pages (pgd m) ?ps (tables k) = Some (out, h)"
    "length out = n" "dir_ok h (pgd m)" "length h \<le> length (tables k) + 4 * n"
    "\<forall>q. entry_at h (pgd m) (dir_path q) (pt_index q) = entry_at (tables k) (pgd m) (dir_path q) (pt_index q)"
    unfolding len by blast
  show thesis
  proof (rule that)
    show "print_pgtbl k 0 (- 1) = Some (0, out, k\<lparr>tables := h\<rparr>)"
      using assms(2) m h(1) by (simp add: print_pgtbl_def del: upt_Suc)
    show "length out = n" by (rule h(2))
    show "wf_dir (k\<lparr>tables := h\<rparr>)" using h(3) m by (simp add: wf_dir_def)
    show "pte_of (k\<lparr>tables := h\<rparr>) = pte_of k" using h(5) m by (simp add: pte_of_def fun_eq_iff)
    show "room k \<le> room (k\<lparr>tables := h\<rparr>) + 4 * n" using h(4) by (simp add: room_def)
  qed
qed

section \<open>A fresh address space\<close>

lemma path_zero_root:
  "\<forall>i. unat i < 512 \<longrightarrow> tab_rd h t i = Some 0 \<Longrightarrow> idx_ok p \<Longrightarrow> path h t p = (if p = [] then Some t else None)"
  by (induction p rule: rev_induct) (simp_all add: next_tab_def)

lemma dir_ok_zero_root:
  assumes "full_tabs h" "valid_tab h t" "length h \<le> MAX_TABLES" "\<forall>i. unat i < 512 \<longrightarrow> tab_rd h t i = Some 0"
  shows "dir_ok h t"
  unfolding dir_ok_def
  by (intro conjI allI impI) (auto simp: assms path_zero_root [OF assms(4)] split: if_splits)

lemma entry_at_zero_root:
  "\<forall>i. unat i < 512 \<longrightarrow> tab_rd h t i = Some 0 \<Longrightarrow> entry_at h t (dir_path q) (pt_index q) = 0"
  using path_zero_root [of h t "dir_path q"] dir_path_props(2) [of q]
  by (auto simp: entry_at_def split: option.split if_splits)

lemma calloc_table_eq:
  "length h < MAX_TABLES \<Longrightarrow> calloc_table h = (h @ [replicate 512 0], fresh_tab h)"
  by (simp add: calloc_table_def fresh_tab_def)

definition zero_rg :: vm_rg_struct where
  "zero_rg = \<lparr>rg_start = 0, rg_end = 0\<rparr>"

lemma init_mm_eq:
  assumes "length (tables k) + 4 \<le> MAX_TABLES"
  shows "init_mm k False False junk =
    (0, k\<lparr>mm := Some \<lparr>pgd = of_nat (length (tables k) + 1), p4d = of_nat (length (tables k) + 2),
        pud = of_nat (length (tables k) + 3), pmd = of_nat (length (tables k) + 4), pt = 0,
        mmap = [\<lparr>vm_id = 0, vm_start = 0, vm_end = 0, sbrk = 0, vm_freerg_list = zero_rg # junk\<rparr>],
        symrgtbl = replicate 30 zero_rg, fifo_pgn = []\<rparr>,
      tables := tables k @ replicate 4 (replicate 512 0)\<rparr>)"
  using assms
  by (simp add: init_mm_def calloc_table_eq fresh_tab_def zero_rg_def init_vm_rg_def
      enlist_vm_rg_node_def numeral_eq_Suc add.commute)

text \<open>
  C37: init_mm makes an empty address space: with room for its four tables, the directory it
  sets up is well-formed and maps no page, every symbol region is empty, there is one area
  of size 0 whose break is 0, the page list is empty, and the tables of other address
  spaces are kept. The free list of the area is the empty region followed by whatever the
  uninitialised list pointer led to, and the root \<open>pt\<close> is NULL.
\<close>
theorem init_mm_fresh_space:
  assumes "full_tabs (tables k)" "length (tables k) + 4 \<le> MAX_TABLES"
  shows "\<exists>m k'. init_mm k False False junk = (0, k') \<and> mm k' = Some m \<and> wf_dir k' \<and>
    (\<forall>p. pte_of k' p = 0) \<and> symrgtbl m = replicate 30 zero_rg \<and> fifo_pgn m = [] \<and> pt m = 0 \<and>
    mmap m = [\<lparr>vm_id = 0, vm_start = 0, vm_end = 0, sbrk = 0, vm_freerg_list = zero_rg # junk\<rparr>] \<and>
    take (length (tables k)) (tables k') = tables k \<and> room k = room k' + 4"
proof -
  let ?h = "tables k @ replicate 4 (replicate 512 0)" and ?t = "of_nat (length (tables k) + 1) :: u64"
  have t: "unat ?t = Suc (length (tables k))"
    using unat_fresh [of "tables k"] assms(2) by (simp add: fresh_tab_def add.commute)
  then have t0: "?t \<noteq> 0" by (metis nat.distinct(1) unat_0)
  have full: "full_tabs ?h" using assms(1) by (auto simp: full_tabs_def)
  have zero: "\<forall>i. unat i < 512 \<longrightarrow> tab_rd ?h ?t i = Some 0"
    using t t0 by (simp add: tab_rd_def rd_def nth_append)
  have valid: "valid_tab ?h ?t" using t t0 by (simp add: valid_tab_def)
  have len: "length ?h \<le> MAX_TABLES" using assms(2) by simp
  show ?thesis
    using dir_ok_zero_root [OF full valid len zero] entry_at_zero_root [OF zero] assms(2)
    by (simp add: init_mm_eq [OF assms(2)] wf_dir_def pte_of_def room_def)
qed

theorem init_mm_fresh_space_witness:
  "\<exists>k'. init_mm (demo_krnl 0) False False [] = (0, k') \<and> wf_dir k' \<and> pte_of k' 5 = 0"
  using init_mm_fresh_space [of "demo_krnl 0" "[]"]
  by (auto simp: demo_krnl_def full_tabs_def MAX_TABLES_def)

section \<open>Properties of the mapping and of the areas\<close>

text \<open>
  C19: vmap_page_range maps a list of frames at consecutive pages: with room for four tables a
  page and no more frames than \<open>pgnum\<close>, page i of the range (4096 bytes each from
  \<open>addr\<close>) gets the online entry of frame i, every page outside the range keeps its
  entry, the returned region spans the frames, and the mapped pages are put in front of the
  page list, the last one first. The devices are not touched.
\<close>
theorem vmap_page_range_maps:
  assumes "wf_dir k" "mm k = Some m" "length frames \<le> nat (sint pgnum)" "4 * length frames \<le> room k"
  shows "\<exists>k'. vmap_page_range k addr pgnum frames = Some (0,
      \<lparr>rg_start = addr, rg_end = addr + of_nat (length frames) * PAGING64_PAGESZ\<rparr>, k') \<and> wf_dir k' \<and>
    mram k' = mram k \<and> active_mswp k' = active_mswp k \<and>
    mm k' = Some (m\<lparr>fifo_pgn := rev (map (vpage addr) [0..<length frames]) @ fifo_pgn m\<rparr>) \<and>
    (\<forall>i<length frames. pte_of k' (vpage addr i) = pte_online (pte_of k (vpage addr i)) (frames ! i)) \<and>
    (\<forall>q. (\<forall>i<length frames. \<not> same_page q (vpage addr i)) \<longrightarrow> pte_of k' q = pte_of k q)"
  by (rule vmap_page_range_ok [OF assms, of addr]) blast

theorem vmap_page_range_maps_witness:
  "\<exists>k' rg. vmap_page_range (demo_krnl 0) 0x3000 3 [7, 9] = Some (0, rg, k') \<and>
     pte_of k' 3 = pte_online 0 7 \<and> pte_of k' 4 = pte_online 0 9"
proof -
  have v: "vpage 0x3000 0 = 3" "vpage 0x3000 1 = 4"
    by (simp_all add: vpage_def PAGING64_PAGESZ_def)
  have "length [7 :: u64, 9] \<le> nat (sint (3 :: cint))" by simp
  moreover have "4 * length [7 :: u64, 9] \<le> room (demo_krnl 0)" using room_demo_krnl [of 0] by simp
  moreover have "mm (demo_krnl 0) = Some (demo_mm 0)" by (simp add: demo_krnl_def)
  ultimately obtain k' rg where k': "vmap_page_range (demo_krnl 0) 0x3000 3 [7, 9] = Some (0, rg, k')"
    "\<forall>i<length [7 :: u64, 9]. pte_of k' (vpage 0x3000 i) =
      pte_online (pte_of (demo_krnl 0) (vpage 0x3000 i)) ([7, 9] ! i)"
    using vmap_page_range_maps [OF wf_demo_krnl [of 0], where m = "demo_mm 0" and frames = "[7, 9]"
        and pgnum = 3 and addr = "0x3000"] by blast
  from k'(2) have "pte_of k' 3 = pte_online 0 7" "pte_of k' 4 = pte_online 0 9"
    using v spec [OF k'(2), of 0] spec [OF k'(2), of 1] by (simp_all add: pte_of_demo)
  with k'(1) show ?thesis by blast
qed

text \<open>
  C25: alloc_pages_range takes all the requested frames or none: it returns the first n free
  frames in order and leaves the rest; when there are fewer than n it returns -1, leaves the
  caller's list alone and has put every frame back, which reverses the free list; a request
  that is not positive returns 0 without touching anything.
\<close>
theorem alloc_pages_range_all_or_nothing:
  "alloc_pages_range k req_pgnum frm_lst =
     (let n = nat (sint req_pgnum); fl = free_fp_list (mram k)
      in if sint req_pgnum \<le> 0 then (0, frm_lst, k)
         else if n \<le> length fl then (0, take n fl, k\<lparr>mram := (mram k)\<lparr>free_fp_list := drop n fl\<rparr>\<rparr>)
         else (- 1, frm_lst, k\<lparr>mram := (mram k)\<lparr>free_fp_list := rev fl\<rparr>\<rparr>))"
  by (simp add: alloc_pages_range_def alloc_loop_eq Let_def)

text \<open>Raising the limit of an area: what happens on every branch.\<close>

lemma deref_vma_parts:
  assumes "deref_vma k vmaid = Some (m, i, a)"
  shows "mm k = Some m" "mmap m \<noteq> []" "get_vma_by_num m vmaid = Some (Some i)"
    "i < length (mmap m)" "a = mmap m ! i"
  using assms by (auto simp: deref_vma_def bind_eq_Some_conv rd_Some get_vma_by_num_def split: if_splits)

lemma vmap_no_frames: "vmap_page_range k addr n [] = Some (0, \<lparr>rg_start = addr, rg_end = addr\<rparr>, k)"
  by (simp add: vmap_page_range_def)

lemma vm_map_ram_nothing:
  "vm_map_ram k astart aend mapstart incpgnum ret_rg =
     Some (0, \<lparr>rg_start = mapstart, rg_end = mapstart\<rparr>, k)"
proof -
  have "(0 :: u64) \<noteq> - 3000" by simp
  then show ?thesis by (simp add: vm_map_ram_def vmap_no_frames)
qed

lemma inc_vma_limit_eq:
  assumes "deref_vma k vmaid = Some (m, i, a)"
  shows "inc_vma_limit k vmaid inc_sz =
    Some (if sbrk a + inc_sz \<le> sbrk a then (- 1, k)
      else (0, k\<lparr>mm := Some (m\<lparr>mmap := (mmap m)[i := a\<lparr>vm_end := sbrk a + inc_sz\<rparr>]\<rparr>)\<rparr>))"
proof -
  note p = deref_vma_parts [OF assms]
  have "validate_overlap_vm_area k vmaid (sbrk a) (sbrk a + inc_sz) =
      Some (if sbrk a + inc_sz \<le> sbrk a then - 1 else 0)"
    using p by (simp add: validate_overlap_vm_area_def rd_in OVERLAP_def case_prod_beta list_ex_iff)
  with assms show ?thesis
    by (simp add: inc_vma_limit_def get_vm_area_node_at_brk_def vm_map_ram_nothing Let_def)
qed

lemma vma_loop_ids: "map vm_id vs = map vm_id ws \<Longrightarrow> vma_loop vs v n = vma_loop ws v n"
proof (induction vs arbitrary: ws n)
  case (Cons a vs)
  then obtain b ws' where "ws = b # ws'" "vm_id b = vm_id a" "map vm_id vs = map vm_id ws'"
    by (cases ws) auto
  with Cons.IH show ?case by simp
qed simp

definition set_area :: "krnl_t \<Rightarrow> mm_struct \<Rightarrow> nat \<Rightarrow> vm_area_struct \<Rightarrow> krnl_t" where
  "set_area k m i a = k\<lparr>mm := Some (m\<lparr>mmap := (mmap m)[i := a]\<rparr>)\<rparr>"

lemma deref_set_area:
  assumes "deref_vma k vmaid = Some (m, i, a)" "vm_id a' = vm_id a"
  shows "deref_vma (set_area k m i a') vmaid = Some (m\<lparr>mmap := (mmap m)[i := a']\<rparr>, i, a')"
proof -
  note p = deref_vma_parts [OF assms(1)]
  have "map vm_id ((mmap m)[i := a']) = map vm_id (mmap m)"
    using p assms(2) by (simp add: map_update list_update_same_conv)
  from vma_loop_ids [OF this] p show ?thesis
    by (simp add: deref_vma_def set_area_def get_vma_by_num_def rd_in)
qed

lemma set_area_twice:
  "set_area (set_area k m i a) (m\<lparr>mmap := (mmap m)[i := a]\<rparr>) i b = set_area k m i b"
  by (simp add: set_area_def)

lemma set_area_frame [frame_simps]: "tables (set_area k m i a) = tables k" "mram (set_area k m i a) = mram k"
  "active_mswp (set_area k m i a) = active_mswp k" "room (set_area k m i a) = room k"
  by (simp_all add: set_area_def room_def)

lemma pte_of_set_area: "mm k = Some m \<Longrightarrow> pte_of (set_area k m i a) = pte_of k"
  by (auto simp: pte_of_def set_area_def fun_eq_iff)

text \<open>The state after init_mm, for the witnesses.\<close>

definition fresh_vma :: vm_area_struct where
  "fresh_vma = \<lparr>vm_id = 0, vm_start = 0, vm_end = 0, sbrk = 0, vm_freerg_list = [zero_rg]\<rparr>"

definition fresh_mm :: mm_struct where
  "fresh_mm = \<lparr>pgd = 2, p4d = 3, pud = 4, pmd = 5, pt = 0, mmap = [fresh_vma],
     symrgtbl = replicate 30 zero_rg, fifo_pgn = []\<rparr>"

definition fresh_krnl :: krnl_t where
  "fresh_krnl = (demo_krnl 0)\<lparr>mm := Some fresh_mm, tables := replicate 5 (replicate 512 0)\<rparr>"

lemma init_mm_fresh: "init_mm (demo_krnl 0) False False [] = (0, fresh_krnl)"
proof -
  have len: "length (tables (demo_krnl 0)) = 1" by (simp add: demo_krnl_def)
  have rep: "x # replicate 4 x = replicate 5 x" for x :: "u64 list"
    by (simp add: numeral_eq_Suc)
  have "length (tables (demo_krnl 0)) + 4 \<le> MAX_TABLES" unfolding len by (simp add: MAX_TABLES_def)
  from init_mm_eq [OF this, of "[]"] show ?thesis
    unfolding len by (simp add: fresh_krnl_def fresh_mm_def fresh_vma_def demo_krnl_def rep)
qed

lemma deref_fresh: "deref_vma fresh_krnl 0 = Some (fresh_mm, 0, fresh_vma)"
  by (simp add: deref_vma_def fresh_krnl_def fresh_mm_def fresh_vma_def get_vma_by_num_def
      u64_to_int_def rd_def)

text \<open>
  \<open>inc_vma_limit\<close> on an existing area: when the break plus the request (64 bits, wrapping)
  is not above the break it returns -1 and changes nothing; otherwise it returns 0 and sets
  the end of the area to that sum, and nothing else: no table, no device, no page list and
  not even the break changes, so a later call gives what it would have given without this
  one, even when that makes the area smaller.
\<close>
lemma inc_vma_limit_outcome:
  assumes "deref_vma k vmaid = Some (m, i, a)"
  shows "(sbrk a + s \<le> sbrk a \<longrightarrow> inc_vma_limit k vmaid s = Some (- 1, k)) \<and>
    (sbrk a < sbrk a + s \<longrightarrow>
      inc_vma_limit k vmaid s = Some (0, set_area k m i (a\<lparr>vm_end := sbrk a + s\<rparr>)) \<and>
      (sbrk a < sbrk a + s' \<longrightarrow>
        inc_vma_limit (set_area k m i (a\<lparr>vm_end := sbrk a + s\<rparr>)) vmaid s' = inc_vma_limit k vmaid s'))"
  using inc_vma_limit_eq [OF assms]
    inc_vma_limit_eq [OF deref_set_area [OF assms, of "a\<lparr>vm_end := sbrk a + s\<rparr>"], of s']
  by (auto simp: not_le set_area_def)

lemma inc_vma_limit_outcome_witness:
  "\<exists>k1 k2. inc_vma_limit fresh_krnl 0 300 = Some (0, k1) \<and> inc_vma_limit k1 0 100 = Some (0, k2) \<and>
     inc_vma_limit fresh_krnl 0 100 = Some (0, k2) \<and> inc_vma_limit fresh_krnl 0 0 = Some (- 1, fresh_krnl)"
proof -
  have s: "sbrk fresh_vma = 0" by (simp add: fresh_vma_def)
  show ?thesis
    using inc_vma_limit_outcome [OF deref_fresh, of 300 100] inc_vma_limit_outcome [OF deref_fresh, of 100 100]
      inc_vma_limit_outcome [OF deref_fresh, of 0 100]
    by (simp add: s)
qed

text \<open>
  Print_pgtbl (as liballoc, libfree and the others call it, for the whole of area 0)
  prints one line for each page from the one that holds the start to the one that holds the
  end, both included, and although it may allocate tables on the way it changes no entry
  and keeps the directory well-formed.
\<close>
lemma print_pgtbl_keeps_entries:
  assumes "wf_dir k" "deref_vma k 0 = Some (m, i, a)"
    and "n = Suc (unat (drop_bit 12 (vm_end a))) - unat (drop_bit 12 (vm_start a))" "4 * n \<le> room k"
  shows "\<exists>out h. print_pgtbl k 0 (- 1) = Some (0, out, k\<lparr>tables := h\<rparr>) \<and> length out = n \<and>
    wf_dir (k\<lparr>tables := h\<rparr>) \<and> pte_of (k\<lparr>tables := h\<rparr>) = pte_of k"
  by (rule print_pgtbl_ok [OF assms]) (intro exI conjI; assumption)

lemma wf_fresh_krnl: "wf_dir fresh_krnl" and room_fresh_krnl: "96 \<le> room fresh_krnl"
  and pte_of_fresh: "pte_of fresh_krnl p = 0"
proof -
  have full: "full_tabs (tables (demo_krnl 0))" by (simp add: demo_krnl_def full_tabs_def)
  let ?h = "replicate 5 (replicate 512 (0 :: u64))"
  have zero: "\<forall>i. unat i < 512 \<longrightarrow> tab_rd ?h 2 i = Some 0" by (simp add: tab_rd_def rd_def)
  have ok: "dir_ok ?h 2"
    by (rule dir_ok_zero_root [OF _ _ _ zero]) (simp_all add: full_tabs_def valid_tab_def MAX_TABLES_def)
  then show "wf_dir fresh_krnl" by (simp add: wf_dir_def fresh_krnl_def fresh_mm_def)
  show "96 \<le> room fresh_krnl" by (simp add: room_def fresh_krnl_def MAX_TABLES_def)
  show "pte_of fresh_krnl p = 0"
    using entry_at_zero_root [OF zero] by (simp add: pte_of_def fresh_krnl_def fresh_mm_def)
qed

lemma print_pgtbl_keeps_entries_witness:
  "\<exists>out h. print_pgtbl fresh_krnl 0 (- 1) = Some (0, out, fresh_krnl\<lparr>tables := h\<rparr>) \<and> length out = 1"
  using print_pgtbl_keeps_entries [OF wf_fresh_krnl deref_fresh, of 1] room_fresh_krnl
  by (auto simp: fresh_vma_def)

end
