(* ===== verification/Process.thy ===== *)
theory Process
  imports Prelude
begin

text \<open>
  The data shared by all parts of the simulator (\<open>include/common.h\<close>): instructions, code
  segments, the legacy two-level page table and the process control block. A pointer to a
  process is a number (\<open>pref\<close>) and the allocated blocks are a partial map from these
  numbers: reading through a pointer that is not in the map (never allocated, or freed)
  is undefined. The field \<open>krnl\<close> of a block always points to the one static kernel
  structure of \<open>src/os.c\<close>, which is the state the operations take; it is not a field here.
\<close>

datatype ins_opcode_t = CALC | ALLOC | FREE | READ | WRITE | SYSCALL

record inst_t =
  opcode :: ins_opcode_t
  arg_0 :: u64
  arg_1 :: u64
  arg_2 :: u64
  arg_3 :: u64

record code_seg_t =
  ctext :: "inst_t list"
  csize :: u32

text \<open>Rows are (\<open>v_index\<close>, \<open>p_index\<close>) and (\<open>v_index\<close>, \<open>next_lv\<close>); a NULL \<open>next_lv\<close> is \<open>None\<close>.\<close>

record trans_table_t =
  trows :: "(u64 \<times> u64) list"
  tsize :: int

record page_table_t =
  prows :: "(u64 \<times> trans_table_t option) list"
  psize :: int

record pcb_t =
  pid :: u32
  priority :: u32
  path :: string
  code :: code_seg_t
  regs :: "u64 list"
  pc :: u32
  prio :: u32
  page_table :: page_table_t
  bp :: u32

type_synonym pref = nat
type_synonym pcb_heap = "pref \<rightharpoonup> pcb_t"

text \<open>
  The enumeration's numbering in C (\<open>CALC\<close> is 0) orders the opcodes; with it the
  library's sorting and comparison lemmas apply to them.
\<close>

fun opcode_number :: "ins_opcode_t \<Rightarrow> nat" where
  "opcode_number CALC = 0"
| "opcode_number ALLOC = 1"
| "opcode_number FREE = 2"
| "opcode_number READ = 3"
| "opcode_number WRITE = 4"
| "opcode_number SYSCALL = 5"

lemma opcode_number_inj: "opcode_number a = opcode_number b \<longleftrightarrow> a = b"
  by (cases a; cases b) simp_all

instantiation ins_opcode_t :: linorder
begin

definition less_eq_ins_opcode_t :: "ins_opcode_t \<Rightarrow> ins_opcode_t \<Rightarrow> bool" where
  "less_eq_ins_opcode_t a b \<longleftrightarrow> opcode_number a \<le> opcode_number b"

definition less_ins_opcode_t :: "ins_opcode_t \<Rightarrow> ins_opcode_t \<Rightarrow> bool" where
  "less_ins_opcode_t a b \<longleftrightarrow> opcode_number a < opcode_number b"

instance
  by standard (auto simp: less_eq_ins_opcode_t_def less_ins_opcode_t_def opcode_number_inj)

end

end
