(* ===== verification/Queue.thy ===== *)
theory Queue
  imports Prelude
begin

text \<open>
  Process queues (\<open>include/queue.h\<close>, \<open>src/queue.c\<close>): an array of \<open>MAX_QUEUE_SIZE\<close>
  pointers and a count. \<open>'p\<close> is the type of a process pointer and \<open>None\<close> is NULL.
  The queue arguments are references to existing queues: every call in the program
  passes the address of a static queue, or \<open>krnl->running_list\<close> after testing it, so the
  tests \<open>q == NULL\<close> are false here. The locale \<open>bounded_fifo\<close> states what the clients
  of a queue (the scheduler, the search loops of the system calls) rely on.
\<close>

section \<open>State and operations\<close>

definition MAX_QUEUE_SIZE :: nat where
  "MAX_QUEUE_SIZE = 50"

record 'p queue_t =
  qproc :: "'p option list"
  qsize :: nat

text \<open>\<open>int empty(struct queue_t *q)\<close>\<close>

definition empty :: "'p queue_t \<Rightarrow> bool" where
  "empty q \<longleftrightarrow> qsize q = 0"

text \<open>\<open>void enqueue(struct queue_t *q, struct pcb_t *proc)\<close>\<close>

definition enqueue :: "'p queue_t \<Rightarrow> 'p option \<Rightarrow> 'p queue_t" where
  "enqueue q proc =
     (if proc = None then q
      else if MAX_QUEUE_SIZE \<le> qsize q then q
      else q\<lparr>qproc := (qproc q)[qsize q := proc], qsize := Suc (qsize q)\<rparr>)"

text \<open>The loop \<open>for (i = 1; i < q->size; i++) q->proc[i - 1] = q->proc[i]\<close> from a given \<open>i\<close>.\<close>

function shift_loop :: "'p option list \<Rightarrow> nat \<Rightarrow> nat \<Rightarrow> 'p option list" where
  "shift_loop a i n = (if i < n then shift_loop (a[i - 1 := a ! i]) (Suc i) n else a)"
  by pat_completeness auto
termination
  by (relation "measure (\<lambda>(a, i, n). n - i)") auto

text \<open>\<open>struct pcb_t *dequeue(struct queue_t *q)\<close>\<close>

definition dequeue :: "'p queue_t \<Rightarrow> 'p option \<times> 'p queue_t" where
  "dequeue q =
     (if empty q then (None, q)
      else
        let proc = qproc q ! 0;
            a = shift_loop (qproc q) 1 (qsize q);
            sz = qsize q - 1
        in (proc, q\<lparr>qproc := a[sz := None], qsize := sz\<rparr>))"

text \<open>The search \<open>for (i = 0; i < q->size; i++) if (q->proc[i] == proc \<dots>) { idx = i; break; }\<close>\<close>

function purge_find :: "'p option list \<Rightarrow> nat \<Rightarrow> nat \<Rightarrow> 'p option \<Rightarrow> nat option" where
  "purge_find a i n p =
     (if i < n then (if a ! i = p \<and> a ! i \<noteq> None then Some i else purge_find a (Suc i) n p)
      else None)"
  by pat_completeness auto
termination
  by (relation "measure (\<lambda>(a, i, n, p). n - i)") auto

text \<open>The loop \<open>for (i = idx; i < q->size - 1; i++) q->proc[i] = q->proc[i + 1]\<close>.\<close>

function close_gap :: "'p option list \<Rightarrow> nat \<Rightarrow> nat \<Rightarrow> 'p option list" where
  "close_gap a i n = (if i < n - 1 then close_gap (a[i := a ! (i + 1)]) (Suc i) n else a)"
  by pat_completeness auto
termination
  by (relation "measure (\<lambda>(a, i, n). n - i)") auto

text \<open>\<open>struct pcb_t *purgequeue(struct queue_t *q, struct pcb_t *proc)\<close>\<close>

definition purgequeue :: "'p queue_t \<Rightarrow> 'p option \<Rightarrow> 'p option \<times> 'p queue_t" where
  "purgequeue q proc =
     (if qsize q = 0 \<or> proc = None then (None, q)
      else case purge_find (qproc q) 0 (qsize q) proc of
        None \<Rightarrow> (None, q)
      | Some idx \<Rightarrow>
          let removedProc = qproc q ! idx;
              a = close_gap (qproc q) idx (qsize q);
              sz = qsize q - 1
          in (removedProc, q\<lparr>qproc := a[sz := None], qsize := sz\<rparr>))"

text \<open>A statically allocated queue: all bytes are zero.\<close>

definition zero_queue :: "'p queue_t" where
  "zero_queue = \<lparr>qproc = replicate MAX_QUEUE_SIZE None, qsize = 0\<rparr>"

declare shift_loop.simps [simp del] close_gap.simps [simp del] purge_find.simps [simp del]

section \<open>Well-formedness and abstraction\<close>

definition wf_queue :: "'p queue_t \<Rightarrow> bool" where
  "wf_queue q \<longleftrightarrow> length (qproc q) = MAX_QUEUE_SIZE \<and> qsize q \<le> MAX_QUEUE_SIZE \<and>
     (\<forall>x \<in> set (take (qsize q) (qproc q)). x \<noteq> None)"

definition contents :: "'p queue_t \<Rightarrow> 'p list" where
  "contents q = map the (take (qsize q) (qproc q))"

lemma length_contents: "wf_queue q \<Longrightarrow> length (contents q) = qsize q"
  by (simp add: wf_queue_def contents_def)

lemma wf_queue_Some:
  assumes "wf_queue q" "i < qsize q"
  shows "qproc q ! i = Some (contents q ! i)"
proof -
  have "take (qsize q) (qproc q) ! i \<in> set (take (qsize q) (qproc q))"
    using assms by (intro nth_mem) (auto simp: wf_queue_def)
  with assms show ?thesis by (auto simp: wf_queue_def contents_def)
qed

lemma wf_zero_queue [simp]: "wf_queue zero_queue"
  by (simp add: wf_queue_def zero_queue_def)

lemma contents_zero_queue [simp]: "contents zero_queue = []"
  by (simp add: contents_def zero_queue_def)

lemma empty_iff_contents: "wf_queue q \<Longrightarrow> empty q \<longleftrightarrow> contents q = []"
  by (auto simp: empty_def contents_def wf_queue_def MAX_QUEUE_SIZE_def)

section \<open>The shift loops\<close>

lemma length_shift_loop [simp]: "length (shift_loop a i n) = length a"
  by (induction a i n rule: shift_loop.induct) (subst shift_loop.simps, simp)

lemma shift_loop_nth:
  assumes "1 \<le> i" "n \<le> length a" "j < length a"
  shows "shift_loop a i n ! j = (if i \<le> Suc j \<and> Suc j < n then a ! Suc j else a ! j)"
  using assms
proof (induction a i n rule: shift_loop.induct)
  case (1 a i n)
  show ?case
  proof (cases "i < n")
    case True
    with "1" have "shift_loop (a[i - 1 := a ! i]) (Suc i) n ! j =
        (if Suc i \<le> Suc j \<and> Suc j < n then a[i - 1 := a ! i] ! Suc j else a[i - 1 := a ! i] ! j)"
      by simp
    with True "1.prems" show ?thesis
      by (subst shift_loop.simps) (auto simp: nth_list_update)
  next
    case False
    with "1.prems" show ?thesis by (subst shift_loop.simps) auto
  qed
qed

text \<open>The second loop is the first one with its index moved by one.\<close>

lemma close_gap_shift: "close_gap a i n = shift_loop a (Suc i) n"
proof (induction a i n rule: close_gap.induct)
  case (1 a i n)
  then show ?case
    by (subst close_gap.simps, subst shift_loop.simps) auto
qed

lemma take_shift_loop:
  assumes "i < n" "n \<le> length a"
  shows "take (n - Suc 0) (shift_loop a (Suc i) n) = take i a @ take (n - Suc i) (drop (Suc i) a)"
  using assms by (intro nth_equalityI) (auto simp: shift_loop_nth nth_append)

section \<open>The operations on the contents\<close>

lemma wf_enqueue [simp, queue_simps]: "wf_queue q \<Longrightarrow> wf_queue (enqueue q p)"
  by (auto simp: wf_queue_def enqueue_def take_Suc_update_at_end simp del: take_Suc)

lemma contents_enqueue [queue_simps]:
  "wf_queue q \<Longrightarrow> contents (enqueue q (Some p)) =
     (if length (contents q) < MAX_QUEUE_SIZE then contents q @ [p] else contents q)"
  by (auto simp: length_contents, auto simp: contents_def enqueue_def take_Suc_update_at_end wf_queue_def)

lemma enqueue_NULL [simp]: "enqueue q None = q"
  by (simp add: enqueue_def)

lemma take_dequeued:
  assumes "wf_queue q" "i < qsize q"
  shows "take (qsize q - 1) ((shift_loop (qproc q) (Suc i) (qsize q))[qsize q - 1 := None]) =
    take i (qproc q) @ take (qsize q - Suc i) (drop (Suc i) (qproc q))"
  using assms by (simp add: take_shift_loop wf_queue_def)

lemma remove_at_contents:
  assumes "wf_queue q" "i < qsize q"
    and q': "q' = q\<lparr>qproc := (shift_loop (qproc q) (Suc i) (qsize q))[qsize q - 1 := None],
                    qsize := qsize q - 1\<rparr>"
  shows "wf_queue q'" and "contents q' = take i (contents q) @ drop (Suc i) (contents q)"
proof -
  have t: "take (qsize q') (qproc q') =
      take i (qproc q) @ take (qsize q - Suc i) (drop (Suc i) (qproc q))"
    using take_dequeued [OF assms(1,2)] by (simp add: q')
  also have "\<dots> = take i (take (qsize q) (qproc q)) @ drop (Suc i) (take (qsize q) (qproc q))"
    using assms(2) by (simp add: min_def drop_take)
  finally have t: "take (qsize q') (qproc q') =
      take i (take (qsize q) (qproc q)) @ drop (Suc i) (take (qsize q) (qproc q))" .
  then show "contents q' = take i (contents q) @ drop (Suc i) (contents q)"
    unfolding contents_def by (simp only: t map_append take_map drop_map)
  have "set (take (qsize q') (qproc q')) \<subseteq> set (take (qsize q) (qproc q))"
    using t set_take_subset set_drop_subset by fastforce
  then show "wf_queue q'"
    using assms(1) by (auto simp: wf_queue_def q')
qed

lemma dequeue_Nil [queue_simps]: "wf_queue q \<Longrightarrow> contents q = [] \<Longrightarrow> dequeue q = (None, q)"
  by (simp add: dequeue_def empty_iff_contents)

lemma dequeue_nonempty:
  assumes "wf_queue q" "contents q \<noteq> []"
  shows "fst (dequeue q) = Some (hd (contents q))"
    and "wf_queue (snd (dequeue q))" and "contents (snd (dequeue q)) = tl (contents q)"
proof -
  from assms have sz: "0 < qsize q" by (auto simp: length_contents [symmetric])
  with assms wf_queue_Some [OF assms(1) sz] show "fst (dequeue q) = Some (hd (contents q))"
    by (simp add: dequeue_def empty_iff_contents hd_conv_nth Let_def)
  have "snd (dequeue q) = q\<lparr>qproc := (shift_loop (qproc q) (Suc 0) (qsize q))[qsize q - 1 := None],
                            qsize := qsize q - 1\<rparr>"
    using assms by (simp add: dequeue_def empty_iff_contents Let_def)
  from remove_at_contents [OF assms(1) sz this]
  show "wf_queue (snd (dequeue q))" "contents (snd (dequeue q)) = tl (contents q)"
    by (simp_all add: drop_Suc)
qed

lemma wf_dequeue [simp, queue_simps]: "wf_queue q \<Longrightarrow> wf_queue (snd (dequeue q))"
  by (cases "contents q = []") (simp_all add: dequeue_Nil dequeue_nonempty)

lemma fst_dequeue [queue_simps]:
  "wf_queue q \<Longrightarrow> fst (dequeue q) = (case contents q of [] \<Rightarrow> None | x # _ \<Rightarrow> Some x)"
  by (cases "contents q") (use dequeue_nonempty(1) [of q] in \<open>simp_all add: dequeue_Nil\<close>)

lemma contents_dequeue [queue_simps]: "wf_queue q \<Longrightarrow> contents (snd (dequeue q)) = tl (contents q)"
  by (cases "contents q = []") (simp_all add: dequeue_Nil dequeue_nonempty)

section \<open>The interface of a bounded first-in first-out queue\<close>

locale bounded_fifo =
  fixes enq :: "'q \<Rightarrow> 'a \<Rightarrow> 'q"
    and deq :: "'q \<Rightarrow> 'a option \<times> 'q"
    and items :: "'q \<Rightarrow> 'a list"
    and ok :: "'q \<Rightarrow> bool"
    and cap :: nat
  assumes items_bound: "ok q \<Longrightarrow> length (items q) \<le> cap"
    and enq_ok: "ok q \<Longrightarrow> ok (enq q x)"
    and enq_items: "ok q \<Longrightarrow>
      items (enq q x) = (if length (items q) < cap then items q @ [x] else items q)"
    and deq_ok: "ok q \<Longrightarrow> ok (snd (deq q))"
    and deq_fst: "ok q \<Longrightarrow> fst (deq q) = (case items q of [] \<Rightarrow> None | x # _ \<Rightarrow> Some x)"
    and deq_items: "ok q \<Longrightarrow> items (snd (deq q)) = tl (items q)"
begin

text \<open>One round of a search loop: take the first element out and put it back at the end.\<close>

definition rot :: "'q \<Rightarrow> 'q" where
  "rot q = (case deq q of (None, q') \<Rightarrow> q' | (Some x, q') \<Rightarrow> enq q' x)"

lemma deq_Cons: "ok q \<Longrightarrow> items q = x # xs \<Longrightarrow> \<exists>q'. deq q = (Some x, q') \<and> ok q' \<and> items q' = xs"
  using deq_fst [of q] deq_ok [of q] deq_items [of q] by (cases "deq q") auto

lemma deq_empty: "ok q \<Longrightarrow> items q = [] \<Longrightarrow> \<exists>q'. deq q = (None, q') \<and> ok q' \<and> items q' = []"
  using deq_fst [of q] deq_ok [of q] deq_items [of q] by (cases "deq q") auto

lemma rot_ok_items: "ok q \<Longrightarrow> ok (rot q) \<and> items (rot q) = rotate1 (items q)"
proof (cases "items q")
  case Nil
  assume "ok q"
  with Nil deq_empty [of q] show ?thesis by (auto simp: rot_def)
next
  case (Cons x xs)
  assume ok: "ok q"
  with Cons deq_Cons obtain q' where q': "deq q = (Some x, q')" "ok q'" "items q' = xs" by blast
  moreover have "length xs < cap" using items_bound [OF ok] Cons by simp
  ultimately show ?thesis using Cons by (simp add: rot_def enq_ok enq_items)
qed

lemma rot_n_ok_items: "ok q \<Longrightarrow> ok ((rot ^^ n) q) \<and> items ((rot ^^ n) q) = rotate n (items q)"
  by (induction n) (auto simp: rot_ok_items)

lemma rot_n_mset: "ok q \<Longrightarrow> mset (items ((rot ^^ n) q)) = mset (items q)"
  using rot_n_ok_items [of q n] by (simp add: mset_rotate)

lemma enq_many: "ok q \<Longrightarrow> ok (foldl enq q xs) \<and> items (foldl enq q xs) = take cap (items q @ xs)"
proof (induction xs arbitrary: q)
  case Nil
  then show ?case using items_bound by simp
next
  case (Cons x xs)
  then show ?case using items_bound [OF Cons.prems]
    by (cases "length (items q) < cap") (auto simp: enq_ok enq_items Suc_diff_Suc [symmetric])
qed

lemma enq_full: "ok q \<Longrightarrow> length (items q) = cap \<Longrightarrow> items (enq q x) = items q"
  by (simp add: enq_items)

end

interpretation fifo: bounded_fifo "\<lambda>q p. enqueue q (Some p)" dequeue contents wf_queue MAX_QUEUE_SIZE
  proof
  show "length (contents q) \<le> MAX_QUEUE_SIZE" if "wf_queue q" for q :: "'a queue_t"
    using that by (simp add: length_contents) (simp add: wf_queue_def)
qed (simp_all add: queue_simps)

section \<open>Removal of a given process\<close>

lemma purge_find_Some:
  "purge_find a i n p = Some k \<Longrightarrow> p \<noteq> None \<Longrightarrow>
     i \<le> k \<and> k < n \<and> a ! k = p \<and> (\<forall>j. i \<le> j \<and> j < k \<longrightarrow> a ! j \<noteq> p)"
proof (induction a i n p rule: purge_find.induct)
  case (1 a i n p)
  note eq = "1.prems"(1) [unfolded purge_find.simps [of a i n p]]
  show ?case
  proof (cases "i < n \<and> a ! i = p")
    case True
    with eq "1.prems"(2) show ?thesis by auto
  next
    case False
    with eq "1.prems"(2) have i: "i < n" and r: "purge_find a (Suc i) n p = Some k"
      by (auto split: if_splits)
    with False "1" have "Suc i \<le> k \<and> k < n \<and> a ! k = p \<and> (\<forall>j. Suc i \<le> j \<and> j < k \<longrightarrow> a ! j \<noteq> p)"
      by blast
    with False i show ?thesis by (auto simp: Suc_le_eq) (metis le_neq_implies_less)
  qed
qed

lemma purge_find_None:
  "purge_find a i n p = None \<Longrightarrow> p \<noteq> None \<Longrightarrow> i \<le> j \<Longrightarrow> j < n \<Longrightarrow> a ! j \<noteq> p"
proof (induction a i n p rule: purge_find.induct)
  case (1 a i n p)
  show ?case
  proof (cases "i = j")
    case True
    with "1.prems" show ?thesis by (subst (asm) purge_find.simps) (auto split: if_splits)
  next
    case False
    with "1.prems" have "purge_find a (Suc i) n p = None" "Suc i \<le> j" "\<not> (a ! i = p \<and> a ! i \<noteq> None)"
      by (subst (asm) purge_find.simps, auto split: if_splits)+
    moreover have "i < n" using "1.prems" by simp
    ultimately show ?thesis using "1.IH" "1.prems" by blast
  qed
qed

lemma purge_find_contents:
  assumes "wf_queue q"
  shows "purge_find (qproc q) 0 (qsize q) (Some p) = None \<Longrightarrow> p \<notin> set (contents q)"
    and "purge_find (qproc q) 0 (qsize q) (Some p) = Some k \<Longrightarrow>
      k < length (contents q) \<and> contents q ! k = p \<and> p \<notin> set (take k (contents q))"
proof -
  assume n: "purge_find (qproc q) 0 (qsize q) (Some p) = None"
  have "contents q ! j \<noteq> p" if "j < length (contents q)" for j
    using purge_find_None [OF n, of j] wf_queue_Some [OF assms, of j] that
    by (auto simp: length_contents assms)
  then show "p \<notin> set (contents q)" by (metis in_set_conv_nth)
next
  assume "purge_find (qproc q) 0 (qsize q) (Some p) = Some k"
  from purge_find_Some [OF this] have k: "k < qsize q" "qproc q ! k = Some p"
    and f: "\<And>j. j < k \<Longrightarrow> qproc q ! j \<noteq> Some p" by auto
  have "contents q ! j \<noteq> p" if "j < k" for j
    using f [OF that] wf_queue_Some [OF assms, of j] that k by auto
  then have "p \<notin> set (take k (contents q))"
    using k assms by (auto simp: in_set_conv_nth length_contents)
  with k wf_queue_Some [OF assms k(1)] assms
  show "k < length (contents q) \<and> contents q ! k = p \<and> p \<notin> set (take k (contents q))"
    by (simp add: length_contents)
qed

lemma purgequeue_absent:
  "wf_queue q \<Longrightarrow> p \<notin> set (contents q) \<Longrightarrow> purgequeue q (Some p) = (None, q)"
  using purge_find_contents(2) [of q p]
  by (fastforce simp: purgequeue_def split: option.split)

lemma purgequeue_present:
  assumes "wf_queue q" "p \<in> set (contents q)"
  shows "fst (purgequeue q (Some p)) = Some p" and "wf_queue (snd (purgequeue q (Some p)))"
    and "contents (snd (purgequeue q (Some p))) = remove1 p (contents q)"
proof -
  from assms(2) purge_find_contents(1) [OF assms(1), of p] obtain k
    where k: "purge_find (qproc q) 0 (qsize q) (Some p) = Some k" by fastforce
  note kc = purge_find_contents(2) [OF assms(1) k]
  with assms(1) have kq: "k < qsize q" by (simp add: length_contents)
  from kq k have eq: "purgequeue q (Some p) = (qproc q ! k,
      q\<lparr>qproc := (shift_loop (qproc q) (Suc k) (qsize q))[qsize q - 1 := None], qsize := qsize q - 1\<rparr>)"
    by (simp add: purgequeue_def close_gap_shift Let_def)
  show "fst (purgequeue q (Some p)) = Some p"
    using kc wf_queue_Some [OF assms(1) kq] by (simp add: eq)
  show "wf_queue (snd (purgequeue q (Some p)))"
    and "contents (snd (purgequeue q (Some p))) = remove1 p (contents q)"
    using remove_at_contents [OF assms(1) kq refl] kc find_index_unique [of k "contents q" p]
    by (simp_all add: eq)
qed

section \<open>Properties\<close>

text \<open>
  C33: enqueue and dequeue implement a bounded first-in first-out list: on a well-formed
  queue, enqueue appends the process while fewer than \<open>MAX_QUEUE_SIZE\<close> are held and
  otherwise leaves the queue as it is, dequeue takes the oldest process out (NULL on the
  empty queue), and both keep the queue well formed.
\<close>
theorem queue_refines_fifo:
  assumes "wf_queue q"
  shows "wf_queue (enqueue q (Some p)) \<and>
    contents (enqueue q (Some p)) =
      (if length (contents q) < MAX_QUEUE_SIZE then contents q @ [p] else contents q) \<and>
    wf_queue (snd (dequeue q)) \<and>
    (fst (dequeue q), contents (snd (dequeue q))) =
      (case contents q of [] \<Rightarrow> (None, []) | x # xs \<Rightarrow> (Some x, xs))"
  using assms by (simp add: queue_simps split: list.split)

theorem queue_refines_fifo_witness:
  "contents (snd (dequeue (enqueue (enqueue zero_queue (Some (3::nat))) (Some 4)))) = [4] \<and>
   contents (enqueue (enqueue zero_queue (Some (3::nat))) (Some 4)) = [3, 4]"
proof -
  have e: "wf_queue (enqueue zero_queue (Some (3::nat)))"
    "contents (enqueue zero_queue (Some (3::nat))) = [3]"
    using queue_refines_fifo [OF wf_zero_queue, of "3::nat"] by (simp_all add: MAX_QUEUE_SIZE_def)
  have e2: "wf_queue (enqueue (enqueue zero_queue (Some (3::nat))) (Some 4))"
    "contents (enqueue (enqueue zero_queue (Some (3::nat))) (Some 4)) = [3, 4]"
    using queue_refines_fifo [OF e(1), of 4] e(2) by (simp_all add: MAX_QUEUE_SIZE_def)
  show ?thesis using queue_refines_fifo [OF e2(1), of 0] e2(2) by simp
qed

text \<open>
  Purgequeue removes the first occurrence of the given process and returns it; when
  the process is not queued it returns NULL and the queue is unchanged.
\<close>
lemma purgequeue_removes_first:
  assumes "wf_queue q"
  shows "wf_queue (snd (purgequeue q (Some p))) \<and>
    contents (snd (purgequeue q (Some p))) = remove1 p (contents q) \<and>
    fst (purgequeue q (Some p)) = (if p \<in> set (contents q) then Some p else None) \<and>
    (p \<notin> set (contents q) \<longrightarrow> snd (purgequeue q (Some p)) = q)"
  using assms purgequeue_present [of q p] purgequeue_absent [of q p]
  by (cases "p \<in> set (contents q)") (auto simp: remove1_idem)

lemma purgequeue_removes_first_witness:
  "contents (snd (purgequeue (foldl (\<lambda>q p. enqueue q (Some p)) zero_queue [5, 6, 7, 6::nat]) (Some 6)))
     = [5, 7, 6]"
proof -
  have "wf_queue (foldl (\<lambda>q p. enqueue q (Some p)) zero_queue [5, 6, 7, 6::nat])"
    "contents (foldl (\<lambda>q p. enqueue q (Some p)) zero_queue [5, 6, 7, 6::nat]) = [5, 6, 7, 6]"
    using fifo.enq_many [OF wf_zero_queue, of "[5, 6, 7, 6::nat]"]
    by (simp_all add: MAX_QUEUE_SIZE_def)
  with purgequeue_removes_first [of "foldl (\<lambda>q p. enqueue q (Some p)) zero_queue [5, 6, 7, 6::nat]" 6]
  show ?thesis by simp
qed

text \<open>
  A burst of enqueues keeps the first \<open>MAX_QUEUE_SIZE\<close> = 50 processes in order and
  silently drops every later one.
\<close>
lemma queue_overflow_drops:
  "contents (foldl (\<lambda>q p. enqueue q (Some p)) zero_queue ps) = take 50 ps"
  using fifo.enq_many [OF wf_zero_queue, of ps] by (simp add: MAX_QUEUE_SIZE_def)

end
