(* ===== verification/Sched.thy ===== *)
theory Sched
  imports Process Queue
begin

text \<open>
  The scheduler (\<open>include/sched.h\<close>, \<open>src/sched.c\<close>). \<open>MLQ_SCHED\<close> is defined, so the program
  runs the multi-level queue: \<open>MAX_PRIO\<close> = 140 levels, each with a budget of
  \<open>MAX_PRIO - level\<close> consecutive dispatches. The static variables of the file and the
  function-level statics \<open>currentPrio\<close> and \<open>used_slot\<close> are the fields of \<open>sched_t\<close>. Each
  routine runs under \<open>queue_lock\<close>, so it is one atomic step of the model. The routines of
  the \<open>#else\<close> branch (no multi-level queue) carry the suffix \<open>_nomlq\<close>.
\<close>

section \<open>State and operations\<close>

definition MAX_PRIO :: nat where
  "MAX_PRIO = 140"

record sched_t =
  ready_queue :: "pref queue_t"
  run_queue :: "pref queue_t"
  running_list :: "pref queue_t"
  mlq_ready_queue :: "pref queue_t list"
  slot :: "nat list"
  currentPrio :: nat
  used_slot :: nat

text \<open>\<open>int queue_empty(void)\<close>: -1 when some level holds a process.\<close>

definition queue_empty :: "sched_t \<Rightarrow> int" where
  "queue_empty s =
     (if \<exists>q \<in> set (mlq_ready_queue s). \<not> empty q then - 1
      else if empty (ready_queue s) \<and> empty (run_queue s) then 1 else 0)"

text \<open>\<open>void init_scheduler(void)\<close>: only the sizes are reset, the pointer arrays keep their contents.\<close>

definition init_scheduler :: "sched_t \<Rightarrow> sched_t" where
  "init_scheduler s =
     s\<lparr>mlq_ready_queue := map (\<lambda>q. q\<lparr>qsize := 0\<rparr>) (mlq_ready_queue s),
       slot := map (\<lambda>i. MAX_PRIO - i) [0..<MAX_PRIO],
       ready_queue := (ready_queue s)\<lparr>qsize := 0\<rparr>,
       run_queue := (run_queue s)\<lparr>qsize := 0\<rparr>,
       running_list := (running_list s)\<lparr>qsize := 0\<rparr>\<rparr>"

text \<open>The program's static data before \<open>init_scheduler\<close>: all bytes zero.\<close>

definition zero_sched :: sched_t where
  "zero_sched = \<lparr>ready_queue = zero_queue, run_queue = zero_queue, running_list = zero_queue,
     mlq_ready_queue = replicate MAX_PRIO zero_queue, slot = replicate MAX_PRIO 0,
     currentPrio = 0, used_slot = 0\<rparr>"

text \<open>The first loop of \<open>get_mlq_proc\<close>: the lowest level number that holds a process.\<close>

definition highest_prio :: "pref queue_t list \<Rightarrow> nat option" where
  "highest_prio qs = find (\<lambda>i. \<not> empty (qs ! i)) [0..<MAX_PRIO]"

text \<open>The second loop: the next such level after \<open>cur\<close>, cyclically, \<open>cur\<close> itself last.\<close>

definition next_prio :: "pref queue_t list \<Rightarrow> nat \<Rightarrow> nat option" where
  "next_prio qs cur =
     find (\<lambda>n. \<not> empty (qs ! n)) (map (\<lambda>i. (cur + i) mod MAX_PRIO) [1..<MAX_PRIO + 1])"

text \<open>\<open>proc = dequeue(&mlq_ready_queue[i])\<close>\<close>

definition dequeue_level :: "sched_t \<Rightarrow> nat \<Rightarrow> pref option \<times> sched_t" where
  "dequeue_level s i =
     (let (proc, q) = dequeue (mlq_ready_queue s ! i)
      in (proc, s\<lparr>mlq_ready_queue := (mlq_ready_queue s)[i := q]\<rparr>))"

text \<open>\<open>struct pcb_t *get_mlq_proc(void)\<close>\<close>

definition get_mlq_proc :: "sched_t \<Rightarrow> pref option \<times> sched_t" where
  "get_mlq_proc s =
     (case highest_prio (mlq_ready_queue s) of
        None \<Rightarrow> (None, s)
      | Some highestPrio \<Rightarrow>
          let s1 = (if empty (mlq_ready_queue s ! currentPrio s) \<or> highestPrio < currentPrio s
                    then s\<lparr>currentPrio := highestPrio, used_slot := 0\<rparr> else s)
          in if used_slot s1 < slot s1 ! currentPrio s1 \<and>
                \<not> empty (mlq_ready_queue s1 ! currentPrio s1)
             then let (proc, s2) = dequeue_level s1 (currentPrio s1)
                  in (proc, s2\<lparr>used_slot := Suc (used_slot s2)\<rparr>)
             else case next_prio (mlq_ready_queue s1) (currentPrio s1) of
                    Some nextPrio \<Rightarrow>
                      let (proc, s2) = dequeue_level (s1\<lparr>currentPrio := nextPrio\<rparr>) nextPrio
                      in (proc, s2\<lparr>used_slot := 1\<rparr>)
                  | None \<Rightarrow> (None, s1\<lparr>used_slot := 0\<rparr>))"

text \<open>\<open>void put_mlq_proc(struct pcb_t *proc)\<close> and \<open>void add_mlq_proc(struct pcb_t *proc)\<close>\<close>

definition put_mlq_proc :: "pcb_heap \<Rightarrow> pref \<Rightarrow> sched_t \<Rightarrow> sched_t option" where
  "put_mlq_proc h proc s =
     do { p \<leftarrow> h proc;
          q \<leftarrow> rd (mlq_ready_queue s) (unat (prio p));
          Some (s\<lparr>mlq_ready_queue :=
                    (mlq_ready_queue s)[unat (prio p) := enqueue q (Some proc)]\<rparr>) }"

definition add_mlq_proc :: "pcb_heap \<Rightarrow> pref \<Rightarrow> sched_t \<Rightarrow> sched_t option" where
  "add_mlq_proc h proc s =
     do { p \<leftarrow> h proc;
          q \<leftarrow> rd (mlq_ready_queue s) (unat (prio p));
          Some (s\<lparr>mlq_ready_queue :=
                    (mlq_ready_queue s)[unat (prio p) := enqueue q (Some proc)]\<rparr>) }"

definition get_proc :: "sched_t \<Rightarrow> pref option \<times> sched_t" where
  "get_proc s = get_mlq_proc s"

text \<open>The first of the two critical sections of \<open>put_proc\<close> and \<open>add_proc\<close>; the second one is
  \<open>put_mlq_proc\<close> or \<open>add_mlq_proc\<close>, and between them the lock is free.\<close>

definition list_running :: "pref \<Rightarrow> sched_t \<Rightarrow> sched_t" where
  "list_running proc s = s\<lparr>running_list := enqueue (running_list s) (Some proc)\<rparr>"

definition put_proc :: "pcb_heap \<Rightarrow> pref \<Rightarrow> sched_t \<Rightarrow> sched_t option" where
  "put_proc h proc s = put_mlq_proc h proc (list_running proc s)"

definition add_proc :: "pcb_heap \<Rightarrow> pref \<Rightarrow> sched_t \<Rightarrow> sched_t option" where
  "add_proc h proc s = add_mlq_proc h proc (list_running proc s)"

text \<open>The \<open>#else\<close> branch: a single ready queue.\<close>

definition get_proc_nomlq :: "sched_t \<Rightarrow> pref option \<times> sched_t" where
  "get_proc_nomlq s =
     (if \<not> empty (ready_queue s)
      then let (proc, q) = dequeue (ready_queue s) in (proc, s\<lparr>ready_queue := q\<rparr>)
      else (None, s))"

definition put_proc_nomlq :: "pref \<Rightarrow> sched_t \<Rightarrow> sched_t" where
  "put_proc_nomlq proc s =
     s\<lparr>running_list := enqueue (running_list s) (Some proc),
       run_queue := enqueue (run_queue s) (Some proc)\<rparr>"

definition add_proc_nomlq :: "pref \<Rightarrow> sched_t \<Rightarrow> sched_t" where
  "add_proc_nomlq proc s =
     s\<lparr>running_list := enqueue (running_list s) (Some proc),
       ready_queue := enqueue (ready_queue s) (Some proc)\<rparr>"

section \<open>Well-formedness and the abstract view\<close>

text \<open>\<open>level s i\<close> is the list of processes that wait at level \<open>i\<close>.\<close>

definition level :: "sched_t \<Rightarrow> nat \<Rightarrow> pref list" where
  "level s i = contents (mlq_ready_queue s ! i)"

definition wf_sched :: "sched_t \<Rightarrow> bool" where
  "wf_sched s \<longleftrightarrow>
     wf_queue (ready_queue s) \<and> wf_queue (run_queue s) \<and> wf_queue (running_list s) \<and>
     length (mlq_ready_queue s) = MAX_PRIO \<and> (\<forall>q \<in> set (mlq_ready_queue s). wf_queue q) \<and>
     slot s = map (\<lambda>i. MAX_PRIO - i) [0..<MAX_PRIO] \<and>
     currentPrio s < MAX_PRIO \<and> used_slot s \<le> MAX_PRIO - currentPrio s"

lemma wf_sched_init: "wf_sched (init_scheduler zero_sched)"
  by (auto simp: wf_sched_def init_scheduler_def zero_sched_def wf_queue_def zero_queue_def MAX_PRIO_def)

lemma wf_level_queue: "wf_sched s \<Longrightarrow> i < MAX_PRIO \<Longrightarrow> wf_queue (mlq_ready_queue s ! i)"
  by (simp add: wf_sched_def)

lemma slot_nth: "wf_sched s \<Longrightarrow> i < MAX_PRIO \<Longrightarrow> slot s ! i = MAX_PRIO - i"
  by (simp add: wf_sched_def)

lemma empty_level: "wf_sched s \<Longrightarrow> i < MAX_PRIO \<Longrightarrow> empty (mlq_ready_queue s ! i) \<longleftrightarrow> level s i = []"
  by (simp add: level_def empty_iff_contents wf_level_queue)

text \<open>The first loop finds the least non-empty level.\<close>

lemma highest_prio_Some:
  assumes "wf_sched s"
  shows "highest_prio (mlq_ready_queue s) = Some h \<longleftrightarrow>
    h < MAX_PRIO \<and> level s h \<noteq> [] \<and> (\<forall>j<h. level s j = [])"
  using assms
  by (auto simp: highest_prio_def find_Some_iff empty_level intro: exI [of _ h] elim: less_trans)

lemma highest_prio_None:
  assumes "wf_sched s"
  shows "highest_prio (mlq_ready_queue s) = None \<longleftrightarrow> (\<forall>i<MAX_PRIO. level s i = [])"
  using assms by (auto simp: highest_prio_def find_None_iff empty_level)

text \<open>The second loop finds the first non-empty level after \<open>cur\<close> in cyclic order.\<close>

lemma next_prio_Some:
  assumes "wf_sched s" "next_prio (mlq_ready_queue s) cur = Some n"
  obtains i where "1 \<le> i" "i \<le> MAX_PRIO" "n = (cur + i) mod MAX_PRIO" "level s n \<noteq> []"
    "\<And>k. 1 \<le> k \<Longrightarrow> k < i \<Longrightarrow> level s ((cur + k) mod MAX_PRIO) = []"
proof -
  have pos: "0 < MAX_PRIO" by (simp add: MAX_PRIO_def)
  from assms(2) obtain j where j: "j < MAX_PRIO" "n = (cur + (1 + j)) mod MAX_PRIO"
    "\<not> empty (mlq_ready_queue s ! n)"
    and f: "\<And>k. k < j \<Longrightarrow> empty (mlq_ready_queue s ! ((cur + (1 + k)) mod MAX_PRIO))"
    by (auto simp: next_prio_def find_Some_iff simp del: upt_Suc)
  show thesis
  proof (rule that [of "1 + j"])
    show "level s n \<noteq> []" using j pos by (simp add: empty_level [OF assms(1), symmetric])
    show "level s ((cur + k) mod MAX_PRIO) = []" if "1 \<le> k" "k < 1 + j" for k
      using f [of "k - 1"] that pos by (simp add: empty_level [OF assms(1), symmetric])
  qed (use j in auto)
qed

lemma next_prio_None:
  assumes "wf_sched s" "next_prio (mlq_ready_queue s) cur = None" "i < MAX_PRIO" "cur < MAX_PRIO"
  shows "level s i = []"
proof -
  have all: "empty (mlq_ready_queue s ! ((cur + k) mod MAX_PRIO))" if "1 \<le> k" "k \<le> MAX_PRIO" for k
    using assms(2) that by (auto simp: next_prio_def find_None_iff simp del: upt_Suc)
  have "i = (cur + (if cur < i then i - cur else i + MAX_PRIO - cur)) mod MAX_PRIO"
    using assms(3,4) by simp
  moreover have "1 \<le> (if cur < i then i - cur else i + MAX_PRIO - cur)"
    "(if cur < i then i - cur else i + MAX_PRIO - cur) \<le> MAX_PRIO"
    using assms(3,4) by auto
  ultimately have "empty (mlq_ready_queue s ! i)" using all by metis
  then show ?thesis using assms(1,3) by (simp add: empty_level)
qed

section \<open>What one dispatch does\<close>

text \<open>The budget already used by the highest non-empty level: none when another level was current.\<close>

definition used_budget :: "sched_t \<Rightarrow> nat \<Rightarrow> nat" where
  "used_budget s h = (if currentPrio s = h then used_slot s else 0)"

definition serve :: "sched_t \<Rightarrow> nat \<Rightarrow> nat \<Rightarrow> pref option \<times> sched_t" where
  "serve s i u =
     (fst (dequeue (mlq_ready_queue s ! i)),
      s\<lparr>mlq_ready_queue := (mlq_ready_queue s)[i := snd (dequeue (mlq_ready_queue s ! i))],
        currentPrio := i, used_slot := u\<rparr>)"

lemma get_mlq_none:
  "wf_sched s \<Longrightarrow> highest_prio (mlq_ready_queue s) = None \<Longrightarrow> get_mlq_proc s = (None, s)"
  by (simp add: get_mlq_proc_def)

lemma current_is_highest:
  assumes "wf_sched s" "highest_prio (mlq_ready_queue s) = Some h"
  shows "(empty (mlq_ready_queue s ! currentPrio s) \<or> h < currentPrio s) \<longleftrightarrow> currentPrio s \<noteq> h"
proof -
  from assms have h: "h < MAX_PRIO" "level s h \<noteq> []" "\<And>j. j < h \<Longrightarrow> level s j = []"
    by (simp_all add: highest_prio_Some)
  have "currentPrio s < MAX_PRIO" using assms(1) by (simp add: wf_sched_def)
  with h assms(1) show ?thesis
    by (cases "currentPrio s" h rule: linorder_cases) (auto simp: empty_level)
qed

lemma get_mlq_budget:
  assumes "wf_sched s" "highest_prio (mlq_ready_queue s) = Some h" "used_budget s h < MAX_PRIO - h"
  shows "get_mlq_proc s = serve s h (Suc (used_budget s h))"
proof -
  from assms have h: "h < MAX_PRIO" "level s h \<noteq> []"
    by (simp_all add: highest_prio_Some)
  then have "\<not> empty (mlq_ready_queue s ! h)" using assms(1) by (simp add: empty_level)
  with assms h current_is_highest [OF assms(1,2)] show ?thesis
    by (cases "currentPrio s = h")
      (simp_all add: get_mlq_proc_def used_budget_def slot_nth dequeue_level_def serve_def
        Let_def case_prod_beta)
qed

lemma get_mlq_rotate:
  assumes "wf_sched s" "highest_prio (mlq_ready_queue s) = Some h" "\<not> used_budget s h < MAX_PRIO - h"
    and "next_prio (mlq_ready_queue s) h = Some n"
  shows "get_mlq_proc s = serve s n 1"
proof -
  from assms have h: "h < MAX_PRIO" by (simp_all add: highest_prio_Some)
  from assms(3) h have "currentPrio s = h" by (auto simp: used_budget_def split: if_splits)
  with assms h current_is_highest [OF assms(1,2)] show ?thesis
    by (simp add: get_mlq_proc_def used_budget_def slot_nth dequeue_level_def serve_def
        Let_def case_prod_beta)
qed

text \<open>Every call falls under one of the three cases.\<close>

lemma get_mlq_cases [consumes 1, case_names none budget turn]:
  assumes "wf_sched s"
  obtains (none) "\<forall>i<MAX_PRIO. level s i = []" "get_mlq_proc s = (None, s)"
  | (budget) h where "h < MAX_PRIO" "level s h \<noteq> []" "\<forall>j<h. level s j = []"
      "used_budget s h < MAX_PRIO - h" "get_mlq_proc s = serve s h (Suc (used_budget s h))"
  | (turn) h n where "h < MAX_PRIO" "level s h \<noteq> []" "\<forall>j<h. level s j = []"
      "\<not> used_budget s h < MAX_PRIO - h" "next_prio (mlq_ready_queue s) h = Some n"
      "n < MAX_PRIO" "level s n \<noteq> []" "get_mlq_proc s = serve s n 1"
proof (cases "highest_prio (mlq_ready_queue s)")
  case None
  with assms none show thesis by (simp add: highest_prio_None get_mlq_none)
next
  case (Some h)
  with assms have h: "h < MAX_PRIO" "level s h \<noteq> []" "\<forall>j<h. level s j = []"
    by (simp_all add: highest_prio_Some)
  show thesis
  proof (cases "used_budget s h < MAX_PRIO - h")
    case True
    with assms Some h budget show thesis by (simp add: get_mlq_budget)
  next
    case False
    from next_prio_None [OF assms _ h(1) h(1)] h(2) obtain n
      where n: "next_prio (mlq_ready_queue s) h = Some n" by fastforce
    then have "n < MAX_PRIO" "level s n \<noteq> []"
      using next_prio_Some [OF assms n] by (metis MAX_PRIO_def mod_less_divisor zero_less_numeral)+
    with turn [OF h False n] get_mlq_rotate [OF assms Some False n] show thesis by simp
  qed
qed

lemma wf_serve: "wf_sched s \<Longrightarrow> i < MAX_PRIO \<Longrightarrow> u \<le> MAX_PRIO - i \<Longrightarrow> wf_sched (snd (serve s i u))"
  by (auto simp: wf_sched_def serve_def dest!: subsetD [OF set_update_subset_insert])

lemma serve_result:
  assumes "wf_sched s" "i < MAX_PRIO" "level s i \<noteq> []"
  shows "fst (serve s i u) = Some (hd (level s i))"
    and "level (snd (serve s i u)) j = (if j = i then tl (level s i) else level s j)"
  using assms wf_level_queue [OF assms(1,2)]
  by (auto simp: serve_def level_def dequeue_nonempty nth_list_update wf_sched_def)

section \<open>Putting a process back\<close>

lemma put_mlq_proc_Some:
  "put_mlq_proc h p s = Some s' \<longleftrightarrow>
     (\<exists>b. h p = Some b \<and> unat (prio b) < length (mlq_ready_queue s) \<and>
        s' = s\<lparr>mlq_ready_queue := (mlq_ready_queue s)
               [unat (prio b) := enqueue (mlq_ready_queue s ! unat (prio b)) (Some p)]\<rparr>)"
  by (auto simp: put_mlq_proc_def rd_def bind_eq_Some_conv split: if_splits)

lemma add_is_put_mlq: "add_mlq_proc = put_mlq_proc"
  by (simp add: fun_eq_iff add_mlq_proc_def put_mlq_proc_def)

lemma add_is_put: "add_proc = put_proc"
  by (simp add: fun_eq_iff add_proc_def put_proc_def add_is_put_mlq)

lemma put_proc_Some:
  assumes "wf_sched s" "h p = Some b" "unat (prio b) < MAX_PRIO"
  obtains s' where "put_proc h p s = Some s'" "wf_sched s'"
    "currentPrio s' = currentPrio s" "used_slot s' = used_slot s"
    "\<And>j. level s' j = (if j = unat (prio b) \<and> length (level s j) < MAX_QUEUE_SIZE
                       then level s j @ [p] else level s j)"
    "contents (running_list s') = contents (enqueue (running_list s) (Some p))"
proof -
  let ?i = "unat (prio b)"
  let ?s = "s\<lparr>running_list := enqueue (running_list s) (Some p),
      mlq_ready_queue := (mlq_ready_queue s)[?i := enqueue (mlq_ready_queue s ! ?i) (Some p)]\<rparr>"
  have eq: "put_proc h p s = Some ?s"
    using assms by (auto simp: put_proc_def list_running_def put_mlq_proc_Some wf_sched_def)
  moreover have "wf_sched ?s"
    using assms(1,3) by (auto simp: wf_sched_def dest!: subsetD [OF set_update_subset_insert])
  ultimately show thesis
    using assms(1,3) wf_level_queue [OF assms(1,3)]
    by (intro that [OF eq]) (auto simp: level_def nth_list_update contents_enqueue wf_sched_def)
qed

section \<open>The time shares of the two highest levels\<close>

text \<open>
  One time slice of the CPU loop, seen from the scheduler: a process is dispatched and,
  when its slice is over, put back. \<open>slices\<close> lists the levels that are served.
\<close>

definition slice :: "pcb_heap \<Rightarrow> sched_t \<Rightarrow> (nat \<times> sched_t) option" where
  "slice h s =
     (case get_proc s of
        (None, _) \<Rightarrow> None
      | (Some p, s1) \<Rightarrow> map_option (\<lambda>s2. (currentPrio s1, s2)) (put_proc h p s1))"

primrec slices :: "pcb_heap \<Rightarrow> nat \<Rightarrow> sched_t \<Rightarrow> nat list option" where
  "slices h 0 s = Some []"
| "slices h (Suc n) s = do { (i, s') \<leftarrow> slice h s; is \<leftarrow> slices h n s'; Some (i # is) }"

text \<open>Every process waits at the level of its own priority.\<close>

definition prios_ok :: "pcb_heap \<Rightarrow> sched_t \<Rightarrow> bool" where
  "prios_ok h s \<longleftrightarrow> (\<forall>i<MAX_PRIO. \<forall>p \<in> set (level s i). \<exists>b. h p = Some b \<and> unat (prio b) = i)"

lemma level_bound: "wf_sched s \<Longrightarrow> i < MAX_PRIO \<Longrightarrow> length (level s i) \<le> MAX_QUEUE_SIZE"
  using wf_level_queue [of s i] by (simp add: level_def length_contents) (simp add: wf_queue_def)

lemma slice_serves:
  assumes "wf_sched s" "prios_ok h s" "i < MAX_PRIO" "level s i \<noteq> []" "u \<le> MAX_PRIO - i"
    and "get_mlq_proc s = serve s i u"
  obtains s' where "slice h s = Some (i, s')" "wf_sched s'" "prios_ok h s'"
    "currentPrio s' = i" "used_slot s' = u"
    "\<And>j. level s' j = (if j = i then rotate1 (level s i) else level s j)"
proof -
  let ?s1 = "snd (serve s i u)" and ?p = "hd (level s i)"
  from assms obtain b where b: "h ?p = Some b" "unat (prio b) = i"
    unfolding prios_ok_def by (meson list.set_sel(1))
  from put_proc_Some [of ?s1 h ?p b, OF wf_serve [OF assms(1,3,5)] b(1)] b(2) assms(3)
  obtain s' where s': "put_proc h ?p ?s1 = Some s'" "wf_sched s'"
    "currentPrio s' = currentPrio ?s1" "used_slot s' = used_slot ?s1"
    and lv: "\<And>j. level s' j = (if j = i \<and> length (level ?s1 j) < MAX_QUEUE_SIZE
                       then level ?s1 j @ [?p] else level ?s1 j)"
    by metis
  have "length (tl (level s i)) < MAX_QUEUE_SIZE"
    using level_bound [OF assms(1,3)] assms(4) by (cases "level s i") auto
  then have lv': "level s' j = (if j = i then rotate1 (level s i) else level s j)" for j
    using lv [of j] serve_result(2) [OF assms(1,3,4), of u] assms(4) by (simp add: rotate1_hd_tl)
  have "get_mlq_proc s = (Some ?p, ?s1)" "currentPrio ?s1 = i"
    using serve_result(1) [OF assms(1,3,4), of u] assms(6) by (simp_all add: prod_eq_iff serve_def)
  with s'(1) have "slice h s = Some (i, s')" by (simp add: slice_def get_proc_def)
  moreover have "prios_ok h s'" using assms(2) lv' by (auto simp: prios_ok_def)
  ultimately show thesis using that s' lv' by (simp add: serve_def)
qed

text \<open>
  The state before slice number \<open>k\<close> when levels \<open>a < b\<close> are the two highest non-empty
  ones: level \<open>a\<close> has used \<open>k mod (141 - a)\<close> of its 140 - a dispatches.
\<close>

definition share_inv :: "pcb_heap \<Rightarrow> nat \<Rightarrow> nat \<Rightarrow> nat \<Rightarrow> sched_t \<Rightarrow> bool" where
  "share_inv h a b k s \<longleftrightarrow> wf_sched s \<and> prios_ok h s \<and> level s a \<noteq> [] \<and> level s b \<noteq> [] \<and>
     (\<forall>j<b. j \<noteq> a \<longrightarrow> level s j = []) \<and> used_budget s a = k mod (MAX_PRIO - a + 1)"

lemma share_highest:
  "share_inv h a b k s \<Longrightarrow> a < b \<Longrightarrow> b < MAX_PRIO \<Longrightarrow> highest_prio (mlq_ready_queue s) = Some a"
  by (auto simp: share_inv_def highest_prio_Some)

lemma share_next:
  assumes "share_inv h a b k s" "a < b" "b < MAX_PRIO"
  shows "next_prio (mlq_ready_queue s) a = Some b"
proof -
  have wf: "wf_sched s" and la: "level s a \<noteq> []" and lb: "level s b \<noteq> []"
    and gap: "\<And>j. j < b \<Longrightarrow> j \<noteq> a \<Longrightarrow> level s j = []"
    using assms(1) by (auto simp: share_inv_def)
  from next_prio_None [OF wf, of a a] la assms(2,3) obtain n
    where n: "next_prio (mlq_ready_queue s) a = Some n" by fastforce
  from next_prio_Some [OF wf n] obtain i where i: "1 \<le> i" "i \<le> MAX_PRIO"
    "n = (a + i) mod MAX_PRIO" "level s n \<noteq> []"
    and f: "\<And>k. 1 \<le> k \<Longrightarrow> k < i \<Longrightarrow> level s ((a + k) mod MAX_PRIO) = []" by blast
  have "\<not> b - a < i" using f [of "b - a"] lb assms(2,3) by (auto simp: Suc_le_eq)
  then have "n = a + i" "n \<le> b" using i assms(2,3) by auto
  with gap [of n] i assms(2) have "n = b" by (cases "n < b") auto
  with n show ?thesis by simp
qed

lemma share_step:
  assumes inv: "share_inv h a b k s" and ab: "a < b" "b < MAX_PRIO"
  obtains s' where "slice h s = Some (if k mod (MAX_PRIO - a + 1) = MAX_PRIO - a then b else a, s')"
    "share_inv h a b (Suc k) s'"
proof -
  let ?m = "MAX_PRIO - a"
  have wf: "wf_sched s" and po: "prios_ok h s" and la: "level s a \<noteq> []" and lb: "level s b \<noteq> []"
    and gap: "\<forall>j<b. j \<noteq> a \<longrightarrow> level s j = []" and u: "used_budget s a = k mod (?m + 1)"
    using inv by (auto simp: share_inv_def)
  note hp = share_highest [OF inv ab]
  show thesis
  proof (cases "k mod (?m + 1) = ?m")
    case False
    then have less: "k mod (?m + 1) < ?m"
      using mod_less_divisor [of "?m + 1" k] by linarith
    then have g: "get_mlq_proc s = serve s a (Suc (used_budget s a))"
      by (intro get_mlq_budget [OF wf hp]) (simp add: u)
    from slice_serves [OF wf po _ la _ g] less u ab obtain s' where s': "slice h s = Some (a, s')"
      "wf_sched s'" "prios_ok h s'" "currentPrio s' = a" "used_slot s' = Suc (used_budget s a)"
      "\<And>j. level s' j = (if j = a then rotate1 (level s a) else level s j)" by auto
    have "Suc (k mod (?m + 1)) = Suc k mod (?m + 1)" using less by (simp add: mod_Suc)
    with s' la lb gap ab u have "share_inv h a b (Suc k) s'"
      by (simp add: share_inv_def used_budget_def)
    with s'(1) False that show thesis by simp
  next
    case True
    then have g: "get_mlq_proc s = serve s b 1"
      by (intro get_mlq_rotate [OF wf hp _ share_next [OF inv ab]]) (simp add: u)
    have "1 \<le> MAX_PRIO - b" using ab by simp
    from slice_serves [OF wf po ab(2) lb this g] obtain s' where s': "slice h s = Some (b, s')"
      "wf_sched s'" "prios_ok h s'" "currentPrio s' = b"
      "\<And>j. level s' j = (if j = b then rotate1 (level s b) else level s j)" by blast
    have "Suc k mod (?m + 1) = 0" using True by (simp add: mod_Suc)
    with s' la lb gap ab have "share_inv h a b (Suc k) s'"
      by (simp add: share_inv_def used_budget_def)
    with s'(1) True that show thesis by simp
  qed
qed

lemma share_slices:
  "share_inv h a b k s \<Longrightarrow> a < b \<Longrightarrow> b < MAX_PRIO \<Longrightarrow>
    slices h n s = Some (map (\<lambda>i. if i mod (MAX_PRIO - a + 1) = MAX_PRIO - a then b else a) [k..<k + n])"
proof (induction n arbitrary: k s)
  case 0
  then show ?case by simp
next
  case (Suc n)
  from share_step [OF Suc.prems] obtain s'
    where "slice h s = Some (if k mod (MAX_PRIO - a + 1) = MAX_PRIO - a then b else a, s')"
      and "share_inv h a b (Suc k) s'" by blast
  with Suc.IH [OF this(2) Suc.prems(2,3)] show ?case
    by (simp add: upt_conv_Cons del: upt_Suc)
qed

section \<open>Processes that are waiting\<close>

text \<open>A concrete state for the witnesses: process 0 waits at level 138 and process 1 at level 139.\<close>

definition demo_pcb :: "u32 \<Rightarrow> u32 \<Rightarrow> pcb_t" where
  "demo_pcb i pr = \<lparr>pid = i, priority = 0, path = [], code = \<lparr>ctext = [], csize = 0\<rparr>,
     regs = replicate 10 0, pc = 0, prio = pr, page_table = \<lparr>prows = [], psize = 0\<rparr>, bp = 0\<rparr>"

definition demo_heap :: pcb_heap where
  "demo_heap = [0 \<mapsto> demo_pcb 1 138, 1 \<mapsto> demo_pcb 2 139]"

definition demo_sched :: sched_t where
  "demo_sched = (init_scheduler zero_sched)
     \<lparr>mlq_ready_queue := (mlq_ready_queue (init_scheduler zero_sched))
        [138 := enqueue zero_queue (Some 0), 139 := enqueue zero_queue (Some 1)]\<rparr>"

lemma wf_demo_sched: "wf_sched demo_sched"
  using wf_sched_init
  by (auto simp: demo_sched_def wf_sched_def dest!: subsetD [OF set_update_subset_insert])

lemma level_init: "i < MAX_PRIO \<Longrightarrow> level (init_scheduler zero_sched) i = []"
  by (simp add: level_def init_scheduler_def zero_sched_def contents_def)

lemma level_demo_sched:
  "i < MAX_PRIO \<Longrightarrow> level demo_sched i = (if i = 138 then [0] else if i = 139 then [1] else [])"
  using wf_sched_init level_init [of i]
  by (auto simp: demo_sched_def level_def nth_list_update wf_sched_def MAX_PRIO_def
      contents_enqueue MAX_QUEUE_SIZE_def)

lemma demo_dispatch:
  "get_proc demo_sched = (Some 0, snd (serve demo_sched 138 1))"
  "currentPrio (snd (serve demo_sched 138 1)) = 138"
proof -
  have hp: "highest_prio (mlq_ready_queue demo_sched) = Some 138"
    by (simp add: highest_prio_Some [OF wf_demo_sched] level_demo_sched MAX_PRIO_def)
  have "used_budget demo_sched 138 = 0"
    by (simp add: used_budget_def demo_sched_def init_scheduler_def zero_sched_def)
  then have "get_proc demo_sched = serve demo_sched 138 1"
    using get_mlq_budget [OF wf_demo_sched hp] by (simp add: get_proc_def MAX_PRIO_def)
  moreover have "fst (serve demo_sched 138 1) = Some 0"
    using serve_result(1) [OF wf_demo_sched, of 138 1] by (simp add: level_demo_sched MAX_PRIO_def)
  ultimately show "get_proc demo_sched = (Some 0, snd (serve demo_sched 138 1))"
    by (metis prod.collapse)
qed (simp add: serve_def)

section \<open>Properties\<close>

text \<open>
  Get_proc neither loses nor invents a process: it returns NULL exactly when all
  levels are empty (and then changes nothing), and otherwise removes the oldest process
  of one level, which becomes the current level, and leaves all other levels as they
  are; the scheduler's invariant (budgets, level bounds, queues) is kept.
\<close>
lemma get_proc_serves_head:
  assumes "wf_sched s" "get_proc s = (r, s')"
  shows "wf_sched s' \<and>
    (case r of
       None \<Rightarrow> s' = s \<and> (\<forall>i<MAX_PRIO. level s i = [])
     | Some p \<Rightarrow> currentPrio s' < MAX_PRIO \<and>
         level s (currentPrio s') = p # level s' (currentPrio s') \<and>
         (\<forall>j. j \<noteq> currentPrio s' \<longrightarrow> level s' j = level s j))"
proof -
  have served: ?thesis if "i < MAX_PRIO" "level s i \<noteq> []" "u \<le> MAX_PRIO - i" "(r, s') = serve s i u" for i u
  proof -
    have "r = Some (hd (level s i))" "s' = snd (serve s i u)"
      using that serve_result(1) [OF assms(1) that(1,2), of u] by (metis fst_conv snd_conv)+
    moreover have "currentPrio (snd (serve s i u)) = i" by (simp add: serve_def)
    ultimately show ?thesis
      using that serve_result(2) [OF assms(1) that(1,2), of u] wf_serve [OF assms(1) that(1,3)] by simp
  qed
  show ?thesis
    using assms(1)
  proof (cases rule: get_mlq_cases)
    case none
    with assms show ?thesis by (simp add: get_proc_def)
  next
    case (budget h)
    with assms(2) served [of h "Suc (used_budget s h)"] show ?thesis by (simp add: get_proc_def)
  next
    case (turn h n)
    with assms(2) served [of n 1] show ?thesis by (simp add: get_proc_def)
  qed
qed

lemma get_proc_serves_head_witness:
  "\<exists>s'. get_proc demo_sched = (Some 0, s') \<and> level s' 138 = [] \<and> level s' 139 = [1]"
  using get_proc_serves_head [OF wf_demo_sched demo_dispatch(1)] demo_dispatch
  by (simp add: level_demo_sched MAX_PRIO_def)

text \<open>
  C35: only the two highest non-empty levels are ever served: when get_proc takes a
  process from a level, at most one level above it holds a process. A process at a third
  non-empty level therefore waits as long as two levels above it stay non-empty,
  whatever its budget (its slot) says.
\<close>
theorem get_proc_two_highest_levels:
  assumes "wf_sched s" "get_proc s = (Some p, s')"
  shows "card {j. j < currentPrio s' \<and> level s j \<noteq> []} \<le> 1"
  using assms(1)
proof (cases rule: get_mlq_cases)
  case none
  with assms show ?thesis by (simp add: get_proc_def)
next
  case (budget h)
  with assms(2) have "currentPrio s' = h" by (auto simp: get_proc_def serve_def)
  with budget have "{j. j < currentPrio s' \<and> level s j \<noteq> []} = {}" by auto
  then show ?thesis by (simp only: card.empty)
next
  case (turn h n)
  with assms(2) have c: "currentPrio s' = n" by (auto simp: get_proc_def serve_def)
  from next_prio_Some [OF assms(1) turn(5)] obtain i where i: "1 \<le> i" "n = (h + i) mod MAX_PRIO"
    and f: "\<And>k. 1 \<le> k \<Longrightarrow> k < i \<Longrightarrow> level s ((h + k) mod MAX_PRIO) = []" by blast
  have "level s j = []" if "h < j" "j < n" for j
  proof -
    have "n \<le> h + i" using i(2) by simp
    with that turn(6) f [of "j - h"] show ?thesis by simp
  qed
  with turn(3) c have "{j. j < currentPrio s' \<and> level s j \<noteq> []} \<subseteq> {h}"
    by (auto simp: not_less_iff_gr_or_eq) (metis linorder_neqE_nat)
  then show ?thesis using card_mono [of "{h}"] by fastforce
qed

theorem get_proc_two_highest_levels_witness:
  "card {j. j < 138 \<and> level demo_sched j \<noteq> []} \<le> 1"
  using get_proc_two_highest_levels [OF wf_demo_sched demo_dispatch(1)] demo_dispatch(2) by simp

text \<open>
  C1: the time shares: while level a and, next after it, level b are the two highest
  non-empty levels and every dispatched process is put back when its slice ends, level a
  gets its 140 - a dispatches, then level b gets exactly one, and this repeats for ever.
\<close>
theorem mlq_time_shares:
  assumes "wf_sched s" "prios_ok h s" "a < b" "b < MAX_PRIO" "level s a \<noteq> []" "level s b \<noteq> []"
    and "\<forall>j<b. j \<noteq> a \<longrightarrow> level s j = []" and "currentPrio s \<noteq> a \<or> used_slot s = 0"
  shows "slices h n s =
    Some (map (\<lambda>k. if k mod (MAX_PRIO - a + 1) = MAX_PRIO - a then b else a) [0..<n])"
proof -
  have "share_inv h a b 0 s" using assms by (auto simp: share_inv_def used_budget_def)
  from share_slices [OF this assms(3,4), of n] show ?thesis by simp
qed

theorem mlq_time_shares_witness:
  "slices demo_heap 7 demo_sched = Some [138, 138, 139, 138, 138, 139, 138]"
proof -
  have "prios_ok demo_heap demo_sched"
    by (auto simp: prios_ok_def level_demo_sched demo_heap_def demo_pcb_def)
  moreover have "\<forall>j<139. j \<noteq> 138 \<longrightarrow> level demo_sched j = []"
    by (simp add: level_demo_sched MAX_PRIO_def)
  moreover have "currentPrio demo_sched \<noteq> 138"
    by (simp add: demo_sched_def init_scheduler_def zero_sched_def)
  ultimately have "slices demo_heap 7 demo_sched =
      Some (map (\<lambda>k. if k mod (MAX_PRIO - 138 + 1) = MAX_PRIO - 138 then 139 else 138) [0..<7])"
    by (intro mlq_time_shares [OF wf_demo_sched]) (simp_all add: level_demo_sched MAX_PRIO_def)
  moreover have "[0..<7] = [0, 1, 2, 3, 4, 5, 6 :: nat]" by code_simp
  ultimately show ?thesis by (simp add: MAX_PRIO_def)
qed

text \<open>
  C34: put_proc appends the process to the level of its priority and to the running list;
  a level (or a running list) that already holds 50 processes drops it without any
  report. Its only undefined case is a priority outside the 140 levels, which nothing
  checks: the array of queues is then indexed out of bounds.
\<close>
theorem put_proc_outcomes:
  assumes "wf_sched s" "h p = Some b"
  shows "(put_proc h p s = None \<longleftrightarrow> MAX_PRIO \<le> unat (prio b)) \<and>
    (\<forall>s'. put_proc h p s = Some s' \<longrightarrow> wf_sched s' \<and>
       (\<forall>j<MAX_PRIO. level s' j =
          (if j = unat (prio b) then take MAX_QUEUE_SIZE (level s j @ [p]) else level s j)) \<and>
       contents (running_list s') = take MAX_QUEUE_SIZE (contents (running_list s) @ [p]))"
proof (cases "unat (prio b) < MAX_PRIO")
  case False
  then have "put_proc h p s = None"
    using assms by (auto simp: put_proc_def list_running_def put_mlq_proc_def rd_def wf_sched_def)
  with False show ?thesis by simp
next
  case True
  have rl: "wf_queue (running_list s)" using assms(1) by (simp add: wf_sched_def)
  then have bound: "length (contents (running_list s)) \<le> MAX_QUEUE_SIZE"
    by (rule fifo.items_bound)
  from put_proc_Some [of s h p b, OF assms True] obtain s' where s': "put_proc h p s = Some s'" "wf_sched s'"
    "\<And>j. level s' j = (if j = unat (prio b) \<and> length (level s j) < MAX_QUEUE_SIZE
                       then level s j @ [p] else level s j)"
    "contents (running_list s') = contents (enqueue (running_list s) (Some p))" by blast
  have "level s' j = (if j = unat (prio b) then take MAX_QUEUE_SIZE (level s j @ [p]) else level s j)"
    if "j < MAX_PRIO" for j
    using s'(3) [of j] take_snoc [OF level_bound [OF assms(1) that], of p] by (simp only: split: if_split) simp
  moreover have "contents (running_list s') = take MAX_QUEUE_SIZE (contents (running_list s) @ [p])"
    by (simp only: s'(4) contents_enqueue [OF rl] take_snoc [OF bound])
  ultimately show ?thesis using True s'(1,2) by simp
qed

theorem put_proc_outcomes_witness:
  "put_proc [0 \<mapsto> demo_pcb 1 140] 0 demo_sched = None"
  using put_proc_outcomes [OF wf_demo_sched, of "[0 \<mapsto> demo_pcb 1 140]" 0 "demo_pcb 1 140"]
  by (simp add: demo_pcb_def MAX_PRIO_def)

text \<open>Sequences of calls to the routines of the \<open>#else\<close> branch.\<close>

datatype nomlq_call = Get | Put pref | Add pref

primrec nomlq_calls :: "nomlq_call list \<Rightarrow> sched_t \<Rightarrow> pref list \<times> sched_t" where
  "nomlq_calls [] s = ([], s)"
| "nomlq_calls (c # cs) s =
     (case c of
        Get \<Rightarrow> (let (r, s1) = get_proc_nomlq s; (ps, s2) = nomlq_calls cs s1
                in ((case r of None \<Rightarrow> ps | Some p \<Rightarrow> p # ps), s2))
      | Put p \<Rightarrow> nomlq_calls cs (put_proc_nomlq p s)
      | Add p \<Rightarrow> nomlq_calls cs (add_proc_nomlq p s))"

fun added :: "nomlq_call list \<Rightarrow> pref list" where
  "added [] = []"
| "added (Add p # cs) = p # added cs"
| "added (_ # cs) = added cs"

text \<open>
  Without the multi-level queue, a preempted process never runs again: whatever is
  called, the processes that get_proc hands out, followed by those still in the ready
  queue, are the ones that were there plus the ones added with add_proc, in order. A
  process handed to put_proc goes to the run queue, which get_proc never reads.
\<close>
lemma nomlq_put_never_dispatched:
  assumes "wf_queue (ready_queue s)" "nomlq_calls cs s = (ps, s')"
    and "length (contents (ready_queue s)) + length (added cs) \<le> MAX_QUEUE_SIZE"
  shows "ps @ contents (ready_queue s') = contents (ready_queue s) @ added cs"
  using assms
proof (induction cs arbitrary: s ps)
  case Nil
  then show ?case by simp
next
  case (Cons c cs)
  show ?case
  proof (cases c)
    case Get
    then show ?thesis
      using Cons.prems Cons.IH [of "snd (get_proc_nomlq s)"]
      by (cases "contents (ready_queue s)")
        (auto simp: get_proc_nomlq_def empty_iff_contents dequeue_nonempty case_prod_beta
          split: prod.splits if_splits)
  next
    case (Put p)
    with Cons.prems Cons.IH [of "put_proc_nomlq p s"] show ?thesis by (simp add: put_proc_nomlq_def)
  next
    case (Add p)
    with Cons.prems Cons.IH [of "add_proc_nomlq p s"] show ?thesis
      by (simp add: add_proc_nomlq_def contents_enqueue)
  qed
qed

lemma nomlq_put_never_dispatched_witness:
  "fst (nomlq_calls [Add 3, Put 5, Get, Get] zero_sched) = [3]"
proof -
  obtain ps s' where c: "nomlq_calls [Add 3, Put 5, Get, Get] zero_sched = (ps, s')" by force
  have e: "empty (snd (dequeue (enqueue zero_queue (Some (3::nat)))))" "contents (enqueue zero_queue (Some (3::nat))) = [3]"
    by (simp_all add: empty_iff_contents contents_dequeue contents_enqueue MAX_QUEUE_SIZE_def)
  with c have "ready_queue s' = snd (dequeue (enqueue zero_queue (Some 3)))"
    by (auto simp: add_proc_nomlq_def put_proc_nomlq_def get_proc_nomlq_def zero_sched_def
        case_prod_beta empty_iff_contents dequeue_nonempty split: if_splits)
  with nomlq_put_never_dispatched [OF _ c] c e show ?thesis
    by (simp add: zero_sched_def MAX_QUEUE_SIZE_def contents_dequeue)
qed

end
