(* ===== verification/Syscall.thy ===== *)
theory Syscall
  imports Scanf Vm Sched
begin

text \<open>
  The system calls: the table \<open>src/syscall.tbl\<close> and the dispatcher \<open>src/syscall.c\<close> generated
  from it, the handlers \<open>src/sys_mem.c\<close>, \<open>src/sys_xxxhandler.c\<close> and
  \<open>src/sys_listsyscall.c\<close>, and the user-side wrapper \<open>src/libstd.c\<close>.

  Their state is the one static \<open>struct krnl_t\<close>: its memory part (\<open>krnl_t\<close>), the queues of
  the scheduler, among them \<open>running_list\<close> (never NULL once a process exists), the blocks
  of the processes and the text printed so far. Of \<open>struct sc_regs\<close> the code uses \<open>a1\<close> to
  \<open>a3\<close>. A critical section of the code is one step here: the handlers run to completion.
\<close>

section \<open>State\<close>

record sc_regs =
  a1 :: u64
  a2 :: u64
  a3 :: u64

text \<open>What the program prints, without the wording.\<close>

datatype event =
    Pid_not_found u32
  | Memop_code cint
  | Sys_entry string
  | Arg u64
  | First_parameter u64
  | Lib_done string
  | Directory "(u64 \<times> u64 \<times> u64 \<times> u64) list"
  | Mem_dump "(nat \<times> byte) list"
  | Dispatched int u32
  | Put_back int u32
  | Finished int u32
  | Cpu_stopped int
  | Loaded string u32 u64

record sys_t =
  krnl :: krnl_t
  sched :: sched_t
  procs :: pcb_heap
  out :: "event list"

definition emit :: "event list \<Rightarrow> sys_t \<Rightarrow> sys_t" where
  "emit es s = s\<lparr>out := out s @ es\<rparr>"

section \<open>Handlers\<close>

text \<open>The search in \<open>running_list\<close>: the loop takes each process out and puts it back until
  it has found one with the given pid or has seen \<open>list_size\<close> of them.\<close>

primrec find_loop :: "pcb_heap \<Rightarrow> u32 \<Rightarrow> nat \<Rightarrow> pref queue_t \<Rightarrow> (pref option \<times> pref queue_t) option" where
  "find_loop h pd 0 q = Some (None, q)"
| "find_loop h pd (Suc n) q =
     (case dequeue q of
        (None, q) \<Rightarrow> find_loop h pd n q
      | (Some proc, q) \<Rightarrow>
          do { b \<leftarrow> h proc;
               let q = enqueue q (Some proc);
               if pid b = pd then Some (Some proc, q) else find_loop h pd n q })"

definition find_caller :: "sys_t \<Rightarrow> u32 \<Rightarrow> (pref option \<times> sys_t) option" where
  "find_caller s pd =
     (let rl = running_list (sched s)
      in do { (caller, rl) \<leftarrow> find_loop (procs s) pd (qsize rl) rl;
              Some (caller, s\<lparr>sched := (sched s)\<lparr>running_list := rl\<rparr>\<rparr>) })"

definition SYSMEM_MAP_OP :: cint where "SYSMEM_MAP_OP = 1"
definition SYSMEM_INC_OP :: cint where "SYSMEM_INC_OP = 2"
definition SYSMEM_SWP_OP :: cint where "SYSMEM_SWP_OP = 3"
definition SYSMEM_IO_READ :: cint where "SYSMEM_IO_READ = 4"
definition SYSMEM_IO_WRITE :: cint where "SYSMEM_IO_WRITE = 5"

text \<open>\<open>int __sys_memmap(krnl, pid, regs)\<close>; \<open>value\<close> is the uninitialised local variable (and the
  one of \<open>__swap_cp_page\<close>). The return values of the operations are ignored.\<close>

definition sys_memmap :: "byte \<Rightarrow> sys_t \<Rightarrow> u32 \<Rightarrow> sc_regs \<Rightarrow> (int \<times> sc_regs \<times> sys_t) option" where
  "sys_memmap val s pd r =
     do { (caller, s) \<leftarrow> find_caller s pd;
          if caller = None then Some (- 1, r, emit [Pid_not_found pd] s)
          else
            let memop = u64_to_int (a1 r); k = krnl s in
            if memop = SYSMEM_MAP_OP then
              do { (_, k) \<leftarrow> vmap_pgd_memset k (a2 r) (u64_to_int (a3 r)); Some (0, r, s\<lparr>krnl := k\<rparr>) }
            else if memop = SYSMEM_INC_OP then
              do { (_, k) \<leftarrow> inc_vma_limit k (u64_to_int (a2 r)) (a3 r); Some (0, r, s\<lparr>krnl := k\<rparr>) }
            else if memop = SYSMEM_SWP_OP then
              do { (_, k) \<leftarrow> mm_swap_page val k (a2 r) (a3 r); Some (0, r, s\<lparr>krnl := k\<rparr>) }
            else if memop = SYSMEM_IO_READ then
              do { (_, val, m) \<leftarrow> MEMPHY_read (mram k) (a2 r) val;
                   Some (0, r\<lparr>a3 := byte_to_u64 val\<rparr>, s\<lparr>krnl := k\<lparr>mram := m\<rparr>\<rparr>) }
            else if memop = SYSMEM_IO_WRITE then
              do { (_, m) \<leftarrow> MEMPHY_write (mram k) (a2 r) (ucast (a3 r));
                   Some (0, r, s\<lparr>krnl := k\<lparr>mram := m\<rparr>\<rparr>) }
            else Some (0, r, emit [Memop_code memop] s) }"

definition sys_xxxhandler :: "sys_t \<Rightarrow> u32 \<Rightarrow> sc_regs \<Rightarrow> (int \<times> sc_regs \<times> sys_t) option" where
  "sys_xxxhandler s pd r =
     do { (caller, s) \<leftarrow> find_caller s pd;
          if caller = None then Some (- 1, r, s)
          else
            let opcode = u64_to_int (a1 r);
                es = (if opcode = 0 then [Arg (a2 r)]
                      else if opcode = 1 then [First_parameter (a1 r)]
                      else if opcode = 2 then [Arg (a2 r + a3 r)]
                      else if opcode = 3 then [Arg (a2 r * a3 r)]
                      else [])
            in Some (0, r, emit es s) }"

section \<open>The table and the dispatcher\<close>

datatype handler = H_listsyscall | H_memmap | H_xxxhandler

text \<open>The lines of \<open>src/syscall.tbl\<close> that begin with a number, sorted by it as
  \<open>src/syscalltbl.sh\<close> does, with the entry point each names.\<close>

definition syscall_tbl :: "(u32 \<times> string \<times> handler) list" where
  "syscall_tbl =
     [(0, ''sys_listsyscall'', H_listsyscall), (17, ''sys_memmap'', H_memmap),
      (101, ''sys_memmap'', H_memmap), (440, ''sys_xxxhandler'', H_xxxhandler)]"

text \<open>\<open>sys_call_table[]\<close> holds the strings \<open>#nr "-" #sym\<close>.\<close>

definition sys_call_table :: "string list" where
  "sys_call_table = map (\<lambda>(nr, sym, _). digits (unat nr) @ ''-'' @ sym) syscall_tbl"

definition sys_listsyscall :: "sys_t \<Rightarrow> u32 \<Rightarrow> sc_regs \<Rightarrow> (int \<times> sc_regs \<times> sys_t) option" where
  "sys_listsyscall s pd r = Some (0, r, emit (map Sys_entry sys_call_table) s)"

definition sys_ni_syscall :: "sys_t \<Rightarrow> sc_regs \<Rightarrow> (int \<times> sc_regs \<times> sys_t) option" where
  "sys_ni_syscall s r = Some (0, r, s)"

text \<open>\<open>int syscall(krnl, pid, nr, regs)\<close>: one case for each line of the table.\<close>

definition syscall :: "byte \<Rightarrow> sys_t \<Rightarrow> u32 \<Rightarrow> u32 \<Rightarrow> sc_regs \<Rightarrow> (int \<times> sc_regs \<times> sys_t) option" where
  "syscall val s pd nr r =
     (case map_of syscall_tbl nr of
        None \<Rightarrow> sys_ni_syscall s r
      | Some (_, H_listsyscall) \<Rightarrow> sys_listsyscall s pd r
      | Some (_, H_memmap) \<Rightarrow> sys_memmap val s pd r
      | Some (_, H_xxxhandler) \<Rightarrow> sys_xxxhandler s pd r)"

text \<open>\<open>int libsyscall(caller, syscall_idx, a1, a2, a3)\<close>: the registers are a local variable.\<close>

definition libsyscall :: "byte \<Rightarrow> sys_t \<Rightarrow> pref \<Rightarrow> u32 \<Rightarrow> u64 \<Rightarrow> u64 \<Rightarrow> u64 \<Rightarrow> (int \<times> sys_t) option" where
  "libsyscall val s caller idx x1 x2 x3 =
     do { b \<leftarrow> procs s caller;
          (r, _, s) \<leftarrow> syscall val s (pid b) idx \<lparr>a1 = x1, a2 = x2, a3 = x3\<rparr>;
          Some (r, s) }"

section \<open>The search in the running list\<close>

text \<open>Where the first process with a pid stands.\<close>

definition has_pid :: "pcb_heap \<Rightarrow> u32 \<Rightarrow> pref \<Rightarrow> bool" where
  "has_pid h pd p \<longleftrightarrow> (case h p of None \<Rightarrow> False | Some b \<Rightarrow> pid b = pd)"

definition all_alive :: "pcb_heap \<Rightarrow> pref list \<Rightarrow> bool" where
  "all_alive h ps \<longleftrightarrow> (\<forall>p \<in> set ps. h p \<noteq> None)"

lemma find_loop_Suc:
  assumes "wf_queue q" "contents q = p # ps" "h p = Some b"
  shows "find_loop h pd (Suc n) q =
    (if pid b = pd then Some (Some p, fifo.rot q) else find_loop h pd n (fifo.rot q))"
  using fifo.deq_Cons [OF assms(1,2)] assms(3) by (auto simp: fifo.rot_def Let_def)

text \<open>When the processes up to the first one with the pid are alive, the loop finds that one
  and leaves the queue rotated past it.\<close>

lemma find_loop_found:
  assumes "wf_queue q" "contents q = xs @ p # ys" "length xs < n" "all_alive h xs"
    "\<forall>x\<in>set xs. \<not> has_pid h pd x" "has_pid h pd p"
  shows "find_loop h pd n q = Some (Some p, (fifo.rot ^^ Suc (length xs)) q)"
  using assms
proof (induction xs arbitrary: q n ys)
  case Nil
  then obtain n' where n: "n = Suc n'" by (cases n) auto
  from Nil obtain b where b: "h p = Some b" "pid b = pd"
    by (auto simp: has_pid_def split: option.splits)
  from find_loop_Suc [of q p ys h b pd n'] Nil.prems(1,2) b n show ?case by simp
next
  case (Cons x xs)
  from Cons.prems(3) obtain n' where n: "n = Suc n'" "length xs < n'" by (cases n) auto
  from Cons.prems obtain b where b: "h x = Some b" "pid b \<noteq> pd"
    by (auto simp: all_alive_def has_pid_def)
  have r: "wf_queue (fifo.rot q)" "contents (fifo.rot q) = xs @ p # (ys @ [x])"
    using fifo.rot_ok_items [OF Cons.prems(1)] Cons.prems(2) by simp_all
  from Cons.IH [OF r n(2)] Cons.prems(4-6) find_loop_Suc [of q x "xs @ p # ys" h b pd n']
    Cons.prems(1,2) b n(1)
  show ?case by (simp add: all_alive_def funpow_swap1)
qed

lemma find_loop_not_found:
  assumes "wf_queue q" "contents q = xs @ ys" "all_alive h xs" "\<forall>x\<in>set xs. \<not> has_pid h pd x"
  shows "find_loop h pd (length xs) q = Some (None, (fifo.rot ^^ length xs) q)"
  using assms
proof (induction xs arbitrary: q ys)
  case Nil
  then show ?case by simp
next
  case (Cons x xs)
  from Cons.prems obtain b where b: "h x = Some b" "pid b \<noteq> pd"
    by (auto simp: all_alive_def has_pid_def)
  have r: "wf_queue (fifo.rot q)" "contents (fifo.rot q) = xs @ (ys @ [x])"
    using fifo.rot_ok_items [OF Cons.prems(1)] Cons.prems(2) by simp_all
  from Cons.IH [OF r] Cons.prems(3,4) find_loop_Suc [of q x "xs @ ys" h b pd "length xs"]
    Cons.prems(1,2) b
  show ?case by (simp add: all_alive_def funpow_swap1)
qed

text \<open>A freed process in front of the one searched for: the loop reads freed memory.\<close>

lemma find_loop_stale:
  assumes "wf_queue q" "contents q = xs @ p # ys" "length xs < n" "all_alive h xs"
    "\<forall>x\<in>set xs. \<not> has_pid h pd x" "h p = None"
  shows "find_loop h pd n q = None"
  using assms
proof (induction xs arbitrary: q n ys)
  case Nil
  then obtain n' where n: "n = Suc n'" by (cases n) auto
  from fifo.deq_Cons [OF Nil.prems(1), of p ys] Nil.prems n show ?case by auto
next
  case (Cons x xs)
  from Cons.prems(3) obtain n' where n: "n = Suc n'" "length xs < n'" by (cases n) auto
  from Cons.prems obtain b where b: "h x = Some b" "pid b \<noteq> pd"
    by (auto simp: all_alive_def has_pid_def)
  have r: "wf_queue (fifo.rot q)" "contents (fifo.rot q) = xs @ p # (ys @ [x])"
    using fifo.rot_ok_items [OF Cons.prems(1)] Cons.prems(2) by simp_all
  from Cons.IH [OF r n(2)] Cons.prems(4-6) find_loop_Suc [of q x "xs @ p # ys" h b pd n']
    Cons.prems(1,2) b n(1)
  show ?case by (simp add: all_alive_def)
qed

text \<open>States whose running list is a well-formed queue of living processes; \<open>with_rl\<close> is a
  state with another running list.\<close>

definition rl_ok :: "sys_t \<Rightarrow> bool" where
  "rl_ok s \<longleftrightarrow> wf_queue (running_list (sched s)) \<and> all_alive (procs s) (contents (running_list (sched s)))"

definition with_rl :: "sys_t \<Rightarrow> pref queue_t \<Rightarrow> sys_t" where
  "with_rl s rl = s\<lparr>sched := (sched s)\<lparr>running_list := rl\<rparr>\<rparr>"

lemma with_rl_simps [simp]: "krnl (with_rl s rl) = krnl s" "procs (with_rl s rl) = procs s"
  "out (with_rl s rl) = out s" "running_list (sched (with_rl s rl)) = rl"
  "with_rl (with_rl s rl') rl = with_rl s rl"
  by (simp_all add: with_rl_def)

lemma find_caller_rl:
  "find_caller s pd = map_option (\<lambda>(c, rl). (c, with_rl s rl))
     (find_loop (procs s) pd (qsize (running_list (sched s))) (running_list (sched s)))"
  by (simp add: find_caller_def with_rl_def map_conv_bind_option case_prod_unfold comp_def Let_def)

lemma find_caller_found:
  assumes "wf_queue (running_list (sched s))" "contents (running_list (sched s)) = xs @ p # ys"
    "all_alive (procs s) xs" "\<forall>x\<in>set xs. \<not> has_pid (procs s) pd x" "has_pid (procs s) pd p"
  obtains rl where "find_caller s pd = Some (Some p, with_rl s rl)" "wf_queue rl" "contents rl = ys @ xs @ [p]"
proof -
  let ?rl = "running_list (sched s)"
  have "length xs < qsize ?rl" using length_contents [OF assms(1)] assms(2) by simp
  from find_loop_found [OF assms(1,2) this assms(3-5)]
  have f: "find_caller s pd = Some (Some p, with_rl s ((fifo.rot ^^ Suc (length xs)) ?rl))"
    by (simp add: find_caller_rl)
  have "rotate (Suc (length xs)) (contents ?rl) = ys @ xs @ [p]"
    using rotate_append [of "xs @ [p]" ys] assms(2) by simp
  with f that fifo.rot_n_ok_items [OF assms(1), of "Suc (length xs)"] show thesis by simp
qed

lemma find_caller_absent:
  assumes "rl_ok s" "\<forall>x\<in>set (contents (running_list (sched s))). \<not> has_pid (procs s) pd x"
  obtains rl where "find_caller s pd = Some (None, with_rl s rl)" "wf_queue rl"
    "contents rl = contents (running_list (sched s))"
proof -
  let ?rl = "running_list (sched s)"
  have wf: "wf_queue ?rl" and al: "all_alive (procs s) (contents ?rl)"
    using assms(1) by (simp_all add: rl_ok_def)
  from find_loop_not_found [OF wf _ al assms(2), of "[]"] length_contents [OF wf]
  have "find_caller s pd = Some (None, with_rl s ((fifo.rot ^^ qsize ?rl) ?rl))"
    by (simp add: find_caller_rl)
  with that fifo.rot_n_ok_items [OF wf, of "qsize ?rl"] length_contents [OF wf] show thesis by simp
qed

text \<open>In either case the running list keeps its processes.\<close>

lemma find_caller_cases:
  assumes "rl_ok s"
  obtains c rl where "find_caller s pd = Some (c, with_rl s rl)" "rl_ok (with_rl s rl)"
    "mset (contents rl) = mset (contents (running_list (sched s)))"
    "c = None \<longleftrightarrow> (\<forall>x\<in>set (contents (running_list (sched s))). \<not> has_pid (procs s) pd x)"
proof -
  let ?c = "contents (running_list (sched s))"
  have wf: "wf_queue (running_list (sched s))" and al: "all_alive (procs s) ?c"
    using assms by (simp_all add: rl_ok_def)
  show thesis
  proof (cases "\<exists>x\<in>set ?c. has_pid (procs s) pd x")
    case True
    then obtain xs p ys where c: "?c = xs @ p # ys" "has_pid (procs s) pd p"
      "\<forall>x\<in>set xs. \<not> has_pid (procs s) pd x"
      by (metis split_list_first_prop)
    have "all_alive (procs s) xs" using al c(1) by (simp add: all_alive_def)
    from find_caller_found [OF wf c(1) this c(3,2)] obtain rl
      where rl: "find_caller s pd = Some (Some p, with_rl s rl)" "wf_queue rl" "contents rl = ys @ xs @ [p]"
      by blast
    have "rl_ok (with_rl s rl)" using rl al c(1) by (auto simp: rl_ok_def all_alive_def)
    moreover have "mset (contents rl) = mset ?c" using rl(3) c(1) by simp
    ultimately show thesis using that [OF rl(1)] True by blast
  next
    case False
    then have no: "\<forall>x\<in>set ?c. \<not> has_pid (procs s) pd x" by blast
    from find_caller_absent [OF assms no] obtain rl
      where rl: "find_caller s pd = Some (None, with_rl s rl)" "wf_queue rl" "contents rl = ?c" by blast
    have "rl_ok (with_rl s rl)" using rl al by (simp add: rl_ok_def)
    with that [OF rl(1)] rl(3) no show thesis by simp
  qed
qed

section \<open>A concrete state\<close>

definition demo_rl :: "pref queue_t" where
  "demo_rl = enqueue (enqueue zero_queue (Some 0)) (Some 1)"

definition demo_sys :: sys_t where
  "demo_sys = \<lparr>krnl = fresh_krnl, sched = demo_sched\<lparr>running_list := demo_rl\<rparr>, procs = demo_heap, out = []\<rparr>"

lemma demo_rl_simps [simp]: "wf_queue demo_rl" "contents demo_rl = [0, 1]"
  by (simp_all add: demo_rl_def queue_simps MAX_QUEUE_SIZE_def)

lemma demo_sys_simps [simp]: "running_list (sched demo_sys) = demo_rl" "procs demo_sys = demo_heap"
  "krnl demo_sys = fresh_krnl" "out demo_sys = []"
  by (simp_all add: demo_sys_def)

lemma demo_has_pid [simp]: "has_pid demo_heap pd 0 \<longleftrightarrow> pd = 1" "has_pid demo_heap pd (Suc 0) \<longleftrightarrow> pd = 2"
  by (auto simp: has_pid_def demo_heap_def demo_pcb_def)

lemma demo_alive: "all_alive demo_heap [0]" "all_alive demo_heap []"
  by (simp_all add: all_alive_def demo_heap_def)

lemma rl_ok_demo: "rl_ok demo_sys"
  by (simp add: rl_ok_def all_alive_def demo_heap_def)

section \<open>Properties\<close>

text \<open>
  C28: the search of the system calls in the running list finds the first process with the pid
  and leaves the list rotated past it, so that no process is lost; when nobody has the pid
  the list ends as it was; and when a process that was freed (a finished one is never
  taken out of the list) stands before the one searched for, the search reads freed memory.
\<close>
theorem running_list_search:
  assumes "wf_queue (running_list (sched s))" "contents (running_list (sched s)) = xs @ p # ys"
    "all_alive (procs s) xs" "\<forall>x\<in>set xs. \<not> has_pid (procs s) pd x"
  shows "(has_pid (procs s) pd p \<longrightarrow> (\<exists>rl. find_caller s pd = Some (Some p, with_rl s rl) \<and>
      wf_queue rl \<and> contents rl = ys @ xs @ [p])) \<and>
    (procs s p = None \<longrightarrow> find_caller s pd = None) \<and>
    (\<not> has_pid (procs s) pd p \<and> procs s p \<noteq> None \<and> ys = [] \<longrightarrow>
      (\<exists>rl. find_caller s pd = Some (None, with_rl s rl) \<and> contents rl = xs @ [p]))"
proof (intro conjI impI)
  assume "has_pid (procs s) pd p"
  from find_caller_found [OF assms this] show "\<exists>rl. find_caller s pd = Some (Some p, with_rl s rl) \<and>
      wf_queue rl \<and> contents rl = ys @ xs @ [p]" by blast
next
  have "length xs < qsize (running_list (sched s))" using length_contents [OF assms(1)] assms(2) by simp
  from find_loop_stale [OF assms(1,2) this assms(3,4)] show "procs s p = None \<Longrightarrow> find_caller s pd = None"
    by (simp add: find_caller_rl)
next
  assume a: "\<not> has_pid (procs s) pd p \<and> procs s p \<noteq> None \<and> ys = []"
  then have "rl_ok s" using assms(1-3) by (simp add: rl_ok_def all_alive_def)
  from find_caller_absent [OF this, of pd] a assms(2,4)
  show "\<exists>rl. find_caller s pd = Some (None, with_rl s rl) \<and> contents rl = xs @ [p]" by auto
qed

theorem running_list_search_witness:
  "\<exists>rl. find_caller demo_sys 2 = Some (Some 1, with_rl demo_sys rl) \<and> contents rl = [0, 1]"
  using running_list_search [of demo_sys "[0]" 1 "[]" 2] demo_alive by auto

lemma sys_memmap_frame:
  assumes "find_caller s pd = Some (c, s1)" "sys_memmap v s pd r = Some (x, r', s')"
  shows "procs s' = procs s1 \<and> sched s' = sched s1"
  using assms by (auto simp: sys_memmap_def emit_def Let_def bind_eq_Some_conv split: if_splits)

lemma find_caller_procs: "find_caller s pd = Some (c, s') \<Longrightarrow> procs s' = procs s"
  by (auto simp: find_caller_def Let_def bind_eq_Some_conv)

lemma sys_xxxhandler_frame:
  assumes "find_caller s pd = Some (c, s1)" "sys_xxxhandler s pd r = Some (x, r', s')"
  shows "procs s' = procs s1 \<and> sched s' = sched s1 \<and> krnl s' = krnl s1"
  using assms by (auto simp: sys_xxxhandler_def emit_def Let_def split: if_splits)

lemma syscall_procs:
  assumes "syscall v s pd nr r = Some (x, r', s')"
  shows "procs s' = procs s"
proof -
  have 1: "procs s' = procs s" if "sys_memmap v s pd r = Some (x, r', s')"
  proof -
    from that obtain c s1 where "find_caller s pd = Some (c, s1)"
      by (auto simp: sys_memmap_def bind_eq_Some_conv)
    with sys_memmap_frame [OF this that] find_caller_procs show ?thesis by simp
  qed
  have 2: "procs s' = procs s" if "sys_xxxhandler s pd r = Some (x, r', s')"
  proof -
    from that obtain c s1 where "find_caller s pd = Some (c, s1)"
      by (auto simp: sys_xxxhandler_def bind_eq_Some_conv)
    with sys_xxxhandler_frame [OF this that] find_caller_procs show ?thesis by simp
  qed
  from 1 2 assms show ?thesis
    by (auto simp: syscall_def sys_ni_syscall_def sys_listsyscall_def emit_def
        split: option.splits handler.splits)
qed

lemma syscall_processes:
  assumes "rl_ok s" "syscall v s pd nr r = Some (x, r', s')"
  shows "procs s' = procs s \<and> rl_ok s' \<and> (\<exists>rl. sched s' = (sched s)\<lparr>running_list := rl\<rparr> \<and>
    mset (contents rl) = mset (contents (running_list (sched s))))"
proof -
  from find_caller_cases [OF assms(1), of pd] obtain c rl
    where rl: "find_caller s pd = Some (c, with_rl s rl)" "rl_ok (with_rl s rl)"
      "mset (contents rl) = mset (contents (running_list (sched s)))" by metis
  have "(procs s' = procs s \<and> sched s' = sched s) \<or> (procs s' = procs s \<and> sched s' = sched (with_rl s rl))"
    using assms(2) sys_memmap_frame [OF rl(1), of v r x r' s'] sys_xxxhandler_frame [OF rl(1), of r x r' s']
    by (auto simp: syscall_def sys_ni_syscall_def sys_listsyscall_def emit_def split: option.splits handler.splits)
  then show ?thesis
  proof
    assume "procs s' = procs s \<and> sched s' = sched s"
    with assms(1) show ?thesis by (auto simp: rl_ok_def intro!: exI [of _ "running_list (sched s)"])
  next
    assume "procs s' = procs s \<and> sched s' = sched (with_rl s rl)"
    with rl show ?thesis by (auto simp: rl_ok_def with_rl_def)
  qed
qed

text \<open>
  A system call never loses or adds a process: from a state whose running list is a
  well-formed queue of living processes, every call that returns leaves the processes, and
  the scheduler up to the order of the running list, as they were, and the running list
  holds the same processes, all alive.
\<close>
lemma syscall_keeps_processes:
  assumes "rl_ok s" "syscall v s pd nr r = Some (x, r', s')"
  shows "procs s' = procs s \<and> rl_ok s' \<and> (\<exists>rl. sched s' = (sched s)\<lparr>running_list := rl\<rparr> \<and>
    mset (contents rl) = mset (contents (running_list (sched s))))"
  using syscall_processes [OF assms] .

lemma syscall_keeps_processes_witness:
  "\<exists>r s'. syscall 0 demo_sys 1 440 \<lparr>a1 = 2, a2 = 3, a3 = 4\<rparr> = Some (0, r, s') \<and> out s' = [Arg 7] \<and>
     procs s' = demo_heap"
proof -
  from find_caller_found [of demo_sys "[]" 0 "[1]" 1] demo_alive obtain rl
    where "find_caller demo_sys 1 = Some (Some 0, with_rl demo_sys rl)" by auto
  then have e: "syscall 0 demo_sys 1 440 \<lparr>a1 = 2, a2 = 3, a3 = 4\<rparr> =
      Some (0, \<lparr>a1 = 2, a2 = 3, a3 = 4\<rparr>, emit [Arg 7] (with_rl demo_sys rl))"
    by (simp add: syscall_def syscall_tbl_def sys_xxxhandler_def u64_to_int_def)
  from syscall_keeps_processes [OF rl_ok_demo e] e show ?thesis by (auto simp: emit_def)
qed

text \<open>
  The two memory operations of system call 17 (and 101) agree: with a random-access RAM
  and a caller that is in the running list, a byte written at a physical address by one call
  is what the next call reads there, extended with its sign, and both calls return 0.
\<close>
lemma sysmem_io_round_trip:
  assumes "rl_ok s" "\<exists>p\<in>set (contents (running_list (sched s))). has_pid (procs s) pd p"
    and "random_access (mram (krnl s))" "unat a < length (storage (mram (krnl s)))" "nr = 17 \<or> nr = 101"
  shows "\<exists>r1 s1 s2. syscall v s pd nr \<lparr>a1 = 5, a2 = a, a3 = x\<rparr> = Some (0, r1, s1) \<and>
    syscall v s1 pd nr \<lparr>a1 = 4, a2 = a, a3 = y\<rparr> =
      Some (0, \<lparr>a1 = 4, a2 = a, a3 = byte_to_u64 (ucast x)\<rparr>, s2)"
proof -
  have tbl: "syscall v s pd nr r = sys_memmap v s pd r" for s r
    using assms(5) by (auto simp: syscall_def syscall_tbl_def)
  from find_caller_cases [OF assms(1), of pd] assms(2) obtain c rl
    where 1: "find_caller s pd = Some (Some c, with_rl s rl)" "rl_ok (with_rl s rl)"
      "set (contents rl) = set (contents (running_list (sched s)))"
    by (metis not_None_eq set_mset_mset)
  from ram.write_in [OF assms(3,4), of "ucast x"] obtain m
    where m: "MEMPHY_write (mram (krnl s)) a (ucast x) = Some (0, m)" "random_access m"
      "storage m = (storage (mram (krnl s)))[unat a := ucast x]" by blast
  let ?s1 = "(with_rl s rl)\<lparr>krnl := (krnl s)\<lparr>mram := m\<rparr>\<rparr>"
  have w: "syscall v s pd nr \<lparr>a1 = 5, a2 = a, a3 = x\<rparr> = Some (0, \<lparr>a1 = 5, a2 = a, a3 = x\<rparr>, ?s1)"
    unfolding tbl using 1(1) m(1)
    by (simp add: sys_memmap_def u64_to_int_def SYSMEM_MAP_OP_def SYSMEM_INC_OP_def SYSMEM_SWP_OP_def
        SYSMEM_IO_READ_def SYSMEM_IO_WRITE_def)
  have rl1: "running_list (sched ?s1) = rl" "procs ?s1 = procs s" by simp_all
  have "rl_ok ?s1" using 1(2) by (simp add: rl_ok_def)
  from find_caller_cases [OF this, of pd] 1(3) assms(2) obtain d rl'
    where 2: "find_caller ?s1 pd = Some (Some d, with_rl ?s1 rl')"
    unfolding rl1 by (metis not_None_eq)
  have "MEMPHY_read m a v = Some (0, ucast x, m)"
    using ram.read_in [OF m(2), of a v] m(3) assms(4) by simp
  with 2 have "syscall v ?s1 pd nr \<lparr>a1 = 4, a2 = a, a3 = y\<rparr> =
      Some (0, \<lparr>a1 = 4, a2 = a, a3 = byte_to_u64 (ucast x)\<rparr>, with_rl ?s1 rl')"
    unfolding tbl
    by (simp add: sys_memmap_def u64_to_int_def SYSMEM_MAP_OP_def SYSMEM_INC_OP_def SYSMEM_SWP_OP_def
        SYSMEM_IO_READ_def SYSMEM_IO_WRITE_def with_rl_def)
  with w show ?thesis by blast
qed

lemma sysmem_io_round_trip_witness:
  "\<exists>r1 s1 s2. syscall 0 demo_sys 2 17 \<lparr>a1 = 5, a2 = 1, a3 = 200\<rparr> = Some (0, r1, s1) \<and>
    syscall 0 s1 2 17 \<lparr>a1 = 4, a2 = 1, a3 = 0\<rparr> = Some (0, \<lparr>a1 = 4, a2 = 1, a3 = - 56\<rparr>, s2)"
proof -
  have "random_access (mram (krnl demo_sys))" "length (storage (mram (krnl demo_sys))) = 3"
    by (simp_all add: fresh_krnl_def demo_krnl_def demo_mem_def random_access_def)
  moreover have "byte_to_u64 (ucast (200 :: u64)) = - 56" by (simp add: byte_to_u64_def)
  ultimately show ?thesis using sysmem_io_round_trip [OF rl_ok_demo, of 2 1 17 0 200 0] by simp
qed

end
