(* ===== verification/Libmem.thy ===== *)
theory Libmem
  imports Syscall
begin

text \<open>
  The user-side memory library, \<open>src/libmem.c\<close>: regions of the symbol table and the free
  list (\<open>__alloc\<close>, \<open>__free\<close>), page access (\<open>pg_getpage\<close>, \<open>pg_getval\<close>, \<open>pg_setval\<close>,
  \<open>__read\<close>, \<open>__write\<close>) and the four entry points the CPU calls. The functions whose names
  begin with underscores in C are \<open>alloc_rg\<close>, \<open>free_rg\<close>, \<open>read_rg\<close> and \<open>write_rg\<close>. The
  \<open>mm\<close> argument of the page functions is always \<open>caller->krnl->mm\<close>. Each function that
  takes \<open>mmvm_lock\<close> holds it throughout, so it is one step. \<open>v\<close>, \<open>data\<close> and \<open>junk\<close> stand for
  uninitialised local variables.
\<close>

section \<open>Regions\<close>

definition PAGING_MAX_SYMTBL_SZ :: nat where
  "PAGING_MAX_SYMTBL_SZ = 30"

text \<open>The test \<open>rgid < 0 || rgid > PAGING_MAX_SYMTBL_SZ\<close>; it lets the index 30 pass.\<close>

definition get_symrg_byid :: "mm_struct \<Rightarrow> cint \<Rightarrow> nat option" where
  "get_symrg_byid m rgid =
     (if sint rgid < 0 \<or> int PAGING_MAX_SYMTBL_SZ < sint rgid then None else Some (nat (sint rgid)))"

definition enlist_vm_freerg_list :: "mm_struct \<Rightarrow> vm_rg_struct \<Rightarrow> (int \<times> mm_struct) option" where
  "enlist_vm_freerg_list m rg_elmt =
     (case mmap m of
        [] \<Rightarrow> None
      | a # as \<Rightarrow>
          if rg_end rg_elmt \<le> rg_start rg_elmt then Some (- 1, m)
          else Some (0, m\<lparr>mmap := a\<lparr>vm_freerg_list := rg_elmt # vm_freerg_list a\<rparr> # as\<rparr>))"

text \<open>The loop of \<open>get_free_vmrg_area\<close>: the first region with enough space; the region and
  the list that is left. Using up a region clones the next one into its node, and leaves an
  empty region when there is none.\<close>

primrec take_fit :: "vm_rg_struct list \<Rightarrow> u64 \<Rightarrow> (vm_rg_struct \<times> vm_rg_struct list) option" where
  "take_fit [] sz = None"
| "take_fit (rgit # rs) sz =
     (if rg_start rgit + sz \<le> rg_end rgit then
        Some (\<lparr>rg_start = rg_start rgit, rg_end = rg_start rgit + sz\<rparr>,
          if rg_start rgit + sz < rg_end rgit then rgit\<lparr>rg_start := rg_start rgit + sz\<rparr> # rs
          else case rs of
            nextrg # rest \<Rightarrow> nextrg # rest
          | [] \<Rightarrow> [rgit\<lparr>rg_start := rg_end rgit\<rparr>])
      else do { (newrg, rs) \<leftarrow> take_fit rs sz; Some (newrg, rgit # rs) })"

definition get_free_vmrg_area ::
  "krnl_t \<Rightarrow> cint \<Rightarrow> cint \<Rightarrow> vm_rg_struct \<Rightarrow> (int \<times> vm_rg_struct \<times> krnl_t) option" where
  "get_free_vmrg_area k vmaid sz newrg =
     do { (m, i, cur_vma) \<leftarrow> deref_vma k vmaid;
          if vm_freerg_list cur_vma = [] then Some (- 1, newrg, k)
          else
            let newrg = \<lparr>rg_start = - 1, rg_end = - 1\<rparr>;
                (newrg, k) =
                  (case take_fit (vm_freerg_list cur_vma) (int_to_u64 sz) of
                     None \<Rightarrow> (newrg, k)
                   | Some (newrg, rgs) \<Rightarrow> (newrg, set_area k m i (cur_vma\<lparr>vm_freerg_list := rgs\<rparr>)))
            in Some (if rg_start newrg = - 1 then - 1 else 0, newrg, k) }"

text \<open>\<open>caller->krnl->mm->symrgtbl[rgid] = \<dots>\<close>\<close>

definition set_symrg :: "krnl_t \<Rightarrow> cint \<Rightarrow> vm_rg_struct \<Rightarrow> krnl_t option" where
  "set_symrg k rgid rg =
     do { m \<leftarrow> mm k;
          tbl \<leftarrow> (if sint rgid < 0 then None else wr (symrgtbl m) (nat (sint rgid)) rg);
          Some (k\<lparr>mm := Some (m\<lparr>symrgtbl := tbl\<rparr>)\<rparr>) }"

text \<open>\<open>int __alloc(caller, vmaid, rgid, size, alloc_addr)\<close>. \<open>size\<close> is passed on as an \<open>int\<close>, the
  result of the system call is not looked at.\<close>

definition alloc_rg ::
  "byte \<Rightarrow> vm_rg_struct \<Rightarrow> sys_t \<Rightarrow> pref \<Rightarrow> cint \<Rightarrow> cint \<Rightarrow> u64 \<Rightarrow> (int \<times> u64 \<times> sys_t) option" where
  "alloc_rg v junk s caller vmaid rgid sz =
     do { (r, rgnode, k) \<leftarrow> get_free_vmrg_area (krnl s) vmaid (u64_to_int sz) junk;
          if r = 0 then
            do { k \<leftarrow> set_symrg k rgid rgnode; Some (0, rg_start rgnode, s\<lparr>krnl := k\<rparr>) }
          else
            do { (_, _, cur_vma) \<leftarrow> deref_vma k vmaid;
                 let old_sbrk = sbrk cur_vma;
                 let inc_sz = u64_to_int sz;
                 b \<leftarrow> procs s caller;
                 (_, _, s) \<leftarrow> syscall v (s\<lparr>krnl := k\<rparr>) (pid b) 17
                   \<lparr>a1 = int_to_u64 SYSMEM_INC_OP, a2 = int_to_u64 vmaid, a3 = int_to_u64 inc_sz\<rparr>;
                 k \<leftarrow> set_symrg (krnl s) rgid \<lparr>rg_start = old_sbrk, rg_end = old_sbrk + sz\<rparr>;
                 Some (0, old_sbrk, s\<lparr>krnl := k\<rparr>) } }"

definition free_rg :: "krnl_t \<Rightarrow> cint \<Rightarrow> cint \<Rightarrow> (int \<times> krnl_t) option" where
  "free_rg k vmaid rgid =
     (if sint rgid < 0 \<or> int PAGING_MAX_SYMTBL_SZ < sint rgid then Some (- 1, k)
      else
        do { m \<leftarrow> mm k;
             i \<leftarrow> get_symrg_byid m rgid;
             rgnode \<leftarrow> rd (symrgtbl m) i;
             if rg_start rgnode = 0 \<and> rg_end rgnode = 0 then Some (- 1, k)
             else
               do { tbl \<leftarrow> wr (symrgtbl m) i zero_rg;
                    (_, m) \<leftarrow> enlist_vm_freerg_list (m\<lparr>symrgtbl := tbl\<rparr>) rgnode;
                    Some (0, k\<lparr>mm := Some m\<rparr>) } })"

section \<open>Pages\<close>

text \<open>\<open>find_victim_page\<close>: the last node of the list, whose predecessor's link is cleared; with
  a single node there is no predecessor and NULL is dereferenced.\<close>

definition find_victim_page :: "mm_struct \<Rightarrow> u64 \<Rightarrow> (int \<times> u64 \<times> mm_struct) option" where
  "find_victim_page m retpgn =
     (case fifo_pgn m of
        [] \<Rightarrow> Some (- 1, retpgn, m)
      | [_] \<Rightarrow> None
      | _ # _ # _ \<Rightarrow> Some (0, last (fifo_pgn m), m\<lparr>fifo_pgn := butlast (fifo_pgn m)\<rparr>))"

definition pg_getpage :: "krnl_t \<Rightarrow> cint \<Rightarrow> cint \<Rightarrow> (int \<times> cint \<times> krnl_t) option" where
  "pg_getpage k pgn fpn =
     do { (pte, k) \<leftarrow> pte_get_entry k (int_to_u64 pgn);
          (fail, k) \<leftarrow>
            (if PAGING_PAGE_PRESENT pte then Some (False, k)
             else
               do { m \<leftarrow> mm k;
                    (r, _, m) \<leftarrow> find_victim_page m 0;
                    if r = - 1 then Some (True, k\<lparr>mm := Some m\<rparr>)
                    else
                      let (r, _, swp) = MEMPHY_get_freefp (active_mswp k) 0;
                          k = k\<lparr>mm := Some m, active_mswp := swp\<rparr>
                      in if r = - 1 then Some (True, k)
                         else Some (False, k\<lparr>mm := Some (m\<lparr>fifo_pgn :=
                           enlist_pgn_node (fifo_pgn m) (int_to_u64 pgn)\<rparr>)\<rparr>) });
          if fail then Some (- 1, fpn, k)
          else do { (pte, k) \<leftarrow> pte_get_entry k (int_to_u64 pgn); Some (0, PAGING_FPN pte, k) } }"

text \<open>The physical address \<open>(fpn << PAGING_ADDR_FPN_LOBIT) + off\<close>, an \<open>int\<close>.\<close>

definition phy_addr :: "cint \<Rightarrow> cint \<Rightarrow> u64" where
  "phy_addr fpn addr = int_to_u64 (push_bit PAGING_ADDR_FPN_LOBIT fpn + PAGING_OFFST addr)"

definition pg_getval :: "krnl_t \<Rightarrow> cint \<Rightarrow> byte \<Rightarrow> (int \<times> byte \<times> krnl_t) option" where
  "pg_getval k addr data =
     do { (r, fpn, k) \<leftarrow> pg_getpage k (PAGING_PGN addr) 0;
          if r \<noteq> 0 then Some (- 1, data, k)
          else do { (r, data, mp) \<leftarrow> MEMPHY_read (mram k) (phy_addr fpn addr) data;
                    Some (if r \<noteq> 0 then - 1 else 0, data, k\<lparr>mram := mp\<rparr>) } }"

definition pg_setval :: "krnl_t \<Rightarrow> cint \<Rightarrow> byte \<Rightarrow> (int \<times> krnl_t) option" where
  "pg_setval k addr val =
     do { (r, fpn, k) \<leftarrow> pg_getpage k (PAGING_PGN addr) 0;
          if r \<noteq> 0 then Some (- 1, k)
          else do { (r, mp) \<leftarrow> MEMPHY_write (mram k) (phy_addr fpn addr) val;
                    Some (if r \<noteq> 0 then - 1 else 0, k\<lparr>mram := mp\<rparr>) } }"

text \<open>\<open>__read\<close> and \<open>__write\<close>; the results of \<open>pg_getval\<close> and \<open>pg_setval\<close> are not looked at.\<close>

definition read_rg :: "krnl_t \<Rightarrow> cint \<Rightarrow> cint \<Rightarrow> u64 \<Rightarrow> byte \<Rightarrow> (int \<times> byte \<times> krnl_t) option" where
  "read_rg k vmaid rgid offset data =
     do { m \<leftarrow> mm k;
          case get_symrg_byid m rgid of
            None \<Rightarrow> Some (- 1, data, k)
          | Some i \<Rightarrow>
              do { currg \<leftarrow> rd (symrgtbl m) i;
                   if rg_start currg = 0 \<and> rg_end currg = 0 then Some (- 1, data, k)
                   else if rg_end currg \<le> rg_start currg + offset then Some (- 1, data, k)
                   else do { (_, data, k) \<leftarrow> pg_getval k (u64_to_int (rg_start currg + offset)) data;
                             Some (0, data, k) } } }"

definition write_rg :: "krnl_t \<Rightarrow> cint \<Rightarrow> cint \<Rightarrow> u64 \<Rightarrow> byte \<Rightarrow> (int \<times> krnl_t) option" where
  "write_rg k vmaid rgid offset val =
     do { m \<leftarrow> mm k;
          cur_vma \<leftarrow> get_vma_by_num m vmaid;
          case get_symrg_byid m rgid of
            None \<Rightarrow> Some (- 1, k)
          | Some i \<Rightarrow>
              if cur_vma = None then Some (- 1, k)
              else do { currg \<leftarrow> rd (symrgtbl m) i;
                        (_, k) \<leftarrow> pg_setval k (u64_to_int (rg_start currg + offset)) val;
                        Some (0, k) } }"

text \<open>\<open>free_pcb_memph\<close>: the loop down the page list. \<open>PAGING_PTE_SWP\<close> is the swap offset, not
  the swapped bit.\<close>

primrec free_loop :: "u64 list \<Rightarrow> krnl_t \<Rightarrow> krnl_t option" where
  "free_loop [] k = Some k"
| "free_loop (pgn # node) k =
     do { (pte, k) \<leftarrow> pte_get_entry k pgn;
          free_loop node
            (if PAGING_PAGE_PRESENT pte then
               if PAGING_PTE_SWP pte = 0
               then k\<lparr>mram := snd (MEMPHY_put_freefp (mram k) (ucast (PAGING_FPN pte)))\<rparr>
               else k\<lparr>active_mswp := snd (MEMPHY_put_freefp (active_mswp k) (ucast (PAGING_SWP pte)))\<rparr>
             else k) }"

definition free_pcb_memph :: "krnl_t \<Rightarrow> (int \<times> krnl_t) option" where
  "free_pcb_memph k =
     do { m \<leftarrow> mm k;
          k \<leftarrow> free_loop (fifo_pgn m) k;
          m \<leftarrow> mm k;
          Some (0, k\<lparr>mm := Some (m\<lparr>fifo_pgn := []\<rparr>)\<rparr>) }"

section \<open>The entry points\<close>

definition lib_print :: "string \<Rightarrow> sys_t \<Rightarrow> sys_t option" where
  "lib_print f s =
     do { (_, rows, k) \<leftarrow> print_pgtbl (krnl s) 0 (- 1);
          Some (emit [Lib_done f, Directory rows] (s\<lparr>krnl := k\<rparr>)) }"

definition liballoc :: "byte \<Rightarrow> vm_rg_struct \<Rightarrow> sys_t \<Rightarrow> pref \<Rightarrow> u64 \<Rightarrow> u32 \<Rightarrow> (int \<times> sys_t) option" where
  "liballoc v junk s proc sz reg_index =
     do { (val, _, s) \<leftarrow> alloc_rg v junk s proc 0 reg_index sz;
          if val = - 1 then Some (- 1, s)
          else do { s \<leftarrow> lib_print ''liballoc'' s; Some (val, s) } }"

definition libfree :: "sys_t \<Rightarrow> pref \<Rightarrow> u32 \<Rightarrow> (int \<times> sys_t) option" where
  "libfree s proc reg_index =
     do { (val, k) \<leftarrow> free_rg (krnl s) 0 reg_index;
          if val = - 1 then Some (- 1, s\<lparr>krnl := k\<rparr>)
          else do { s \<leftarrow> lib_print ''libfree'' (s\<lparr>krnl := k\<rparr>); Some (0, s) } }"

text \<open>\<open>libread\<close>: the second result is the new \<open>*destination\<close>.\<close>

definition libread :: "byte \<Rightarrow> sys_t \<Rightarrow> pref \<Rightarrow> u32 \<Rightarrow> u64 \<Rightarrow> (int \<times> u32 \<times> sys_t) option" where
  "libread data s proc source offset =
     do { (val, data, k) \<leftarrow> read_rg (krnl s) 0 source offset data;
          s \<leftarrow> lib_print ''libread'' (s\<lparr>krnl := k\<rparr>);
          Some (val, byte_to_u32 data, s) }"

definition libwrite :: "byte \<Rightarrow> sys_t \<Rightarrow> pref \<Rightarrow> byte \<Rightarrow> u32 \<Rightarrow> u64 \<Rightarrow> (int \<times> sys_t) option" where
  "libwrite v s proc data destination offset =
     do { (val, k) \<leftarrow> write_rg (krnl s) 0 destination offset data;
          if val = - 1 then Some (- 1, s\<lparr>krnl := k\<rparr>)
          else
            do { s \<leftarrow> lib_print ''libwrite'' (s\<lparr>krnl := k\<rparr>);
                 (_, cells, mp) \<leftarrow> MEMPHY_dump (mram (krnl s)) v;
                 Some (val, emit [Mem_dump cells] (s\<lparr>krnl := (krnl s)\<lparr>mram := mp\<rparr>\<rparr>)) } }"

section \<open>The free list\<close>

text \<open>The addresses of a region; a region is fit for a request when its bounds are in order and
  its start plus the size does not wrap.\<close>

definition cells :: "vm_rg_struct \<Rightarrow> nat list" where
  "cells rg = [unat (rg_start rg)..<unat (rg_end rg)]"

definition rg_ok :: "u64 \<Rightarrow> vm_rg_struct \<Rightarrow> bool" where
  "rg_ok sz rg \<longleftrightarrow> rg_start rg \<le> rg_end rg \<and> unat (rg_start rg) + unat sz < 2 ^ 64"

lemma unat_plus_u64: "unat (a :: u64) + unat b < 2 ^ 64 \<Longrightarrow> unat (a + b) = unat a + unat b"
  by (simp add: unat_word_ariths)

lemma cells_split:
  assumes "rg_ok sz rg" "rg_start rg + sz \<le> rg_end rg"
  shows "cells rg = cells \<lparr>rg_start = rg_start rg, rg_end = rg_start rg + sz\<rparr> @
    cells (rg\<lparr>rg_start := rg_start rg + sz\<rparr>)"
proof -
  have u: "unat (rg_start rg + sz) = unat (rg_start rg) + unat sz"
    using assms(1) by (intro unat_plus_u64) (simp add: rg_ok_def)
  then have "unat (rg_start rg) + unat sz \<le> unat (rg_end rg)"
    using assms(2) by (simp add: word_le_nat_alt)
  then show ?thesis unfolding cells_def
    using u upt_add_eq_append [of "unat (rg_start rg)" "unat (rg_start rg) + unat sz"
      "unat (rg_end rg) - (unat (rg_start rg) + unat sz)"] by simp
qed

lemma take_fit_conserves:
  "take_fit rgs sz = Some (newrg, rest) \<Longrightarrow> \<forall>rg\<in>set rgs. rg_ok sz rg \<Longrightarrow>
     mset (concat (map cells rgs)) = mset (cells newrg) + mset (concat (map cells rest)) \<and>
     (\<exists>rg\<in>set rgs. rg_start newrg = rg_start rg) \<and> rg_end newrg = rg_start newrg + sz \<and> rest \<noteq> []"
proof (induction rgs arbitrary: rest)
  case (Cons rg rs)
  show ?case
  proof (cases "rg_start rg + sz \<le> rg_end rg")
    case True
    with cells_split [of sz rg] Cons.prems(2) have c: "mset (cells rg) =
        mset (cells \<lparr>rg_start = rg_start rg, rg_end = rg_start rg + sz\<rparr>) +
        mset (cells (rg\<lparr>rg_start := rg_start rg + sz\<rparr>))" by simp
    show ?thesis
    proof (cases "rg_start rg + sz < rg_end rg")
      case less: True
      with True Cons.prems(1) have "newrg = \<lparr>rg_start = rg_start rg, rg_end = rg_start rg + sz\<rparr>"
        "rest = rg\<lparr>rg_start := rg_start rg + sz\<rparr> # rs" by auto
      with c show ?thesis by simp
    next
      case False
      with True have "rg_start rg + sz = rg_end rg" by simp
      with True Cons.prems(1) have n: "newrg = \<lparr>rg_start = rg_start rg, rg_end = rg_start rg + sz\<rparr>"
        and r: "rest = (if rs = [] then [rg\<lparr>rg_start := rg_end rg\<rparr>] else rs)"
        by (auto split: list.splits)
      have "cells (rg\<lparr>rg_start := rg_start rg + sz\<rparr>) = []"
        using \<open>rg_start rg + sz = rg_end rg\<close> by (simp add: cells_def)
      moreover have "cells (rg\<lparr>rg_start := rg_end rg\<rparr>) = []" by (simp add: cells_def)
      ultimately show ?thesis using c n r by simp
    qed
  next
    case False
    with Cons.prems(1) obtain rest' where "take_fit rs sz = Some (newrg, rest')" "rest = rg # rest'"
      by (auto simp: bind_eq_Some_conv)
    with Cons.IH [of rest'] Cons.prems(2) show ?thesis by auto
  qed
qed simp

lemma take_fit_None:
  "\<forall>rg\<in>set rgs. rg_ok sz rg \<Longrightarrow>
     take_fit rgs sz = None \<longleftrightarrow> (\<forall>rg\<in>set rgs. length (cells rg) < unat sz)"
proof (induction rgs)
  case (Cons rg rs)
  have "unat (rg_start rg) \<le> unat (rg_end rg)" "unat (rg_start rg + sz) = unat (rg_start rg) + unat sz"
    using Cons.prems unat_plus_u64 [of "rg_start rg" sz] by (simp_all add: rg_ok_def word_le_nat_alt)
  then have "rg_start rg + sz \<le> rg_end rg \<longleftrightarrow> \<not> length (cells rg) < unat sz"
    by (simp add: word_le_nat_alt cells_def not_less le_diff_conv2 add.commute)
  moreover have "take_fit (rg # rs) sz = None \<longleftrightarrow> \<not> rg_start rg + sz \<le> rg_end rg \<and> take_fit rs sz = None"
    by (cases "take_fit rs sz") auto
  moreover have "take_fit rs sz = None \<longleftrightarrow> (\<forall>rg\<in>set rs. length (cells rg) < unat sz)"
    using Cons by simp
  ultimately show ?case by simp
qed simp

lemma unat_int_to_u64:
  assumes "0 \<le> sint n"
  shows "unat (int_to_u64 n) = nat (sint n)"
proof -
  have b: "sint n < 2 ^ 64" by (rule less_trans [OF sint_less_31]) simp
  have "uint (int_to_u64 n) = take_bit LENGTH(64) (sint n)"
    unfolding int_to_u64_def scast_eq by (rule uint_word_of_int_eq)
  also have "\<dots> = sint n" using assms b by (intro take_bit_int_eq_self) simp_all
  finally show ?thesis using nat_uint_eq [of "int_to_u64 n"] by metis
qed

text \<open>
  C23: allocation from the free list neither loses nor invents memory: when the bounds of the
  free regions are in order and nothing wraps, get_free_vmrg_area either returns -1, which
  it does exactly when every free region is smaller than the request, and changes nothing,
  or it returns 0 and a region of the requested size cut out of the free list: the free
  addresses before are, each counted as often as it occurs, those of the new region and
  those of the new free list.
\<close>
theorem free_list_conserved:
  assumes "deref_vma k vmaid = Some (m, i, a)" "0 < sint sz"
    and "\<forall>rg\<in>set (vm_freerg_list a). rg_ok (int_to_u64 sz) rg"
  shows "\<exists>r newrg k'. get_free_vmrg_area k vmaid sz junk = Some (r, newrg, k') \<and>
    (r = - 1 \<and> k' = k \<and> (\<forall>rg\<in>set (vm_freerg_list a). length (cells rg) < nat (sint sz)) \<or>
     r = 0 \<and> length (cells newrg) = nat (sint sz) \<and>
     (\<exists>rgs. k' = set_area k m i (a\<lparr>vm_freerg_list := rgs\<rparr>) \<and>
       mset (concat (map cells (vm_freerg_list a))) =
         mset (cells newrg) + mset (concat (map cells rgs))))"
proof -
  let ?sz = "int_to_u64 sz" and ?fl = "vm_freerg_list a"
  have usz: "unat ?sz = nat (sint sz)" using assms(2) by (simp add: unat_int_to_u64)
  show ?thesis
  proof (cases "take_fit ?fl ?sz")
    case None
    with take_fit_None [OF assms(3)] usz assms(1) show ?thesis
      by (auto simp: get_free_vmrg_area_def)
  next
    case (Some p)
    then obtain newrg rgs where f: "take_fit ?fl ?sz = Some (newrg, rgs)" by (cases p) auto
    note c = take_fit_conserves [OF f assms(3)]
    then obtain rg where rg: "rg \<in> set ?fl" "rg_start newrg = rg_start rg" by blast
    have b: "unat (rg_start newrg) + unat ?sz < 2 ^ 64" using rg assms(3) by (simp add: rg_ok_def)
    with usz assms(2) have "rg_start newrg \<noteq> - 1"
      by (auto simp: unsigned_minus_1_eq_mask mask_eq_exp_minus_1)
    moreover have "?fl \<noteq> []" using f by auto
    moreover have "length (cells newrg) = nat (sint sz)"
      using c usz unat_plus_u64 [OF b] by (simp add: cells_def)
    ultimately show ?thesis using f c assms(1)
      by (auto simp: get_free_vmrg_area_def)
  qed
qed

lemma cells_zero: "cells zero_rg = []" and rg_ok_zero: "rg_ok sz zero_rg"
  using unsigned_less [of sz] by (simp_all add: cells_def rg_ok_def zero_rg_def)

theorem free_list_conserved_witness:
  "\<exists>r newrg k'. get_free_vmrg_area fresh_krnl 0 8 zero_rg = Some (r, newrg, k') \<and> r = - 1 \<and> k' = fresh_krnl"
  using free_list_conserved [OF deref_fresh, of 8 zero_rg]
    cells_zero rg_ok_zero [of "int_to_u64 8"]
  by (auto simp: fresh_vma_def)

section \<open>Allocating and freeing\<close>

text \<open>The register index a C \<open>int\<close> stands for, and the states with a full symbol table.\<close>

lemma set_symrg_eq:
  assumes "mm k = Some m" "0 \<le> sint rgid" "nat (sint rgid) < length (symrgtbl m)"
  shows "set_symrg k rgid rg =
    Some (k\<lparr>mm := Some (m\<lparr>symrgtbl := (symrgtbl m)[nat (sint rgid) := rg]\<rparr>)\<rparr>)"
  using assms by (simp add: set_symrg_def wr_def)

text \<open>The system call \<open>__alloc\<close> makes: whatever the search finds, only the end of the area may
  change.\<close>

lemma syscall_inc:
  "syscall v s pd 17 \<lparr>a1 = int_to_u64 SYSMEM_INC_OP, a2 = int_to_u64 vmaid, a3 = x\<rparr> =
     do { (caller, s) \<leftarrow> find_caller s pd;
          if caller = None then Some (- 1, \<lparr>a1 = 2, a2 = int_to_u64 vmaid, a3 = x\<rparr>, emit [Pid_not_found pd] s)
          else do { (_, k) \<leftarrow> inc_vma_limit (krnl s) vmaid x;
                    Some (0, \<lparr>a1 = 2, a2 = int_to_u64 vmaid, a3 = x\<rparr>, s\<lparr>krnl := k\<rparr>) } }"
proof -
  have "u64_to_int (int_to_u64 vmaid) = vmaid"
    unfolding u64_to_int_def int_to_u64_def by (rule bit_word_eqI) (auto simp: bit_simps)
  moreover have "int_to_u64 SYSMEM_INC_OP = 2" "u64_to_int 2 = SYSMEM_INC_OP"
    by (simp_all add: int_to_u64_def u64_to_int_def SYSMEM_INC_OP_def)
  ultimately show ?thesis
    by (simp add: syscall_def syscall_tbl_def sys_memmap_def SYSMEM_MAP_OP_def SYSMEM_INC_OP_def cong: if_cong)
qed

lemma syscall_inc_ok:
  assumes "rl_ok s" "deref_vma (krnl s) vmaid = Some (m, i, a)"
  obtains r s' e where "syscall v s pd 17
      \<lparr>a1 = int_to_u64 SYSMEM_INC_OP, a2 = int_to_u64 vmaid, a3 = x\<rparr> =
      Some (r, \<lparr>a1 = 2, a2 = int_to_u64 vmaid, a3 = x\<rparr>, s')"
    "rl_ok s'" "procs s' = procs s" "krnl s' = set_area (krnl s) m i (a\<lparr>vm_end := e\<rparr>)"
proof -
  note p = deref_vma_parts [OF assms(2)]
  have same: "set_area (krnl s) m i a = krnl s"
    using p by (cases "krnl s") (simp add: set_area_def)
  from find_caller_cases [OF assms(1), of pd] obtain c rl
    where rl: "find_caller s pd = Some (c, with_rl s rl)" "rl_ok (with_rl s rl)" by metis
  show thesis
  proof (cases "c = None \<or> sbrk a + x \<le> sbrk a")
    case True
    then show thesis
    proof
      assume "c = None"
      with rl show thesis
        by (intro that [of "- 1" "emit [Pid_not_found pd] (with_rl s rl)" "vm_end a"])
          (auto simp: syscall_inc rl_ok_def emit_def same)
    next
      assume "sbrk a + x \<le> sbrk a"
      with rl inc_vma_limit_eq [OF assms(2), of x] show thesis
        by (cases c) (auto simp: syscall_inc rl_ok_def emit_def same
            intro: that [of "- 1" "emit [Pid_not_found pd] (with_rl s rl)" "vm_end a"]
              that [of 0 "with_rl s rl" "vm_end a"])
    qed
  next
    case False
    with rl inc_vma_limit_eq [OF assms(2), of x] show thesis
      by (intro that [of 0 "(with_rl s rl)\<lparr>krnl := set_area (krnl s) m i (a\<lparr>vm_end := sbrk a + x\<rparr>)\<rparr>"
            "sbrk a + x"]) (auto simp: syscall_inc rl_ok_def set_area_def)
  qed
qed

definition nothing_fits :: "vm_area_struct \<Rightarrow> u64 \<Rightarrow> bool" where
  "nothing_fits a sz \<longleftrightarrow> take_fit (vm_freerg_list a) (int_to_u64 (u64_to_int sz)) = None"

lemma alloc_rg_grow:
  assumes "rl_ok s" "deref_vma (krnl s) vmaid = Some (m, i, a)" "procs s c \<noteq> None"
    and "0 \<le> sint rgid" "nat (sint rgid) < length (symrgtbl m)" "nothing_fits a sz"
  obtains s' e where "alloc_rg v junk s c vmaid rgid sz = Some (0, sbrk a, s')" "rl_ok s'"
    "procs s' = procs s" "krnl s' = (krnl s)\<lparr>mm := Some (m\<lparr>mmap := (mmap m)[i := a\<lparr>vm_end := e\<rparr>],
      symrgtbl := (symrgtbl m)[nat (sint rgid) := \<lparr>rg_start = sbrk a, rg_end = sbrk a + sz\<rparr>]\<rparr>)\<rparr>"
proof -
  have f: "\<exists>rg. get_free_vmrg_area (krnl s) vmaid (u64_to_int sz) junk = Some (- 1, rg, krnl s)"
    using assms(2,6) by (auto simp: get_free_vmrg_area_def nothing_fits_def)
  from assms(3) obtain b where b: "procs s c = Some b" by blast
  obtain r s1 e where s1: "syscall v s (pid b) 17 \<lparr>a1 = int_to_u64 SYSMEM_INC_OP,
      a2 = int_to_u64 vmaid, a3 = int_to_u64 (u64_to_int sz)\<rparr> =
      Some (r, \<lparr>a1 = 2, a2 = int_to_u64 vmaid, a3 = int_to_u64 (u64_to_int sz)\<rparr>, s1)"
    "rl_ok s1" "procs s1 = procs s" "krnl s1 = set_area (krnl s) m i (a\<lparr>vm_end := e\<rparr>)"
    by (rule syscall_inc_ok [OF assms(1,2)])
  let ?m = "m\<lparr>mmap := (mmap m)[i := a\<lparr>vm_end := e\<rparr>]\<rparr>"
  have "mm (krnl s1) = Some ?m" using s1(4) by (simp add: set_area_def)
  then have set: "set_symrg (krnl s1) rgid rg = Some ((krnl s1)\<lparr>mm := Some (?m\<lparr>symrgtbl :=
      (symrgtbl m)[nat (sint rgid) := rg]\<rparr>)\<rparr>)" for rg
    using set_symrg_eq [of "krnl s1" ?m rgid rg] assms(4,5) by simp
  let ?k = "(krnl s1)\<lparr>mm := Some (?m\<lparr>symrgtbl :=
      (symrgtbl m)[nat (sint rgid) := \<lparr>rg_start = sbrk a, rg_end = sbrk a + sz\<rparr>]\<rparr>)\<rparr>"
  have "alloc_rg v junk s c vmaid rgid sz = Some (0, sbrk a, s1\<lparr>krnl := ?k\<rparr>)"
    using f assms(2) b s1(1) set by (auto simp: alloc_rg_def Let_def)
  moreover have "rl_ok (s1\<lparr>krnl := ?k\<rparr>)" using s1(2) by (simp add: rl_ok_def)
  ultimately show thesis by (rule that) (simp_all add: s1(3,4) set_area_def)
qed

lemma deref_same_ids:
  assumes "deref_vma k vmaid = Some (m, i, a)" "mm k' = Some m'" "mmap m' = (mmap m)[i := a']" "vm_id a' = vm_id a"
  shows "deref_vma k' vmaid = Some (m', i, a')"
proof -
  note p = deref_vma_parts [OF assms(1)]
  have "map vm_id (mmap m') = map vm_id (mmap m)"
    using p assms(3,4) by (simp add: map_update list_update_same_conv)
  from vma_loop_ids [OF this] p assms(2,3) show ?thesis
    by (simp add: deref_vma_def get_vma_by_num_def rd_in)
qed

text \<open>
  C22: two allocations that the free list can not serve get the same address: the first grows
  the area and returns its break, but nothing moves the break, so the second one returns
  the same address, and the symbol table ends with two regions that both begin at the break.
  Whether the system call behind them succeeds makes no difference.
\<close>
theorem allocations_overlap:
  assumes "rl_ok s" "deref_vma (krnl s) vmaid = Some (m, i, a)" "procs s c \<noteq> None"
    and "0 \<le> sint r1" "nat (sint r1) < length (symrgtbl m)" "nothing_fits a sz1"
    and "0 \<le> sint r2" "nat (sint r2) < length (symrgtbl m)" "nothing_fits a sz2" "r1 \<noteq> r2"
  shows "\<exists>s1 s2 m2. alloc_rg v junk s c vmaid r1 sz1 = Some (0, sbrk a, s1) \<and>
    alloc_rg v junk s1 c vmaid r2 sz2 = Some (0, sbrk a, s2) \<and> mm (krnl s2) = Some m2 \<and>
    symrgtbl m2 ! nat (sint r1) = \<lparr>rg_start = sbrk a, rg_end = sbrk a + sz1\<rparr> \<and>
    symrgtbl m2 ! nat (sint r2) = \<lparr>rg_start = sbrk a, rg_end = sbrk a + sz2\<rparr>"
proof -
  obtain s1 e1 where s1: "alloc_rg v junk s c vmaid r1 sz1 = Some (0, sbrk a, s1)" "rl_ok s1" "procs s1 = procs s"
    "krnl s1 = (krnl s)\<lparr>mm := Some (m\<lparr>mmap := (mmap m)[i := a\<lparr>vm_end := e1\<rparr>],
      symrgtbl := (symrgtbl m)[nat (sint r1) := \<lparr>rg_start = sbrk a, rg_end = sbrk a + sz1\<rparr>]\<rparr>)\<rparr>"
    by (rule alloc_rg_grow [OF assms(1-6)])
  let ?m = "m\<lparr>mmap := (mmap m)[i := a\<lparr>vm_end := e1\<rparr>],
      symrgtbl := (symrgtbl m)[nat (sint r1) := \<lparr>rg_start = sbrk a, rg_end = sbrk a + sz1\<rparr>]\<rparr>"
  have d: "deref_vma (krnl s1) vmaid = Some (?m, i, a\<lparr>vm_end := e1\<rparr>)"
    by (rule deref_same_ids [OF assms(2)]) (simp_all add: s1(4))
  have side: "procs s1 c \<noteq> None" "nat (sint r2) < length (symrgtbl ?m)" "nothing_fits (a\<lparr>vm_end := e1\<rparr>) sz2"
    using assms(3,8,9) s1(3) by (simp_all add: nothing_fits_def)
  obtain s2 e2 where s2: "alloc_rg v junk s1 c vmaid r2 sz2 = Some (0, sbrk (a\<lparr>vm_end := e1\<rparr>), s2)"
    "krnl s2 = (krnl s1)\<lparr>mm := Some (?m\<lparr>mmap := (mmap ?m)[i := a\<lparr>vm_end := e1, vm_end := e2\<rparr>],
      symrgtbl := (symrgtbl ?m)[nat (sint r2) :=
        \<lparr>rg_start = sbrk (a\<lparr>vm_end := e1\<rparr>), rg_end = sbrk (a\<lparr>vm_end := e1\<rparr>) + sz2\<rparr>]\<rparr>)\<rparr>"
    by (rule alloc_rg_grow [OF s1(2) d side(1) assms(7) side(2,3)])
  have "nat (sint r1) \<noteq> nat (sint r2)"
    using assms(4,7,10) by (metis nat_eq_iff2 signed_word_eqI)
  with s1(1) s2 assms(5,8) show ?thesis by (intro exI [of _ s1] exI [of _ s2]) auto
qed

theorem allocations_overlap_witness:
  "\<exists>s1 s2. alloc_rg 0 zero_rg demo_sys 0 0 1 300 = Some (0, 0, s1) \<and>
     alloc_rg 0 zero_rg s1 0 0 2 100 = Some (0, 0, s2)"
proof -
  have "nothing_fits fresh_vma 300" "nothing_fits fresh_vma 100" "length (symrgtbl fresh_mm) = 30"
    "sbrk fresh_vma = 0" "procs demo_sys 0 \<noteq> None"
    by (simp_all add: nothing_fits_def fresh_vma_def fresh_mm_def zero_rg_def int_to_u64_def u64_to_int_def
        demo_heap_def)
  with allocations_overlap [OF rl_ok_demo, of 0 fresh_mm 0 fresh_vma 0 1 300 2 100 0 zero_rg] deref_fresh
  show ?thesis by auto
qed

text \<open>Freeing a region puts it in front of the free list of the first area.\<close>

lemma deref_zero_index: "deref_vma k 0 = Some (m, i, a) \<Longrightarrow> i < length (mmap m) \<and> a = mmap m ! i"
  using deref_vma_parts(4,5) by blast

lemma free_rg_eq:
  assumes "mm k = Some m" "mmap m = a # as" "0 \<le> sint rgid" "nat (sint rgid) < length (symrgtbl m)"
    and "length (symrgtbl m) \<le> 30" "symrgtbl m ! nat (sint rgid) = rg" "rg_start rg < rg_end rg"
  shows "free_rg k vmaid rgid = Some (0, k\<lparr>mm := Some (m\<lparr>symrgtbl := (symrgtbl m)[nat (sint rgid) := zero_rg],
    mmap := a\<lparr>vm_freerg_list := rg # vm_freerg_list a\<rparr> # as\<rparr>)\<rparr>)"
proof -
  have "rg_end rg \<noteq> 0" using assms(7) by auto
  moreover have "\<not> rg_end rg \<le> rg_start rg" using assms(7) by simp
  moreover have "sint rgid \<le> 30" using assms(3-5) by linarith
  ultimately show ?thesis using assms(1-6)
    by (simp add: free_rg_def get_symrg_byid_def PAGING_MAX_SYMTBL_SZ_def rd_in wr_in
        enlist_vm_freerg_list_def)
qed

text \<open>
  C24: freeing a region and allocating its size again gives the same region back and restores
  the state: when the first area has id 0 and a non-empty free list (init_mm leaves one, and
  take_fit never empties it), freeing a non-empty region of less than 2 GiB clears its
  symbol and puts it in front of the free list, where the first-fit search finds it.
\<close>
theorem free_then_alloc:
  assumes "mm (krnl s) = Some m" "mmap m = a # as" "vm_id a = 0" "vm_freerg_list a \<noteq> []"
    and "0 \<le> sint rgid" "nat (sint rgid) < length (symrgtbl m)" "length (symrgtbl m) \<le> 30"
    and "symrgtbl m ! nat (sint rgid) = rg" "rg_start rg < rg_end rg" "unat (rg_end rg - rg_start rg) < 2 ^ 31"
  shows "\<exists>k1 m1. free_rg (krnl s) 0 rgid = Some (0, k1) \<and> mm k1 = Some m1 \<and>
    symrgtbl m1 ! nat (sint rgid) = zero_rg \<and>
    alloc_rg v junk (s\<lparr>krnl := k1\<rparr>) c 0 rgid (rg_end rg - rg_start rg) = Some (0, rg_start rg, s)"
proof -
  let ?a1 = "a\<lparr>vm_freerg_list := rg # vm_freerg_list a\<rparr>" and ?i = "nat (sint rgid)"
  let ?m1 = "m\<lparr>symrgtbl := (symrgtbl m)[?i := zero_rg], mmap := ?a1 # as\<rparr>"
  let ?k1 = "(krnl s)\<lparr>mm := Some ?m1\<rparr>"
  have d: "deref_vma ?k1 0 = Some (?m1, 0, ?a1)"
    using assms(3) by (simp add: deref_vma_def get_vma_by_num_def u64_to_int_def rd_def)
  have sz: "int_to_u64 (u64_to_int (rg_end rg - rg_start rg)) = rg_end rg - rg_start rg"
    using assms(10) by (rule int_to_u64_to_int)
  have start: "rg_start rg \<noteq> - 1" using assms(9) by (metis not_less word_order.extremum)
  have take: "take_fit (rg # vm_freerg_list a) (rg_end rg - rg_start rg) = Some (rg, vm_freerg_list a)"
    using assms(4) by (cases rg; cases "vm_freerg_list a") simp_all
  have a: "?a1\<lparr>vm_freerg_list := vm_freerg_list a\<rparr> = a" by (cases a) simp
  have "get_free_vmrg_area ?k1 0 (u64_to_int (rg_end rg - rg_start rg)) junk =
      Some (0, rg, set_area ?k1 ?m1 0 a)"
    using d take start a by (simp add: get_free_vmrg_area_def sz)
  moreover have "set_symrg (set_area ?k1 ?m1 0 a) rgid rg =
      Some ((krnl s)\<lparr>mm := Some (m\<lparr>symrgtbl := symrgtbl m, mmap := a # as\<rparr>)\<rparr>)"
    using assms(5,6,8) set_symrg_eq [of "set_area ?k1 ?m1 0 a" "?m1\<lparr>mmap := a # as\<rparr>" rgid rg]
    by (simp add: set_area_def list_update_same_conv)
  moreover have "(krnl s)\<lparr>mm := Some (m\<lparr>symrgtbl := symrgtbl m, mmap := a # as\<rparr>)\<rparr> = krnl s"
    using assms(1,2) by (cases "krnl s"; cases m) simp
  ultimately have "alloc_rg v junk (s\<lparr>krnl := ?k1\<rparr>) c 0 rgid (rg_end rg - rg_start rg) = Some (0, rg_start rg, s)"
    by (simp add: alloc_rg_def)
  moreover have "free_rg (krnl s) 0 rgid = Some (0, ?k1)" by (rule free_rg_eq [OF assms(1,2,5-9)])
  ultimately show ?thesis using assms(6)
    by (intro exI [of _ ?k1] exI [of _ ?m1]) simp
qed

theorem free_then_alloc_witness:
  "\<exists>s k1. mm (krnl s) = Some (fresh_mm\<lparr>symrgtbl := (replicate 30 zero_rg)[3 := \<lparr>rg_start = 0, rg_end = 300\<rparr>]\<rparr>) \<and>
     free_rg (krnl s) 0 3 = Some (0, k1) \<and> alloc_rg 0 zero_rg (s\<lparr>krnl := k1\<rparr>) 0 0 3 300 = Some (0, 0, s)"
proof -
  let ?m = "fresh_mm\<lparr>symrgtbl := (replicate 30 zero_rg)[3 := \<lparr>rg_start = 0, rg_end = 300\<rparr>]\<rparr>"
  let ?s = "demo_sys\<lparr>krnl := fresh_krnl\<lparr>mm := Some ?m\<rparr>\<rparr>"
  have "mmap ?m = [fresh_vma]" "vm_id fresh_vma = 0" "vm_freerg_list fresh_vma \<noteq> []"
    by (simp_all add: fresh_mm_def fresh_vma_def)
  moreover have "\<lparr>rg_start = 0, rg_end = 300\<rparr> = symrgtbl ?m ! nat (sint (3 :: cint))" by simp
  ultimately show ?thesis
    using free_then_alloc [of ?s ?m fresh_vma "[]" 3 "\<lparr>rg_start = 0, rg_end = 300\<rparr>" 0 zero_rg 0]
    by (intro exI [of _ ?s]) auto
qed

section \<open>Data never reaches the memory\<close>

text \<open>The states init_mm leaves and in which nothing has been mapped.\<close>

definition inert :: "krnl_t \<Rightarrow> bool" where
  "inert k \<longleftrightarrow> (\<exists>m. mm k = Some m \<and> pt m = 0 \<and> fifo_pgn m = [])"

lemma pg_getpage_inert: "inert k \<Longrightarrow> pg_getpage k pgn fpn = Some (- 1, fpn, k)"
proof -
  assume "inert k"
  then obtain m where m: "mm k = Some m" "pt m = 0" "fifo_pgn m = []" by (auto simp: inert_def)
  have "k\<lparr>mm := Some m\<rparr> = k" using m(1) by (cases k) simp
  with m pte_get_entry_NULL [of k m] show ?thesis
    by (simp add: pg_getpage_def find_victim_page_def PAGING_PAGE_PRESENT_def has_roots_def)
qed

lemma read_rg_inert: "inert k \<Longrightarrow> read_rg k vmaid rgid off data = Some (r, d, k') \<Longrightarrow> d = data \<and> k' = k"
  by (auto simp: read_rg_def pg_getval_def pg_getpage_inert bind_eq_Some_conv split: option.splits if_splits)

lemma write_rg_inert: "inert k \<Longrightarrow> write_rg k vmaid rgid off b = Some (r, k') \<Longrightarrow> k' = k"
  by (auto simp: write_rg_def pg_setval_def pg_getpage_inert bind_eq_Some_conv split: option.splits if_splits)

definition same_devices :: "krnl_t \<Rightarrow> krnl_t \<Rightarrow> bool" where
  "same_devices k k' \<longleftrightarrow> mram k' = mram k \<and> active_mswp k' = active_mswp k"

lemma lib_print_frame:
  "lib_print f s = Some s' \<Longrightarrow> (inert (krnl s') = inert (krnl s)) \<and> same_devices (krnl s) (krnl s')"
  by (auto simp: lib_print_def print_pgtbl_def emit_def inert_def same_devices_def bind_eq_Some_conv
      split: if_splits)

lemma enlist_frame:
  "enlist_vm_freerg_list m rg = Some (r, m') \<Longrightarrow> pt m' = pt m \<and> fifo_pgn m' = fifo_pgn m"
  by (cases "mmap m") (auto simp: enlist_vm_freerg_list_def split: if_splits)

lemma free_rg_frame:
  "free_rg k vmaid rgid = Some (r, k') \<Longrightarrow> inert k \<Longrightarrow> inert k' \<and> same_devices k k'"
  by (auto simp: free_rg_def inert_def same_devices_def bind_eq_Some_conv
      split: if_splits dest!: enlist_frame)

lemma set_symrg_frame:
  "set_symrg k rgid rg = Some k' \<Longrightarrow> inert k \<Longrightarrow> inert k' \<and> same_devices k k'"
  by (auto simp: set_symrg_def inert_def same_devices_def bind_eq_Some_conv split: if_splits)

lemma set_area_inert: "inert k \<Longrightarrow> mm k = Some m \<Longrightarrow> inert (set_area k m i a) \<and> same_devices k (set_area k m i a)"
  by (auto simp: inert_def set_area_def same_devices_def)

lemma get_free_frame:
  assumes "get_free_vmrg_area k vmaid sz junk = Some (r, rg, k')" "inert k"
  shows "inert k' \<and> same_devices k k'"
proof -
  from assms(1) obtain m i a where d: "deref_vma k vmaid = Some (m, i, a)"
    by (auto simp: get_free_vmrg_area_def bind_eq_Some_conv)
  have "k' = k \<or> (\<exists>a'. k' = set_area k m i a')"
    using assms(1) d by (auto simp: get_free_vmrg_area_def split: if_splits option.splits prod.splits)
  with set_area_inert [OF assms(2) deref_vma_parts(1) [OF d]] assms(2) show ?thesis
    by (auto simp: same_devices_def)
qed

lemma inc_vma_limit_frame:
  assumes "inc_vma_limit k vmaid sz = Some (r, k')" "inert k"
  shows "inert k' \<and> same_devices k k'"
proof -
  from assms(1) obtain m i a where d: "deref_vma k vmaid = Some (m, i, a)"
    by (auto simp: inc_vma_limit_def bind_eq_Some_conv Let_def)
  from inc_vma_limit_eq [OF this, of sz] assms(1) have "k' = k \<or> (\<exists>a'. k' = set_area k m i a')"
    by (auto simp: set_area_def split: if_splits)
  with set_area_inert [OF assms(2) deref_vma_parts(1) [OF d]] assms(2) show ?thesis
    by (auto simp: same_devices_def)
qed

lemma find_caller_krnl: "find_caller s pd = Some (c, s') \<Longrightarrow> krnl s' = krnl s"
  by (auto simp: find_caller_def Let_def bind_eq_Some_conv)

lemma syscall_inc_frame:
  assumes "syscall v s pd 17 \<lparr>a1 = int_to_u64 SYSMEM_INC_OP, a2 = int_to_u64 vmaid, a3 = x\<rparr> = Some (r, rs, s')"
    "inert (krnl s)"
  shows "inert (krnl s') \<and> same_devices (krnl s) (krnl s')"
proof -
  from assms(1) obtain c s1 where s1: "find_caller s pd = Some (c, s1)"
    by (auto simp: syscall_inc bind_eq_Some_conv)
  note k1 = find_caller_krnl [OF s1]
  show ?thesis
  proof (cases c)
    case None
    with assms s1 k1 show ?thesis by (auto simp: syscall_inc emit_def same_devices_def)
  next
    case (Some p)
    with assms(1) s1 obtain r' k where "inc_vma_limit (krnl s1) vmaid x = Some (r', k)" "krnl s' = k"
      by (auto simp: syscall_inc bind_eq_Some_conv)
    with inc_vma_limit_frame [of "krnl s1"] k1 assms(2) show ?thesis by auto
  qed
qed

lemma same_devices_trans: "same_devices k k1 \<Longrightarrow> same_devices k1 k2 \<Longrightarrow> same_devices k k2"
  by (simp add: same_devices_def)

lemma alloc_rg_frame:
  assumes "alloc_rg v junk s c vmaid rgid sz = Some (r, ad, s')" "inert (krnl s)"
  shows "inert (krnl s') \<and> same_devices (krnl s) (krnl s')"
proof -
  from assms(1) obtain q rg k where g: "get_free_vmrg_area (krnl s) vmaid (u64_to_int sz) junk = Some (q, rg, k)"
    by (auto simp: alloc_rg_def bind_eq_Some_conv)
  note k = get_free_frame [OF g assms(2)]
  show ?thesis
  proof (cases "q = 0")
    case True
    with assms(1) g obtain k2 where "set_symrg k rgid rg = Some k2" "krnl s' = k2"
      by (auto simp: alloc_rg_def bind_eq_Some_conv)
    with set_symrg_frame [of k rgid rg k2] k same_devices_trans show ?thesis by blast
  next
    case False
    with assms(1) g obtain x rs s1 ad' k2 and b :: pcb_t where
      sys: "syscall v (s\<lparr>krnl := k\<rparr>) (pid b) 17 \<lparr>a1 = int_to_u64 SYSMEM_INC_OP, a2 = int_to_u64 vmaid,
        a3 = int_to_u64 (u64_to_int sz)\<rparr> = Some (x, rs, s1)"
      and set: "set_symrg (krnl s1) rgid ad' = Some k2" "krnl s' = k2"
      by (auto simp: alloc_rg_def bind_eq_Some_conv Let_def)
    from k have "inert (krnl (s\<lparr>krnl := k\<rparr>))" by simp
    from syscall_inc_frame [OF sys this] have 1: "inert (krnl s1)" "same_devices k (krnl s1)" by simp_all
    from set_symrg_frame [OF set(1) 1(1)] k 1(2) set(2) show ?thesis
      by (auto intro: same_devices_trans)
  qed
qed

lemma dump_cells_same: "dump_cells mp is v = Some (cs, mp') \<Longrightarrow> mp' = mp"
proof (induction "is" arbitrary: mp v cs)
  case (Cons i "is")
  then obtain r w mp1 cs' where 1: "MEMPHY_read mp (of_nat i) v = Some (r, w, mp1)"
    "dump_cells mp1 is w = Some (cs', mp')" by (auto simp: bind_eq_Some_conv)
  have "mp1 = mp" using 1(1)
    by (auto simp: MEMPHY_read_def MEMPHY_seq_read_def bind_eq_Some_conv split: if_splits)
  with Cons.IH 1(2) show ?case by simp
qed simp

text \<open>
  C26: nothing a program writes reaches the memory. In the states init_mm leaves (the root
  \<open>pt\<close> NULL and an empty page list), which allocating, freeing, reading and writing all
  preserve, none of the four entry points changes the RAM or the swap device; reading gives
  the value the uninitialised variable happened to hold, whatever was written before.
\<close>
theorem data_never_reaches_memory:
  assumes "inert (krnl s)"
  shows "(libwrite v s p b rgid off = Some (r, s1) \<longrightarrow> inert (krnl s1) \<and> same_devices (krnl s) (krnl s1)) \<and>
    (libread data s p rgid off = Some (r, d, s2) \<longrightarrow>
      d = byte_to_u32 data \<and> inert (krnl s2) \<and> same_devices (krnl s) (krnl s2)) \<and>
    (liballoc v junk s p sz rgid = Some (r, s3) \<longrightarrow> inert (krnl s3) \<and> same_devices (krnl s) (krnl s3)) \<and>
    (libfree s p rgid = Some (r, s4) \<longrightarrow> inert (krnl s4) \<and> same_devices (krnl s) (krnl s4))"
proof (intro conjI impI)
  assume "libwrite v s p b rgid off = Some (r, s1)"
  then show "inert (krnl s1)" "same_devices (krnl s) (krnl s1)"
    using assms by (auto simp: libwrite_def emit_def same_devices_def inert_def MEMPHY_dump_def bind_eq_Some_conv
        split: if_splits dest!: write_rg_inert [OF assms] lib_print_frame dump_cells_same)
next
  assume "libread data s p rgid off = Some (r, d, s2)"
  then show "d = byte_to_u32 data" "inert (krnl s2)" "same_devices (krnl s) (krnl s2)"
    using assms by (auto simp: libread_def bind_eq_Some_conv dest!: read_rg_inert [OF assms] lib_print_frame)
next
  assume "liballoc v junk s p sz rgid = Some (r, s3)"
  then obtain val ad s' where s': "alloc_rg v junk s p 0 rgid sz = Some (val, ad, s')"
    "s3 = s' \<or> lib_print ''liballoc'' s' = Some s3"
    by (auto simp: liballoc_def bind_eq_Some_conv split: if_splits)
  with alloc_rg_frame [OF s'(1) assms] lib_print_frame [of "''liballoc''" s' s3]
  show "inert (krnl s3)" "same_devices (krnl s) (krnl s3)" by (auto intro: same_devices_trans)
next
  assume "libfree s p rgid = Some (r, s4)"
  then obtain val k where k: "free_rg (krnl s) 0 rgid = Some (val, k)"
    "s4 = s\<lparr>krnl := k\<rparr> \<or> lib_print ''libfree'' (s\<lparr>krnl := k\<rparr>) = Some s4"
    by (auto simp: libfree_def bind_eq_Some_conv split: if_splits)
  with free_rg_frame [OF k(1) assms] lib_print_frame [of "''libfree''" "s\<lparr>krnl := k\<rparr>" s4]
  show "inert (krnl s4)" "same_devices (krnl s) (krnl s4)" by (auto intro: same_devices_trans)
qed

lemma inert_fresh: "inert fresh_krnl"
  by (simp add: inert_def fresh_krnl_def fresh_mm_def)

lemma libwrite_demo: "\<exists>s1. libwrite 0 demo_sys 0 5 1 0 = Some (0, s1)"
proof -
  have w: "write_rg fresh_krnl 0 1 0 5 = Some (0, fresh_krnl)"
  proof -
    have "mm fresh_krnl = Some fresh_mm" by (simp add: fresh_krnl_def)
    moreover have "get_vma_by_num fresh_mm 0 = Some (Some 0)" "get_symrg_byid fresh_mm 1 = Some 1"
      "rd (symrgtbl fresh_mm) 1 = Some zero_rg"
      by (simp_all add: fresh_mm_def fresh_vma_def get_vma_by_num_def get_symrg_byid_def
        PAGING_MAX_SYMTBL_SZ_def rd_def u64_to_int_def)
    ultimately show ?thesis
      by (simp add: write_rg_def pg_setval_def pg_getpage_inert [OF inert_fresh])
  qed
  obtain rows h where p: "print_pgtbl fresh_krnl 0 (- 1) = Some (0, rows, fresh_krnl\<lparr>tables := h\<rparr>)"
    by (rule print_pgtbl_ok [OF wf_fresh_krnl deref_fresh, of 1])
      (use room_fresh_krnl in \<open>simp_all add: fresh_vma_def\<close>)
  have up: "[0..<3] = [0, 1, 2 :: nat]" by code_simp
  have "\<exists>cs. MEMPHY_dump demo_mem 0 = Some (0, cs, demo_mem)"
    by (simp add: MEMPHY_dump_def demo_mem_def up MEMPHY_read_def rd_def)
  moreover have "mram (fresh_krnl\<lparr>tables := h\<rparr>) = demo_mem" by (simp add: fresh_krnl_def demo_krnl_def)
  moreover have "demo_sys\<lparr>krnl := fresh_krnl\<rparr> = demo_sys" by (simp add: demo_sys_def)
  ultimately show ?thesis using w p by (auto simp: libwrite_def lib_print_def emit_def)
qed

theorem data_never_reaches_memory_witness:
  "\<exists>s1. libwrite 0 demo_sys 0 5 1 0 = Some (0, s1) \<and> storage (mram (krnl s1)) = [7, 8, 9]"
proof -
  from libwrite_demo obtain s1 where w: "libwrite 0 demo_sys 0 5 1 0 = Some (0, s1)" by blast
  have "inert (krnl demo_sys)" by (simp add: inert_fresh)
  from data_never_reaches_memory [OF this, of 0 0 5 1 0 0 s1] w have "same_devices (krnl demo_sys) (krnl s1)"
    by blast
  with w show ?thesis by (simp add: same_devices_def fresh_krnl_def demo_krnl_def demo_mem_def)
qed

section \<open>Access to a mapped page\<close>

text \<open>The frame of a virtual address and the physical address it stands for, by the entries.\<close>

definition pte32 :: "krnl_t \<Rightarrow> cint \<Rightarrow> u32" where
  "pte32 k addr = ucast (pte_of k (int_to_u64 (PAGING_PGN addr)))"

definition phys :: "krnl_t \<Rightarrow> cint \<Rightarrow> u64" where
  "phys k addr = phy_addr (PAGING_FPN (pte32 k addr)) addr"

lemma pg_getpage_present:
  assumes "wf_dir k" "8 \<le> room k" "mm k = Some m" "has_roots m" "PAGING_PAGE_PRESENT (pte32 k addr)"
  obtains h where "pg_getpage k (PAGING_PGN addr) fpn = Some (0, PAGING_FPN (pte32 k addr), k\<lparr>tables := h\<rparr>)"
    "wf_dir (k\<lparr>tables := h\<rparr>)" "room k \<le> room (k\<lparr>tables := h\<rparr>) + 8" "pte_of (k\<lparr>tables := h\<rparr>) = pte_of k"
proof -
  let ?p = "int_to_u64 (PAGING_PGN addr)"
  have r: "4 \<le> room k" using assms(2) by simp
  obtain h where h: "pte_get_entry k ?p = Some (ucast (pte_of k ?p), k\<lparr>tables := h\<rparr>)"
    "wf_dir (k\<lparr>tables := h\<rparr>)" "room k \<le> room (k\<lparr>tables := h\<rparr>) + 4"
    "\<And>q. pte_of (k\<lparr>tables := h\<rparr>) q = pte_of k q"
    by (rule pte_get_entry_ok [OF assms(1) r assms(3,4), of ?p]) (rule that; assumption)
  let ?k = "k\<lparr>tables := h\<rparr>"
  have r2: "4 \<le> room ?k" using h(3) assms(2) by simp
  have m2: "mm ?k = Some m" using assms(3) by simp
  obtain h2 where h2: "pte_get_entry ?k ?p = Some (ucast (pte_of ?k ?p), ?k\<lparr>tables := h2\<rparr>)"
    "wf_dir (?k\<lparr>tables := h2\<rparr>)" "room ?k \<le> room (?k\<lparr>tables := h2\<rparr>) + 4"
    "\<And>q. pte_of (?k\<lparr>tables := h2\<rparr>) q = pte_of ?k q"
    by (rule pte_get_entry_ok [OF h(2) r2 m2 assms(4), of ?p]) (rule that; assumption)
  show thesis
  proof (rule that [of h2])
    show "pg_getpage k (PAGING_PGN addr) fpn = Some (0, PAGING_FPN (pte32 k addr), k\<lparr>tables := h2\<rparr>)"
      using h(1,4) h2(1) assms(5) by (simp add: pg_getpage_def pte32_def)
    show "wf_dir (k\<lparr>tables := h2\<rparr>)" using h2(2) by simp
    show "room k \<le> room (k\<lparr>tables := h2\<rparr>) + 8" using h(3) h2(3) by simp
    show "pte_of (k\<lparr>tables := h2\<rparr>) = pte_of k" using h(4) h2(4) by (simp add: fun_eq_iff)
  qed
qed

lemma pte_of_mram: "pte_of (k\<lparr>mram := x\<rparr>) = pte_of k" "wf_dir (k\<lparr>mram := x\<rparr>) = wf_dir k"
  "room (k\<lparr>mram := x\<rparr>) = room k"
  by (auto simp: pte_of_def wf_dir_def room_def fun_eq_iff split: option.split)

lemma pg_setval_present:
  assumes "wf_dir k" "8 \<le> room k" "mm k = Some m" "has_roots m" "PAGING_PAGE_PRESENT (pte32 k addr)"
    and "random_access (mram k)" "unat (phys k addr) < length (storage (mram k))"
  obtains k' where "pg_setval k addr b = Some (0, k')" "wf_dir k'" "room k \<le> room k' + 8" "mm k' = Some m"
    "pte_of k' = pte_of k" "random_access (mram k')"
    "storage (mram k') = (storage (mram k))[unat (phys k addr) := b]"
proof -
  obtain h where h: "pg_getpage k (PAGING_PGN addr) 0 = Some (0, PAGING_FPN (pte32 k addr), k\<lparr>tables := h\<rparr>)"
    "wf_dir (k\<lparr>tables := h\<rparr>)" "room k \<le> room (k\<lparr>tables := h\<rparr>) + 8" "pte_of (k\<lparr>tables := h\<rparr>) = pte_of k"
    by (rule pg_getpage_present [OF assms(1-5)])
  from ram.write_in [OF assms(6,7), of b] obtain mp where mp: "MEMPHY_write (mram k) (phys k addr) b = Some (0, mp)"
    "random_access mp" "storage mp = (storage (mram k))[unat (phys k addr) := b]" by blast
  show thesis
  proof (rule that [of "k\<lparr>tables := h, mram := mp\<rparr>"])
    show "pg_setval k addr b = Some (0, k\<lparr>tables := h, mram := mp\<rparr>)"
      using h(1) mp(1) by (simp add: pg_setval_def phys_def)
  qed (use h mp assms(3) in \<open>simp_all add: pte_of_mram\<close>)
qed

lemma pg_getval_present:
  assumes "wf_dir k" "8 \<le> room k" "mm k = Some m" "has_roots m" "PAGING_PAGE_PRESENT (pte32 k addr)"
    and "random_access (mram k)" "unat (phys k addr) < length (storage (mram k))"
  shows "\<exists>k'. pg_getval k addr data = Some (0, storage (mram k) ! unat (phys k addr), k')"
proof -
  obtain h where h: "pg_getpage k (PAGING_PGN addr) 0 = Some (0, PAGING_FPN (pte32 k addr), k\<lparr>tables := h\<rparr>)"
    by (rule pg_getpage_present [OF assms(1-5)])
  from ram.read_in [OF assms(6,7), of data] h show ?thesis by (simp add: pg_getval_def phys_def)
qed

text \<open>
  C21: on pages that are present the access path is a memory: with all five roots set, a
  random-access RAM that holds the physical addresses, and room for a few tables, storing a
  byte at a virtual address succeeds, and loading any address whose page is present then
  gives the stored byte where the physical address is the same one and the old byte
  elsewhere. The physical address is the 13-bit frame number times 256 plus the low 8 bits
  of the address.
\<close>
theorem mapped_store_load:
  assumes "wf_dir k" "16 \<le> room k" "mm k = Some m" "has_roots m" "random_access (mram k)"
    and "PAGING_PAGE_PRESENT (pte32 k x)" "unat (phys k x) < length (storage (mram k))"
    and "PAGING_PAGE_PRESENT (pte32 k y)" "unat (phys k y) < length (storage (mram k))"
  shows "\<exists>k1 k2. pg_setval k x b = Some (0, k1) \<and>
    pg_getval k1 y data = Some (0, if phys k y = phys k x then b else storage (mram k) ! unat (phys k y), k2)"
proof -
  have r: "8 \<le> room k" using assms(2) by simp
  obtain k1 where k1: "pg_setval k x b = Some (0, k1)" "wf_dir k1" "room k \<le> room k1 + 8" "mm k1 = Some m"
    "pte_of k1 = pte_of k" "random_access (mram k1)" "storage (mram k1) = (storage (mram k))[unat (phys k x) := b]"
    by (rule pg_setval_present [OF assms(1) r assms(3,4,6,5,7), of b])
  have same: "pte32 k1 y = pte32 k y" "phys k1 y = phys k y" using k1(5) by (simp_all add: pte32_def phys_def)
  have r1: "8 \<le> room k1" using k1(3) assms(2) by simp
  have "PAGING_PAGE_PRESENT (pte32 k1 y)" "unat (phys k1 y) < length (storage (mram k1))"
    using assms(8,9) k1(7) same by simp_all
  from pg_getval_present [OF k1(2) r1 k1(4) assms(4) this(1) k1(6) this(2), of data] k1(7) same assms(7)
  obtain k2 where "pg_getval k1 y data =
      Some (0, if phys k y = phys k x then b else storage (mram k) ! unat (phys k y), k2)"
    by (auto simp: nth_list_update word_unat_eq_iff)
  with k1(1) show ?thesis by blast
qed

lemma demo_mapped:
  obtains k where "pte_set_fpn (demo_krnl 1) 0 0 = Some (0, k)" "wf_dir k" "16 \<le> room k"
    "mm k = Some (demo_mm 1)" "mram k = demo_mem" "pte_of k 0 = pte_online 0 0"
proof -
  have r: "4 \<le> room (demo_krnl 1)" using room_demo_krnl [of 1] by simp
  obtain h where h: "pte_update (\<lambda>e. pte_online e 0) (demo_krnl 1) 0 = Some ((demo_krnl 1)\<lparr>tables := h\<rparr>)"
    "wf_dir ((demo_krnl 1)\<lparr>tables := h\<rparr>)" "room (demo_krnl 1) \<le> room ((demo_krnl 1)\<lparr>tables := h\<rparr>) + 4"
    "\<And>q. pte_of ((demo_krnl 1)\<lparr>tables := h\<rparr>) q = (if take_bit 45 q = take_bit 45 (0 :: u64)
       then pte_online (pte_of (demo_krnl 1) 0) 0 else pte_of (demo_krnl 1) q)"
    by (rule pte_update_ok [OF wf_demo_krnl r, of "\<lambda>e. pte_online e 0" 0]) (rule that; assumption)
  show thesis
  proof (rule that [of "(demo_krnl 1)\<lparr>tables := h\<rparr>"])
    show "pte_set_fpn (demo_krnl 1) 0 0 = Some (0, (demo_krnl 1)\<lparr>tables := h\<rparr>)"
      using h(1) by (simp add: pte_set_fpn_def)
    show "16 \<le> room ((demo_krnl 1)\<lparr>tables := h\<rparr>)" using h(3) room_demo_krnl [of 1] by linarith
    show "pte_of ((demo_krnl 1)\<lparr>tables := h\<rparr>) 0 = pte_online 0 0"
      using h(4) [of 0] by (simp add: pte_of_demo)
  qed (simp_all add: h(2), simp_all add: demo_krnl_def)
qed

lemma pte_online_0_bits: "bit (ucast (pte_online 0 0) :: u32) 31"
  "PAGING_FPN (ucast (pte_online 0 0)) = 0"
proof -
  show "bit (ucast (pte_online 0 0) :: u32) 31" by (simp add: bit_pte_online bit_simps)
  show "PAGING_FPN (ucast (pte_online 0 0)) = 0"
    by (rule bit_word_eqI) (auto simp: bit_PAGING_FPN bit_pte_online bit_simps)
qed

theorem mapped_store_load_witness:
  "\<exists>k k1 k2. pte_set_fpn (demo_krnl 1) 0 0 = Some (0, k) \<and> pg_setval k 1 5 = Some (0, k1) \<and>
     pg_getval k1 1 0 = Some (0, 5, k2)"
proof -
  obtain k where k: "pte_set_fpn (demo_krnl 1) 0 0 = Some (0, k)" "wf_dir k" "16 \<le> room k"
    "mm k = Some (demo_mm 1)" "mram k = demo_mem" "pte_of k 0 = pte_online 0 0" by (rule demo_mapped)
  have pg: "int_to_u64 (PAGING_PGN 1) = 0" by (simp add: PAGING_PGN_eq int_to_u64_def)
  have p: "PAGING_PAGE_PRESENT (pte32 k 1)" using k(6) pte_online_0_bits(1) by (simp add: pte32_def pg)
  have "phys k 1 = 1"
    unfolding phys_def pte32_def pg k(6) pte_online_0_bits(2)
    by (simp add: phy_addr_def PAGING_OFFST_eq int_to_u64_def)
  then have a: "unat (phys k 1) < length (storage (mram k))" using k(5) by (simp add: demo_mem_def)
  have "has_roots (demo_mm 1)" "random_access (mram k)"
    using k(5) by (simp_all add: has_roots_def demo_mm_def random_access_def demo_mem_def)
  from mapped_store_load [OF k(2-4) this p a p a, of 5 0] k(1) show ?thesis by auto
qed

section \<open>Page faults and releasing a process\<close>

text \<open>What \<open>pg_getpage\<close> does once the entry turned out to be absent, by the page list and the
  swap device.\<close>

lemma find_victim_page_two:
  "2 \<le> length (fifo_pgn m) \<Longrightarrow>
     find_victim_page m 0 = Some (0, last (fifo_pgn m), m\<lparr>fifo_pgn := butlast (fifo_pgn m)\<rparr>)"
  by (cases "fifo_pgn m" rule: remdups_adj.cases) (auto simp: find_victim_page_def)

lemma fault_no_page:
  assumes "pte_get_entry k (int_to_u64 pgn) = Some (e, k\<lparr>tables := h\<rparr>)" "\<not> PAGING_PAGE_PRESENT e" "mm k = Some m"
  shows "fifo_pgn m = [] \<Longrightarrow> pg_getpage k pgn fpn = Some (- 1, fpn, k\<lparr>tables := h\<rparr>)"
    and "length (fifo_pgn m) = 1 \<Longrightarrow> pg_getpage k pgn fpn = None"
proof -
  have "k\<lparr>tables := h, mm := Some m\<rparr> = k\<lparr>tables := h\<rparr>" using assms(3) by (cases k) simp
  with assms show "fifo_pgn m = [] \<Longrightarrow> pg_getpage k pgn fpn = Some (- 1, fpn, k\<lparr>tables := h\<rparr>)"
    by (simp add: pg_getpage_def find_victim_page_def)
  from assms show "length (fifo_pgn m) = 1 \<Longrightarrow> pg_getpage k pgn fpn = None"
    by (auto simp: pg_getpage_def find_victim_page_def length_Suc_conv)
qed

lemma fault_no_swap:
  assumes "pte_get_entry k (int_to_u64 pgn) = Some (e, k\<lparr>tables := h\<rparr>)" "\<not> PAGING_PAGE_PRESENT e" "mm k = Some m"
    and "2 \<le> length (fifo_pgn m)" "free_fp_list (active_mswp k) = []"
  shows "pg_getpage k pgn fpn = Some (- 1, fpn,
    k\<lparr>tables := h, mm := Some (m\<lparr>fifo_pgn := butlast (fifo_pgn m)\<rparr>)\<rparr>)"
  using assms(1-3) find_victim_page_two [OF assms(4)] pool.get_Nil [OF assms(5), of 0]
  by (cases k) (simp add: pg_getpage_def Let_def)

lemma fault_swap_frame:
  assumes "pte_get_entry k (int_to_u64 pgn) = Some (e, k\<lparr>tables := h\<rparr>)" "\<not> PAGING_PAGE_PRESENT e" "mm k = Some m"
    and "2 \<le> length (fifo_pgn m)" "free_fp_list (active_mswp k) = f # fs"
  shows "pg_getpage k pgn fpn = do {
    (e, k') \<leftarrow> pte_get_entry (k\<lparr>tables := h, active_mswp := (active_mswp k)\<lparr>free_fp_list := fs\<rparr>,
      mm := Some (m\<lparr>fifo_pgn := int_to_u64 pgn # butlast (fifo_pgn m)\<rparr>)\<rparr>) (int_to_u64 pgn);
    Some (0, PAGING_FPN e, k') }"
proof -
  have "MEMPHY_get_freefp (active_mswp k) 0 = (0, f, (active_mswp k)\<lparr>free_fp_list := fs\<rparr>)"
    using assms(5) by (simp add: MEMPHY_get_freefp_def)
  with assms(1-3) find_victim_page_two [OF assms(4)] show ?thesis
    by (simp add: pg_getpage_def Let_def enlist_pgn_node_def)
qed

text \<open>
  The outcome of touching an absent page (all roots set): an empty page list gives -1; a
  list of one page dereferences NULL; otherwise the oldest page is dropped from the list
  and, when the swap device has no free frame, the result is -1; when it has one, that
  frame is taken and the new page is put on the list, but nothing is copied and no entry
  changes: the call returns 0 with the frame number of an entry that is not present, the
  victim stays mapped, and the swap frame is lost.
\<close>
lemma absent_page_outcomes:
  assumes "wf_dir k" "8 \<le> room k" "mm k = Some m" "has_roots m"
    and "\<not> PAGING_PAGE_PRESENT (ucast (pte_of k (int_to_u64 pgn)))"
  shows "(fifo_pgn m = [] \<longrightarrow> (\<exists>h. pg_getpage k pgn fpn = Some (- 1, fpn, k\<lparr>tables := h\<rparr>))) \<and>
    (length (fifo_pgn m) = 1 \<longrightarrow> pg_getpage k pgn fpn = None) \<and>
    (2 \<le> length (fifo_pgn m) \<longrightarrow> free_fp_list (active_mswp k) = [] \<longrightarrow>
      (\<exists>h. pg_getpage k pgn fpn = Some (- 1, fpn,
        k\<lparr>tables := h, mm := Some (m\<lparr>fifo_pgn := butlast (fifo_pgn m)\<rparr>)\<rparr>))) \<and>
    (2 \<le> length (fifo_pgn m) \<longrightarrow> free_fp_list (active_mswp k) = f # fs \<longrightarrow>
      (\<exists>k'. pg_getpage k pgn fpn = Some (0, PAGING_FPN (ucast (pte_of k (int_to_u64 pgn))), k') \<and>
        pte_of k' = pte_of k \<and> mram k' = mram k \<and>
        active_mswp k' = (active_mswp k)\<lparr>free_fp_list := fs\<rparr> \<and>
        mm k' = Some (m\<lparr>fifo_pgn := int_to_u64 pgn # butlast (fifo_pgn m)\<rparr>)))"
proof -
  let ?p = "int_to_u64 pgn"
  have r: "4 \<le> room k" using assms(2) by simp
  obtain h where h: "pte_get_entry k ?p = Some (ucast (pte_of k ?p), k\<lparr>tables := h\<rparr>)"
    "wf_dir (k\<lparr>tables := h\<rparr>)" "room k \<le> room (k\<lparr>tables := h\<rparr>) + 4"
    "\<And>q. pte_of (k\<lparr>tables := h\<rparr>) q = pte_of k q"
    by (rule pte_get_entry_ok [OF assms(1) r assms(3,4), of ?p]) (rule that; assumption)
  note fault = h(1) assms(5,3)
  have "\<exists>k'. pg_getpage k pgn fpn = Some (0, PAGING_FPN (ucast (pte_of k ?p)), k') \<and>
      pte_of k' = pte_of k \<and> mram k' = mram k \<and>
      active_mswp k' = (active_mswp k)\<lparr>free_fp_list := fs\<rparr> \<and>
      mm k' = Some (m\<lparr>fifo_pgn := ?p # butlast (fifo_pgn m)\<rparr>)"
    if a: "2 \<le> length (fifo_pgn m)" "free_fp_list (active_mswp k) = f # fs"
  proof -
    let ?m = "m\<lparr>fifo_pgn := ?p # butlast (fifo_pgn m)\<rparr>"
    let ?k2 = "k\<lparr>tables := h, active_mswp := (active_mswp k)\<lparr>free_fp_list := fs\<rparr>, mm := Some ?m\<rparr>"
    have same: "pte_of ?k2 = pte_of k" "room ?k2 = room (k\<lparr>tables := h\<rparr>)" "wf_dir ?k2"
      using h(2,4) assms(3) by (auto simp: pte_of_def wf_dir_def room_def fun_eq_iff)
    have r2: "4 \<le> room ?k2" using same(2) h(3) assms(2) by simp
    have m2: "mm ?k2 = Some ?m" and roots2: "has_roots ?m" using assms(4) by (simp_all add: has_roots_def)
    obtain h2 where h2: "pte_get_entry ?k2 ?p = Some (ucast (pte_of ?k2 ?p), ?k2\<lparr>tables := h2\<rparr>)"
      "\<And>q. pte_of (?k2\<lparr>tables := h2\<rparr>) q = pte_of ?k2 q"
      by (rule pte_get_entry_ok [OF same(3) r2 m2 roots2, of ?p]) (rule that; assumption)
    with fault_swap_frame [OF fault a, of fpn] same(1) show ?thesis
      by (intro exI [of _ "?k2\<lparr>tables := h2\<rparr>"]) (simp add: fun_eq_iff)
  qed
  with fault_no_page [OF fault] fault_no_swap [OF fault] show ?thesis by blast
qed

definition paged_mm :: "u64 list \<Rightarrow> mm_struct" where
  "paged_mm ps = (demo_mm 1)\<lparr>fifo_pgn := ps\<rparr>"

definition paged_krnl :: "u64 list \<Rightarrow> krnl_t" where
  "paged_krnl ps = (demo_krnl 1)\<lparr>mm := Some (paged_mm ps), active_mswp := demo_mem\<lparr>free_fp_list := [4]\<rparr>\<rparr>"

lemma paged_krnl_simps: "mm (paged_krnl ps) = Some (paged_mm ps)" "wf_dir (paged_krnl ps)"
  "100 \<le> room (paged_krnl ps)" "pte_of (paged_krnl ps) p = 0" "has_roots (paged_mm ps)"
  "fifo_pgn (paged_mm ps) = ps" "free_fp_list (active_mswp (paged_krnl ps)) = [4]" "mram (paged_krnl ps) = demo_mem"
  using wf_demo_krnl [of 1] room_demo_krnl [of 1] pte_of_demo [of 1 p]
  by (simp_all add: paged_krnl_def paged_mm_def demo_krnl_def wf_dir_def demo_mm_def room_def pte_of_def has_roots_def)

lemma absent_page_outcomes_witness:
  "pg_getpage (paged_krnl [6]) 5 0 = None \<and>
   (\<exists>k'. pg_getpage (paged_krnl [6, 7]) 5 0 = Some (0, 0, k') \<and> pte_of k' 5 = 0 \<and>
     free_fp_list (active_mswp k') = [])"
proof
  have r: "8 \<le> room (paged_krnl ps)" for ps using paged_krnl_simps(3) [of ps] by simp
  have p: "\<not> PAGING_PAGE_PRESENT (ucast (pte_of (paged_krnl ps) (int_to_u64 5)))" for ps
    by (simp add: paged_krnl_simps)
  show "pg_getpage (paged_krnl [6]) 5 0 = None"
    using absent_page_outcomes [OF paged_krnl_simps(2) r paged_krnl_simps(1,5) p, of "[6]" 0]
    by (simp add: paged_krnl_simps)
  have "PAGING_FPN 0 = 0" by (rule bit_word_eqI) (simp add: bit_PAGING_FPN)
  then show "\<exists>k'. pg_getpage (paged_krnl [6, 7]) 5 0 = Some (0, 0, k') \<and> pte_of k' 5 = 0 \<and>
     free_fp_list (active_mswp k') = []"
    using absent_page_outcomes [OF paged_krnl_simps(2) r paged_krnl_simps(1,5) p, of "[6, 7]" 0 4 "[]"]
    by (auto simp: paged_krnl_simps)
qed

text \<open>An online entry of a frame: where free_pcb_memph puts it.\<close>

lemma online_present: "PAGING_PAGE_PRESENT (ucast (pte_online e f))"
  by (simp add: bit_pte_online bit_simps)

lemma online_FPN:
  assumes "unat f < 2 ^ 13"
  shows "ucast (PAGING_FPN (ucast (pte_online e f))) = f"
proof -
  have "take_bit 13 f = f" using assms by (simp add: word_unat_eq_iff unat_take_bit)
  moreover have "ucast (PAGING_FPN (ucast (pte_online e f))) = take_bit 13 f"
    by (rule bit_word_eqI) (auto simp: bit_PAGING_FPN bit_pte_online bit_simps)
  ultimately show ?thesis by simp
qed

lemma online_SWP:
  assumes "unat f < 2 ^ 13"
  shows "ucast (PAGING_SWP (ucast (pte_online 0 f))) = drop_bit 5 f"
    and "PAGING_SWP (ucast (pte_online 0 f)) = 0 \<longleftrightarrow> unat f < 32"
proof -
  have f: "take_bit 13 f = f" using assms by (simp add: word_unat_eq_iff unat_take_bit)
  have "ucast (PAGING_SWP (ucast (pte_online 0 f))) = drop_bit 5 (take_bit 13 f)"
    by (rule bit_word_eqI) (auto simp: bit_PAGING_SWP bit_pte_online bit_simps add.commute)
  then show u: "ucast (PAGING_SWP (ucast (pte_online 0 f))) = drop_bit 5 f" by (simp only: f)
  have "PAGING_SWP (ucast (pte_online 0 f)) = 0 \<longleftrightarrow> drop_bit 5 f = 0"
    unfolding u [symmetric] using ucast_u32_u64 by (metis ucast_0)
  also have "\<dots> \<longleftrightarrow> unat f div 32 = 0"
    by (simp add: word_unat_eq_iff unat_drop_bit)
  also have "\<dots> \<longleftrightarrow> unat f < 32" by (simp add: div_eq_0_iff)
  finally show "PAGING_SWP (ucast (pte_online 0 f)) = 0 \<longleftrightarrow> unat f < 32" .
qed

definition maps_frames :: "krnl_t \<Rightarrow> u64 list \<Rightarrow> u64 list \<Rightarrow> bool" where
  "maps_frames k ps fs \<longleftrightarrow> list_all2 (\<lambda>p f. pte_of k p = pte_online 0 f \<and> unat f < 2 ^ 13) ps fs"

lemma free_loop_ok:
  assumes "maps_frames k ps fs" "wf_dir k" "4 * length ps \<le> room k" "mm k = Some m" "has_roots m"
  shows "\<exists>k'. free_loop ps k = Some k' \<and> mm k' = Some m \<and>
    free_fp_list (mram k') = rev (filter (\<lambda>f. unat f < 32) fs) @ free_fp_list (mram k) \<and>
    free_fp_list (active_mswp k') =
      rev (map (drop_bit 5) (filter (\<lambda>f. 32 \<le> unat f) fs)) @ free_fp_list (active_mswp k)"
  using assms
proof (induction ps arbitrary: fs k)
  case Nil
  then show ?case by (simp add: maps_frames_def)
next
  case (Cons p ps)
  from Cons.prems(1) obtain f fs' where fs: "fs = f # fs'" "pte_of k p = pte_online 0 f" "unat f < 2 ^ 13"
    "maps_frames k ps fs'" by (auto simp: maps_frames_def list_all2_Cons1)
  have r: "4 \<le> room k" using Cons.prems(3) by simp
  obtain h where h: "pte_get_entry k p = Some (ucast (pte_of k p), k\<lparr>tables := h\<rparr>)"
    "wf_dir (k\<lparr>tables := h\<rparr>)" "room k \<le> room (k\<lparr>tables := h\<rparr>) + 4"
    "\<And>q. pte_of (k\<lparr>tables := h\<rparr>) q = pte_of k q"
    by (rule pte_get_entry_ok [OF Cons.prems(2) r Cons.prems(4,5), of p]) (rule that; assumption)
  let ?k = "k\<lparr>tables := h\<rparr>"
  let ?k1 = "if unat f < 32 then ?k\<lparr>mram := snd (MEMPHY_put_freefp (mram k) f)\<rparr>
    else ?k\<lparr>active_mswp := snd (MEMPHY_put_freefp (active_mswp k) (drop_bit 5 f))\<rparr>"
  have step: "free_loop (p # ps) k = free_loop ps ?k1"
    using h(1) fs(2) online_present [of 0 f] online_FPN [OF fs(3), of 0] online_SWP [OF fs(3)]
    by (simp del: PAGE_PRESENT_bit)
  have same: "pte_of ?k1 = pte_of k" "wf_dir ?k1" "room ?k1 = room ?k" "mm ?k1 = Some m"
    using h(2,4) Cons.prems(4) by (auto simp: pte_of_def wf_dir_def room_def fun_eq_iff)
  have "maps_frames ?k1 ps fs'" using fs(4) same(1) by (simp add: maps_frames_def)
  moreover have "4 * length ps \<le> room ?k1" using same(3) h(3) Cons.prems(3) by simp
  ultimately obtain k' where k': "free_loop ps ?k1 = Some k'" "mm k' = Some m"
    "free_fp_list (mram k') = rev (filter (\<lambda>f. unat f < 32) fs') @ free_fp_list (mram ?k1)"
    "free_fp_list (active_mswp k') =
      rev (map (drop_bit 5) (filter (\<lambda>f. 32 \<le> unat f) fs')) @ free_fp_list (active_mswp ?k1)"
    using Cons.IH [OF _ same(2) _ same(4) Cons.prems(5)] by blast
  with step fs(1) show ?case by (simp add: pool.put_frames)
qed

text \<open>Without the five roots every entry reads as 0, and nothing is given back.\<close>

lemma free_loop_NULL: "mm k = Some m \<Longrightarrow> \<not> has_roots m \<Longrightarrow> free_loop ps k = Some k"
  by (induction ps) (simp_all add: pte_get_entry_NULL)

text \<open>
  C36: what free_pcb_memph gives back. In an address space whose five roots, mm->pt among them, are set, and whose listed
  pages are mapped to frames by pte_set_fpn, it succeeds, empties the list and gives the frames below 32 back
  to the RAM, but it takes every frame from 32 on for a swapped page, because the swap
  offset field overlaps the frame number, and puts the frame number divided by 32 on the
  free list of the swap device; those frames of the RAM are lost. In an address space with a root that is not set, such as
  every one that init_mm makes, whose mm->pt is NULL, it succeeds and empties the list, but gives no frame back at
  all and changes nothing else: every entry reads as 0.
\<close>
theorem free_pcb_memph_pools:
  assumes "mm k = Some m"
  shows "(has_roots m \<and> wf_dir k \<and> maps_frames k (fifo_pgn m) fs \<and> 4 * length (fifo_pgn m) \<le> room k \<longrightarrow>
      (\<exists>k'. free_pcb_memph k = Some (0, k') \<and> mm k' = Some (m\<lparr>fifo_pgn := []\<rparr>) \<and>
        free_fp_list (mram k') = rev (filter (\<lambda>f. unat f < 32) fs) @ free_fp_list (mram k) \<and>
        free_fp_list (active_mswp k') =
          rev (map (drop_bit 5) (filter (\<lambda>f. 32 \<le> unat f) fs)) @ free_fp_list (active_mswp k))) \<and>
    (\<not> has_roots m \<longrightarrow> free_pcb_memph k = Some (0, k\<lparr>mm := Some (m\<lparr>fifo_pgn := []\<rparr>)\<rparr>))"
  using free_loop_ok [of k "fifo_pgn m" fs m] free_loop_NULL [of k m "fifo_pgn m"] assms
  by (auto simp: free_pcb_memph_def)

lemma demo_two_mapped:
  obtains k where "mm k = Some (paged_mm [3, 4])" "wf_dir k" "8 \<le> room k" "maps_frames k [3, 4] [7, 69]"
    "free_fp_list (mram k) = []" "free_fp_list (active_mswp k) = [4]"
proof -
  have up: "[0..<2] = [0, 1 :: nat]" by code_simp
  have v: "mappings [7, 69] 0x3000 0 = [(\<lambda>e. pte_online e 7, 3), (\<lambda>e. pte_online e 69, 4)]"
    by (simp add: mappings_def up vpage_def PAGING64_PAGESZ_def numeral_2_eq_2 [symmetric])
  have len: "4 * length [7 :: u64, 69] \<le> room (paged_krnl [3, 4])" "length [7 :: u64, 69] < 2 ^ 45"
    using paged_krnl_simps(3) [of "[3, 4]"] by simp_all
  obtain h where h: "wf_dir ((paged_krnl [3, 4])\<lparr>tables := h\<rparr>)"
    "room (paged_krnl [3, 4]) \<le> room ((paged_krnl [3, 4])\<lparr>tables := h\<rparr>) + 4 * length [7 :: u64, 69]"
    "\<And>i. i < length [7 :: u64, 69] \<Longrightarrow> pte_of ((paged_krnl [3, 4])\<lparr>tables := h\<rparr>) (vpage 0x3000 i) =
      pte_online (pte_of (paged_krnl [3, 4]) (vpage 0x3000 i)) ([7, 69] ! i)"
    by (rule upd_all_mappings [OF paged_krnl_simps(2) len, of "0x3000"]) (rule that; assumption)
  have "vpage 0x3000 0 = 3" "vpage 0x3000 1 = 4" by (simp_all add: vpage_def PAGING64_PAGESZ_def)
  with h(3) [of 0] h(3) [of 1] have m: "maps_frames ((paged_krnl [3, 4])\<lparr>tables := h\<rparr>) [3, 4] [7, 69]"
    by (simp add: maps_frames_def paged_krnl_simps)
  have "room (paged_krnl [3, 4]) \<le> room ((paged_krnl [3, 4])\<lparr>tables := h\<rparr>) + 8" using h(2) by simp
  then have "8 \<le> room ((paged_krnl [3, 4])\<lparr>tables := h\<rparr>)"
    using paged_krnl_simps(3) [of "[3, 4]"] by linarith
  from that [OF _ h(1) this m] show thesis by (simp add: paged_krnl_simps demo_mem_def)
qed

theorem free_pcb_memph_pools_witness:
  "\<exists>k k' k0 k1. free_pcb_memph k = Some (0, k') \<and> free_fp_list (mram k') = [7] \<and>
     free_fp_list (active_mswp k') = [2, 4] \<and>
     mm k0 = Some ((demo_mm 0)\<lparr>fifo_pgn := [3, 4]\<rparr>) \<and> free_pcb_memph k0 = Some (0, k1) \<and>
     free_fp_list (mram k1) = free_fp_list (mram k0)"
proof -
  obtain k where k: "mm k = Some (paged_mm [3, 4])" "wf_dir k" "8 \<le> room k" "maps_frames k [3, 4] [7, 69]"
    "free_fp_list (mram k) = []" "free_fp_list (active_mswp k) = [4]" by (rule demo_two_mapped)
  let ?m = "(demo_mm 0)\<lparr>fifo_pgn := [3, 4]\<rparr>" and ?k0 = "(demo_krnl 0)\<lparr>mm := Some ((demo_mm 0)\<lparr>fifo_pgn := [3, 4]\<rparr>)\<rparr>"
  have "free_pcb_memph ?k0 = Some (0, ?k0\<lparr>mm := Some (?m\<lparr>fifo_pgn := []\<rparr>)\<rparr>)"
    using free_pcb_memph_pools [of ?k0 ?m "[]"] by (simp add: has_roots_def demo_mm_def)
  then have "mm ?k0 = Some ?m \<and> free_pcb_memph ?k0 = Some (0, ?k0\<lparr>mm := Some (?m\<lparr>fifo_pgn := []\<rparr>)\<rparr>) \<and>
      free_fp_list (mram (?k0\<lparr>mm := Some (?m\<lparr>fifo_pgn := []\<rparr>)\<rparr>)) = free_fp_list (mram ?k0)" by simp
  moreover from free_pcb_memph_pools [of k "paged_mm [3, 4]" "[7, 69]"] k
  have "\<exists>k'. free_pcb_memph k = Some (0, k') \<and> free_fp_list (mram k') = [7] \<and> free_fp_list (active_mswp k') = [2, 4]"
    by (auto simp: paged_krnl_simps)
  ultimately show ?thesis by blast
qed

end
