(* ===== verification/Mem.thy ===== *)
theory Mem
  imports Process
begin

text \<open>
  The legacy memory of \<open>src/mem.c\<close>: a byte array, a status word for each of its 1024 pages,
  and a two-level page table in the process. It is compiled into the program and used by
  the CPU when \<open>MM_PAGING\<close> is off. The comments say that it is obsolete, and it is
  unfinished: \<open>translate\<close> never writes the physical address, so the address its callers go
  on to use is whatever their local variable held; that value is the argument \<open>pa\<close>.
\<close>

section \<open>State\<close>

definition ADDRESS_SIZE :: nat where "ADDRESS_SIZE = 20"
definition OFFSET_LEN :: nat where "OFFSET_LEN = 10"
definition PAGE_LEN :: nat where "PAGE_LEN = 5"
definition NUM_PAGES :: nat where "NUM_PAGES = 2 ^ (ADDRESS_SIZE - OFFSET_LEN)"
definition PAGE_SIZE :: u32 where "PAGE_SIZE = push_bit OFFSET_LEN 1"
definition RAM_SIZE :: nat where "RAM_SIZE = 2 ^ ADDRESS_SIZE"

record mem_stat =
  st_proc :: u32
  st_index :: int
  st_next :: int

record mem_t =
  ram :: "byte list"
  mem_stats :: "mem_stat list"

definition init_mem :: mem_t where
  "init_mem = \<lparr>ram = replicate RAM_SIZE 0,
     mem_stats = replicate NUM_PAGES \<lparr>st_proc = 0, st_index = 0, st_next = 0\<rparr>\<rparr>"

section \<open>Addresses\<close>

definition get_offset :: "u64 \<Rightarrow> u64" where
  "get_offset addr = addr AND ucast (NOT (push_bit OFFSET_LEN (NOT 0 :: u32)))"

definition get_first_lv :: "u64 \<Rightarrow> u64" where
  "get_first_lv addr = drop_bit (OFFSET_LEN + PAGE_LEN) addr"

definition get_second_lv :: "u64 \<Rightarrow> u64" where
  "get_second_lv addr = drop_bit OFFSET_LEN addr - push_bit PAGE_LEN (get_first_lv addr)"

text \<open>The loops of \<open>get_trans_table\<close> and \<open>translate\<close> over the indices below \<open>size\<close>.\<close>

primrec trans_loop ::
  "u64 \<Rightarrow> (u64 \<times> trans_table_t option) list \<Rightarrow> nat list \<Rightarrow> trans_table_t option option" where
  "trans_loop index rows [] = Some None"
| "trans_loop index rows (i # is) =
     do { (v_index, next_lv) \<leftarrow> rd rows i;
          if v_index = index then Some next_lv else trans_loop index rows is }"

definition get_trans_table :: "u64 \<Rightarrow> page_table_t \<Rightarrow> trans_table_t option option" where
  "get_trans_table index t = trans_loop index (prows t) [0..<nat (psize t)]"

primrec second_loop :: "u64 \<Rightarrow> (u64 \<times> u64) list \<Rightarrow> nat list \<Rightarrow> int option" where
  "second_loop second_lv rows [] = Some 0"
| "second_loop second_lv rows (i # is) =
     do { (v_index, _) \<leftarrow> rd rows i;
          if v_index = second_lv then Some 1 else second_loop second_lv rows is }"

definition translate :: "u64 \<Rightarrow> pcb_t \<Rightarrow> int option" where
  "translate virtual_addr p =
     do { trans_table \<leftarrow> get_trans_table (get_first_lv virtual_addr) (page_table p);
          case trans_table of
            None \<Rightarrow> Some 0
          | Some t \<Rightarrow> second_loop (get_second_lv virtual_addr) (trows t) [0..<nat (tsize t)] }"

section \<open>Operations\<close>

text \<open>\<open>alloc_mem\<close>: \<open>mem_avail\<close> is the constant 0.\<close>

definition alloc_mem :: "u32 \<Rightarrow> pcb_t \<Rightarrow> u64 \<times> pcb_t" where
  "alloc_mem sz p =
     (let num_pages = (if sz mod PAGE_SIZE \<noteq> 0 then sz div PAGE_SIZE else sz div PAGE_SIZE + 1);
          mem_avail = 0 :: int
      in if mem_avail \<noteq> 0 then (ucast (bp p), p\<lparr>bp := bp p + num_pages * PAGE_SIZE\<rparr>) else (0, p))"

definition free_mem :: "u64 \<Rightarrow> pcb_t \<Rightarrow> int" where
  "free_mem address p = 0"

definition read_mem :: "mem_t \<Rightarrow> u64 \<Rightarrow> pcb_t \<Rightarrow> byte \<Rightarrow> u64 \<Rightarrow> (int \<times> byte) option" where
  "read_mem m address p data pa =
     do { r \<leftarrow> translate address p;
          if r \<noteq> 0 then do { b \<leftarrow> rd (ram m) (unat pa); Some (0, b) } else Some (1, data) }"

definition write_mem :: "mem_t \<Rightarrow> u64 \<Rightarrow> pcb_t \<Rightarrow> byte \<Rightarrow> u64 \<Rightarrow> (int \<times> mem_t) option" where
  "write_mem m address p data pa =
     do { r \<leftarrow> translate address p;
          if r \<noteq> 0 then do { bs \<leftarrow> wr (ram m) (unat pa) data; Some (0, m\<lparr>ram := bs\<rparr>) } else Some (1, m) }"

text \<open>\<open>dump\<close>: for each page in use its status and its non-zero bytes; the inner loop stops one
  byte before the end of the page.\<close>

definition dump_bytes :: "mem_t \<Rightarrow> nat \<Rightarrow> (nat \<times> byte) list" where
  "dump_bytes m i =
     map (\<lambda>j. (j, ram m ! j))
       (filter (\<lambda>j. ram m ! j \<noteq> 0) [i * 2 ^ OFFSET_LEN..<(i + 1) * 2 ^ OFFSET_LEN - 1])"

definition dump :: "mem_t \<Rightarrow> (nat \<times> mem_stat \<times> (nat \<times> byte) list) list" where
  "dump m =
     map (\<lambda>i. (i, mem_stats m ! i, dump_bytes m i))
       (filter (\<lambda>i. st_proc (mem_stats m ! i) \<noteq> 0) [0..<NUM_PAGES])"

section \<open>Properties\<close>

text \<open>
  The split of a legacy address loses nothing: the address is its first-level index times
  32768 plus its second-level index times 1024 plus its offset, the second-level index is
  below 32 and the offset below 1024.
\<close>
lemma legacy_address_split:
  "unat addr = unat (get_first_lv addr) * 2 ^ 15 + unat (get_second_lv addr) * 2 ^ 10 + unat (get_offset addr) \<and>
   unat (get_second_lv addr) < 32 \<and> unat (get_offset addr) < 1024"
proof -
  let ?n = "unat addr"
  have 1: "unat (get_first_lv addr) = ?n div 2 ^ 15"
    by (simp add: get_first_lv_def OFFSET_LEN_def PAGE_LEN_def unat_drop_bit)
  have "get_offset addr = take_bit 10 addr"
    by (rule bit_word_eqI) (auto simp: get_offset_def OFFSET_LEN_def bit_simps)
  then have 3: "unat (get_offset addr) = ?n mod 2 ^ 10" by (simp add: unat_take_bit)
  have "get_second_lv addr = take_bit 5 (drop_bit 10 addr)"
  proof -
    have "push_bit 5 (drop_bit 15 addr) + take_bit 5 (drop_bit 10 addr) = drop_bit 10 addr"
      using bits_ident [of 5 "drop_bit 10 addr"] by simp
    then show ?thesis
      by (simp add: get_second_lv_def get_first_lv_def OFFSET_LEN_def PAGE_LEN_def algebra_simps)
  qed
  then have 2: "unat (get_second_lv addr) = ?n div 2 ^ 10 mod 2 ^ 5"
    by (simp add: unat_take_bit unat_drop_bit)
  have c: "?n div 2 ^ 15 = ?n div 2 ^ 10 div 2 ^ 5"
    by (simp add: div_mult2_eq [symmetric] flip: power_add)
  have "?n = (?n div 2 ^ 10 div 2 ^ 5 * 2 ^ 5 + ?n div 2 ^ 10 mod 2 ^ 5) * 2 ^ 10 + ?n mod 2 ^ 10"
    by (simp only: div_mult_mod_eq)
  also have "\<dots> = ?n div 2 ^ 10 div 2 ^ 5 * 2 ^ 15 + ?n div 2 ^ 10 mod 2 ^ 5 * 2 ^ 10 + ?n mod 2 ^ 10"
    by (simp only: distrib_right mult.assoc flip: power_add) simp
  finally show ?thesis unfolding 1 2 3 c by simp
qed

text \<open>The loops on tables whose sizes stay inside their arrays.\<close>

definition wf_table :: "page_table_t \<Rightarrow> bool" where
  "wf_table t \<longleftrightarrow> nat (psize t) \<le> length (prows t) \<and>
     (\<forall>r\<in>set (prows t). \<forall>tt. snd r = Some tt \<longrightarrow> nat (tsize tt) \<le> length (trows tt))"

lemma trans_loop_eq:
  "\<forall>i\<in>set is. i < length rows \<Longrightarrow>
     trans_loop index rows is =
       Some (case find (\<lambda>r. fst r = index) (map ((!) rows) is) of None \<Rightarrow> None | Some r \<Rightarrow> snd r)"
  by (induction "is") (auto simp: rd_in case_prod_beta)

lemma second_loop_eq:
  "\<forall>i\<in>set is. i < length rows \<Longrightarrow>
     second_loop ix rows is = Some (if ix \<in> fst ` set (map ((!) rows) is) then 1 else 0)"
  by (induction "is") (auto simp: rd_in case_prod_beta)

lemma map_nth_take: "n \<le> length xs \<Longrightarrow> map ((!) xs) [0..<n] = take n xs"
  by (rule nth_equalityI) auto

definition first_row :: "pcb_t \<Rightarrow> u64 \<Rightarrow> trans_table_t option" where
  "first_row p addr =
     (case find (\<lambda>r. fst r = get_first_lv addr) (take (nat (psize (page_table p))) (prows (page_table p)))
      of None \<Rightarrow> None | Some r \<Rightarrow> snd r)"

text \<open>
  On a process whose table sizes stay inside their arrays, translate always returns: it
  gives 1 exactly when the first row with the address's first-level index leads to a table
  that has a row with its second-level index. It is total, but it never yields an address.
\<close>
lemma translate_decides:
  assumes "wf_table (page_table p)"
  shows "translate addr p = Some (case first_row p addr of None \<Rightarrow> 0
    | Some t \<Rightarrow> if get_second_lv addr \<in> fst ` set (take (nat (tsize t)) (trows t)) then 1 else 0)"
proof -
  let ?t = "page_table p"
  have n: "nat (psize ?t) \<le> length (prows ?t)" using assms by (simp add: wf_table_def)
  then have 1: "get_trans_table (get_first_lv addr) ?t = Some (first_row p addr)"
    by (simp add: get_trans_table_def trans_loop_eq map_nth_take first_row_def)
  show ?thesis
  proof (cases "first_row p addr")
    case None
    with 1 show ?thesis by (simp add: translate_def)
  next
    case (Some t)
    then obtain r where "find (\<lambda>r. fst r = get_first_lv addr) (take (nat (psize ?t)) (prows ?t)) = Some r"
      "snd r = Some t" by (auto simp: first_row_def split: option.splits)
    then have "r \<in> set (prows ?t)" by (auto simp: find_Some_iff dest!: in_set_takeD nth_mem)
    with \<open>snd r = Some t\<close> assms have "nat (tsize t) \<le> length (trows t)" by (auto simp: wf_table_def)
    with 1 Some show ?thesis by (simp add: translate_def second_loop_eq map_nth_take)
  qed
qed

definition legacy_pcb :: pcb_t where
  "legacy_pcb = \<lparr>pid = 1, priority = 0, path = [], code = \<lparr>ctext = [], csize = 0\<rparr>, regs = replicate 10 0,
     pc = 0, prio = 0, page_table = \<lparr>prows = [(0, Some \<lparr>trows = [(3, 9)], tsize = 1\<rparr>)], psize = 1\<rparr>, bp = 1024\<rparr>"

lemma wf_legacy_pcb: "wf_table (page_table legacy_pcb)"
  by (simp add: wf_table_def legacy_pcb_def)

lemma translate_decides_witness: "translate 3073 legacy_pcb = Some 1 \<and> translate 4097 legacy_pcb = Some 0"
  using translate_decides [OF wf_legacy_pcb, of 3073] translate_decides [OF wf_legacy_pcb, of 4097]
  by (simp add: legacy_pcb_def first_row_def get_first_lv_def get_second_lv_def OFFSET_LEN_def PAGE_LEN_def)

end
