(* ===== verification/Cpu.thy ===== *)
theory Cpu
  imports Libmem Mem
begin

text \<open>
  The CPU, \<open>src/cpu.c\<close>: \<open>run\<close> executes one instruction of a process. The instructions
  \<open>alloc\<close>, \<open>free_data\<close>, \<open>read\<close> and \<open>write\<close> on the legacy memory are compiled but not called
  in this configuration (\<open>MM_PAGING\<close> is defined); they are \<open>cpu_alloc\<close>, \<open>cpu_free_data\<close>,
  \<open>cpu_read\<close> and \<open>cpu_write\<close> here.
\<close>

section \<open>Instructions\<close>

definition calc :: "pref \<Rightarrow> int" where
  "calc proc = 0"

definition cpu_alloc :: "pcb_t \<Rightarrow> u32 \<Rightarrow> u32 \<Rightarrow> (int \<times> pcb_t) option" where
  "cpu_alloc p sz reg_index =
     (let (addr, p) = alloc_mem sz p
      in if addr = 0 then Some (1, p)
         else do { rs \<leftarrow> wr (regs p) (unat reg_index) addr; Some (0, p\<lparr>regs := rs\<rparr>) })"

definition cpu_free_data :: "pcb_t \<Rightarrow> u32 \<Rightarrow> int option" where
  "cpu_free_data p reg_index = do { a \<leftarrow> rd (regs p) (unat reg_index); Some (free_mem a p) }"

text \<open>\<open>data\<close> and \<open>pa\<close> are the uninitialised variables of \<open>read\<close> and \<open>read_mem\<close>.\<close>

definition cpu_read :: "mem_t \<Rightarrow> pcb_t \<Rightarrow> u32 \<Rightarrow> u32 \<Rightarrow> u32 \<Rightarrow> byte \<Rightarrow> u64 \<Rightarrow> (int \<times> pcb_t) option" where
  "cpu_read m p source offset destination data pa =
     do { a \<leftarrow> rd (regs p) (unat source);
          (r, data) \<leftarrow> read_mem m (a + ucast offset) p data pa;
          if r \<noteq> 0
          then do { rs \<leftarrow> wr (regs p) (unat destination) (byte_to_u64 data); Some (0, p\<lparr>regs := rs\<rparr>) }
          else Some (1, p) }"

definition cpu_write :: "mem_t \<Rightarrow> pcb_t \<Rightarrow> byte \<Rightarrow> u32 \<Rightarrow> u32 \<Rightarrow> u64 \<Rightarrow> (int \<times> mem_t) option" where
  "cpu_write m p data destination offset pa =
     do { a \<leftarrow> rd (regs p) (unat destination); write_mem m (a + ucast offset) p data pa }"

text \<open>\<open>int run(proc)\<close>. \<open>v\<close> and \<open>junk\<close> are the uninitialised variables of the functions it calls.
  READ writes its result to \<open>ins.arg_2\<close>, a field of the local copy of the instruction.\<close>

definition set_pcb :: "pref \<Rightarrow> pcb_t \<Rightarrow> sys_t \<Rightarrow> sys_t" where
  "set_pcb proc p s = s\<lparr>procs := (procs s)(proc \<mapsto> p)\<rparr>"

definition run :: "byte \<Rightarrow> vm_rg_struct \<Rightarrow> sys_t \<Rightarrow> pref \<Rightarrow> (int \<times> sys_t) option" where
  "run v junk s proc =
     do { p \<leftarrow> procs s proc;
          if csize (code p) \<le> pc p then Some (1, s)
          else
            do { ins \<leftarrow> rd (ctext (code p)) (unat (pc p));
                 let s = set_pcb proc (p\<lparr>pc := pc p + 1\<rparr>) s;
                 case opcode ins of
                   CALC \<Rightarrow> Some (calc proc, s)
                 | ALLOC \<Rightarrow> liballoc v junk s proc (arg_0 ins) (ucast (arg_1 ins))
                 | FREE \<Rightarrow> libfree s proc (ucast (arg_0 ins))
                 | READ \<Rightarrow>
                     do { (stat, _, s) \<leftarrow> libread v s proc (ucast (arg_0 ins)) (arg_1 ins); Some (stat, s) }
                 | WRITE \<Rightarrow> libwrite v s proc (ucast (arg_0 ins)) (ucast (arg_1 ins)) (arg_2 ins)
                 | SYSCALL \<Rightarrow> libsyscall v s proc (ucast (arg_0 ins)) (arg_1 ins) (arg_2 ins) (arg_3 ins) } }"

section \<open>What the library calls leave alone\<close>

lemma lib_print_rest: "lib_print f s = Some s' \<Longrightarrow> procs s' = procs s \<and> sched s' = sched s"
  by (auto simp: lib_print_def emit_def bind_eq_Some_conv)

lemma alloc_rg_procs: "alloc_rg v junk s c vmaid rgid sz = Some (r, ad, s') \<Longrightarrow> procs s' = procs s"
  by (auto simp: alloc_rg_def bind_eq_Some_conv Let_def dest!: syscall_procs split: if_splits)

lemma liballoc_procs: "liballoc v junk s c sz rgid = Some (r, s') \<Longrightarrow> procs s' = procs s"
  by (auto simp: liballoc_def bind_eq_Some_conv dest!: alloc_rg_procs lib_print_rest split: if_splits)

lemma libfree_procs: "libfree s c rgid = Some (r, s') \<Longrightarrow> procs s' = procs s"
  by (auto simp: libfree_def bind_eq_Some_conv dest!: lib_print_rest split: if_splits)

lemma libread_procs: "libread v s c src off = Some (r, d, s') \<Longrightarrow> procs s' = procs s"
  by (auto simp: libread_def bind_eq_Some_conv dest!: lib_print_rest split: if_splits)

lemma libwrite_procs:
  assumes "libwrite v s c b dst off = Some (r, s')"
  shows "procs s' = procs s"
proof -
  from assms obtain val k where w: "write_rg (krnl s) 0 dst off b = Some (val, k)"
    by (auto simp: libwrite_def bind_eq_Some_conv)
  show ?thesis
  proof (cases "val = - 1")
    case True
    with assms w show ?thesis by (auto simp: libwrite_def)
  next
    case False
    with assms w obtain s1 where "lib_print ''libwrite'' (s\<lparr>krnl := k\<rparr>) = Some s1" "procs s' = procs s1"
      by (auto simp: libwrite_def bind_eq_Some_conv emit_def)
    with lib_print_rest show ?thesis by fastforce
  qed
qed

lemma libsyscall_procs: "libsyscall v s c i x y z = Some (r, s') \<Longrightarrow> procs s' = procs s"
  by (auto simp: libsyscall_def bind_eq_Some_conv dest!: syscall_procs)

lemmas lib_procs = liballoc_procs libfree_procs libread_procs libwrite_procs libsyscall_procs

text \<open>The two cases of \<open>run\<close>: the program is over, or an instruction is executed.\<close>

lemma run_cases [case_names over calc alloc free read wr sys]:
  assumes "run v junk s proc = Some (r, s')" "procs s proc = Some p"
  obtains "csize (code p) \<le> pc p" "r = 1" "s' = s"
  | "pc p < csize (code p)" "r = 0" "s' = set_pcb proc (p\<lparr>pc := pc p + 1\<rparr>) s"
  | x i where "pc p < csize (code p)"
      "liballoc v junk (set_pcb proc (p\<lparr>pc := pc p + 1\<rparr>) s) proc x i = Some (r, s')"
  | i where "pc p < csize (code p)"
      "libfree (set_pcb proc (p\<lparr>pc := pc p + 1\<rparr>) s) proc i = Some (r, s')"
  | i off d where "pc p < csize (code p)"
      "libread v (set_pcb proc (p\<lparr>pc := pc p + 1\<rparr>) s) proc i off = Some (r, d, s')"
  | b i off where "pc p < csize (code p)"
      "libwrite v (set_pcb proc (p\<lparr>pc := pc p + 1\<rparr>) s) proc b i off = Some (r, s')"
  | n x y z where "pc p < csize (code p)"
      "libsyscall v (set_pcb proc (p\<lparr>pc := pc p + 1\<rparr>) s) proc n x y z = Some (r, s')"
proof (cases "csize (code p) \<le> pc p")
  case True
  with assms that(1) show thesis by (simp add: run_def)
next
  case False
  with assms obtain ins where i: "rd (ctext (code p)) (unat (pc p)) = Some ins"
    by (auto simp: run_def bind_eq_Some_conv)
  have lt: "pc p < csize (code p)" using False by simp
  from assms i False show thesis
  proof (cases "opcode ins")
    case READ
    with assms i False obtain d where
      "libread v (set_pcb proc (p\<lparr>pc := pc p + 1\<rparr>) s) proc (ucast (arg_0 ins)) (arg_1 ins) = Some (r, d, s')"
      by (auto simp: run_def bind_eq_Some_conv)
    from that(5) [OF lt this] show thesis .
  qed (auto simp: run_def calc_def intro: lt that)
qed

lemma run_procs:
  assumes "run v junk s proc = Some (r, s')" "procs s proc = Some p"
  shows "procs s' = (if csize (code p) \<le> pc p then procs s
    else (procs s)(proc \<mapsto> p\<lparr>pc := pc p + 1\<rparr>))"
proof -
  have "procs (set_pcb proc (p\<lparr>pc := pc p + 1\<rparr>) s) = (procs s)(proc \<mapsto> p\<lparr>pc := pc p + 1\<rparr>)"
    by (simp add: set_pcb_def)
  with assms show ?thesis
    by (cases rule: run_cases) (auto simp: not_le dest!: lib_procs)
qed

section \<open>Invariants of execution\<close>

lemma vmap_pgd_memset_frame: "vmap_pgd_memset k a n = Some (r, k') \<Longrightarrow> \<exists>h. k' = k\<lparr>tables := h\<rparr>"
  by (cases k) (auto simp: vmap_pgd_memset_def bind_eq_Some_conv split: if_splits)

lemma inert_frame: "inert k \<Longrightarrow> mm k' = mm k \<Longrightarrow> inert k'"
  by (simp add: inert_def)

lemma sys_memmap_inert:
  assumes "sys_memmap v s pd r = Some (x, r', s')" "inert (krnl s)"
  shows "inert (krnl s')"
proof -
  from assms(1) obtain c s1 where c: "find_caller s pd = Some (c, s1)"
    by (auto simp: sys_memmap_def bind_eq_Some_conv)
  have i: "inert (krnl s1)" using find_caller_krnl [OF c] assms(2) by simp
  show ?thesis
    using assms(1) c i inc_vma_limit_frame [OF _ i]
    by (auto simp: sys_memmap_def emit_def mm_swap_page_def Let_def bind_eq_Some_conv
        dest!: vmap_pgd_memset_frame intro: inert_frame split: if_splits)
qed

lemma syscall_inert:
  assumes "syscall v s pd nr r = Some (x, r', s')" "inert (krnl s)"
  shows "inert (krnl s')"
proof -
  have "inert (krnl s')" if "sys_xxxhandler s pd r = Some (x, r', s')"
  proof -
    from that obtain c s1 where c: "find_caller s pd = Some (c, s1)"
      by (auto simp: sys_xxxhandler_def bind_eq_Some_conv)
    with sys_xxxhandler_frame [OF c that] find_caller_krnl [OF c] assms(2) show ?thesis by simp
  qed
  then show ?thesis using assms sys_memmap_inert [of v s pd r x r' s']
    by (auto simp: syscall_def sys_ni_syscall_def sys_listsyscall_def emit_def
        split: option.splits handler.splits)
qed

lemma liballoc_inert: "liballoc v junk s p sz rgid = Some (r, s') \<Longrightarrow> inert (krnl s) \<Longrightarrow> inert (krnl s')"
  by (auto simp: liballoc_def bind_eq_Some_conv split: if_splits dest!: lib_print_frame alloc_rg_frame)

lemma libfree_inert: "libfree s p rgid = Some (r, s') \<Longrightarrow> inert (krnl s) \<Longrightarrow> inert (krnl s')"
  by (auto simp: libfree_def bind_eq_Some_conv split: if_splits dest!: lib_print_frame free_rg_frame)

lemma libread_inert: "libread v s p i off = Some (r, d, s') \<Longrightarrow> inert (krnl s) \<Longrightarrow> inert (krnl s')"
  by (auto simp: libread_def bind_eq_Some_conv dest!: lib_print_frame read_rg_inert [rotated])

lemma libwrite_inert:
  assumes "libwrite v s p b i off = Some (r, s')" "inert (krnl s)"
  shows "inert (krnl s')"
proof -
  from assms(1) obtain val k where w: "write_rg (krnl s) 0 i off b = Some (val, k)"
    by (auto simp: libwrite_def bind_eq_Some_conv)
  note k = write_rg_inert [OF assms(2) w]
  show ?thesis
  proof (cases "val = - 1")
    case True
    with assms w k show ?thesis by (auto simp: libwrite_def)
  next
    case False
    with assms(1) w obtain s1 where "lib_print ''libwrite'' (s\<lparr>krnl := k\<rparr>) = Some s1"
      "mm (krnl s') = mm (krnl s1)"
      by (auto simp: libwrite_def bind_eq_Some_conv emit_def)
    with lib_print_frame [of "''libwrite''" "s\<lparr>krnl := k\<rparr>" s1] k assms(2) show ?thesis
      by (auto intro: inert_frame)
  qed
qed

lemma libsyscall_inert: "libsyscall v s p n x y z = Some (r, s') \<Longrightarrow> inert (krnl s) \<Longrightarrow> inert (krnl s')"
  by (auto simp: libsyscall_def bind_eq_Some_conv dest!: syscall_inert)

lemmas lib_inert = liballoc_inert libfree_inert libread_inert libwrite_inert libsyscall_inert

lemma set_pcb_simps [simp]: "krnl (set_pcb p b s) = krnl s" "sched (set_pcb p b s) = sched s"
  "procs (set_pcb p b s) = (procs s)(p \<mapsto> b)"
  by (simp_all add: set_pcb_def)

lemma run_inert:
  assumes "run v junk s proc = Some (r, s')" "procs s proc = Some p" "inert (krnl s)"
  shows "inert (krnl s')"
  using assms(1,2) by (cases rule: run_cases) (use assms(3) in \<open>auto dest!: lib_inert\<close>)

text \<open>The scheduler: only the order of the running list can change.\<close>

definition same_queues :: "sys_t \<Rightarrow> sys_t \<Rightarrow> bool" where
  "same_queues s s' \<longleftrightarrow> rl_ok s' \<and> (\<exists>rl. sched s' = (sched s)\<lparr>running_list := rl\<rparr> \<and>
     mset (contents rl) = mset (contents (running_list (sched s))))"

lemma same_queues_same:
  assumes "rl_ok s" "sched s' = sched s" "dom (procs s) \<subseteq> dom (procs s')"
  shows "same_queues s s'"
proof -
  have "all_alive (procs s') (contents (running_list (sched s)))"
    using assms(1,3) unfolding rl_ok_def all_alive_def by (metis domD domI subsetD option.distinct(1) domIff)
  with assms(1,2) show ?thesis
    by (auto simp: same_queues_def rl_ok_def intro!: exI [of _ "running_list (sched s)"])
qed

lemma same_queues_trans:
  assumes "same_queues s s1" "same_queues s1 s2"
  shows "same_queues s s2"
proof -
  from assms(1) obtain rl where 1: "sched s1 = (sched s)\<lparr>running_list := rl\<rparr>"
    "mset (contents rl) = mset (contents (running_list (sched s)))" by (auto simp: same_queues_def)
  from assms(2) obtain rl' where 2: "sched s2 = (sched s1)\<lparr>running_list := rl'\<rparr>"
    "mset (contents rl') = mset (contents (running_list (sched s1)))" "rl_ok s2" by (auto simp: same_queues_def)
  have "sched s2 = (sched s)\<lparr>running_list := rl'\<rparr>" unfolding 2(1) 1(1) by (cases "sched s") simp
  moreover have "mset (contents rl') = mset (contents (running_list (sched s)))" using 1 2(2) by simp
  ultimately show ?thesis using 2(3) unfolding same_queues_def by blast
qed

lemma same_queues_rl: "same_queues s s' \<Longrightarrow> rl_ok s'"
  by (simp add: same_queues_def)

lemma syscall_queues: "rl_ok s \<Longrightarrow> syscall v s pd nr r = Some (x, r', s') \<Longrightarrow> same_queues s s'"
  using syscall_processes [of s v pd nr r x r' s'] by (auto simp: same_queues_def)

text \<open>
  What an instruction does to the scheduler is what its system calls do to it. The contract
  of a relation between the scheduler's states before and after: it holds when nothing
  changes and no process is freed, it composes, it keeps its own condition, and the system
  calls satisfy it. Then every library call and every instruction does.
\<close>

locale sched_relation =
  fixes ok :: "sys_t \<Rightarrow> bool" and rel :: "sys_t \<Rightarrow> sys_t \<Rightarrow> bool"
  assumes same: "ok s \<Longrightarrow> sched s' = sched s \<Longrightarrow> dom (procs s) \<subseteq> dom (procs s') \<Longrightarrow> rel s s'"
    and trans: "rel s s1 \<Longrightarrow> rel s1 s' \<Longrightarrow> rel s s'"
    and ok_after: "rel s s' \<Longrightarrow> ok s'"
    and syscall: "ok s \<Longrightarrow> syscall v s pd nr r = Some (x, r', s') \<Longrightarrow> rel s s'"
begin

lemma lib_print_rel: "ok s \<Longrightarrow> lib_print f s = Some s' \<Longrightarrow> rel s s'"
  using lib_print_rest [of f s s'] by (intro same) auto

lemma krnl_rel: "ok s \<Longrightarrow> rel s (s\<lparr>krnl := k\<rparr>)"
  by (rule same) auto

lemma alloc_rg_rel:
  assumes "alloc_rg v junk s c vmaid rgid sz = Some (r, ad, s')" "ok s"
  shows "rel s s'"
proof -
  from assms(1) obtain q rg k where g: "get_free_vmrg_area (krnl s) vmaid (u64_to_int sz) junk = Some (q, rg, k)"
    by (auto simp: alloc_rg_def bind_eq_Some_conv)
  show ?thesis
  proof (cases "q = 0")
    case True
    with assms(1) g obtain k2 where "s' = s\<lparr>krnl := k2\<rparr>"
      by (auto simp: alloc_rg_def bind_eq_Some_conv)
    with krnl_rel [OF assms(2)] show ?thesis by simp
  next
    case False
    with assms(1) g obtain x r0 rs s1 k2 and b :: pcb_t where
      sys: "syscall v (s\<lparr>krnl := k\<rparr>) (pid b) 17 r0 = Some (x, rs, s1)" and s': "s' = s1\<lparr>krnl := k2\<rparr>"
      by (auto simp: alloc_rg_def bind_eq_Some_conv Let_def)
    note 1 = krnl_rel [OF assms(2), of k]
    note 2 = syscall [OF ok_after [OF 1] sys]
    from trans [OF trans [OF 1 2] krnl_rel [OF ok_after [OF 2], of k2]] s'
    show ?thesis by simp
  qed
qed

lemma print_after_rel:
  assumes "rel s s1" "s' = s1 \<or> lib_print f s1 = Some s'"
  shows "rel s s'"
  using assms trans [OF assms(1) lib_print_rel [OF ok_after [OF assms(1)]]] by auto

lemma liballoc_rel:
  assumes "liballoc v junk s p sz rgid = Some (r, s')" "ok s"
  shows "rel s s'"
proof -
  from assms(1) obtain val ad s1 where 1: "alloc_rg v junk s p 0 rgid sz = Some (val, ad, s1)"
    "s' = s1 \<or> lib_print ''liballoc'' s1 = Some s'"
    by (auto simp: liballoc_def bind_eq_Some_conv split: if_splits)
  show ?thesis by (rule print_after_rel [OF alloc_rg_rel [OF 1(1) assms(2)] 1(2)])
qed

lemma libfree_rel:
  assumes "libfree s p rgid = Some (r, s')" "ok s"
  shows "rel s s'"
proof -
  from assms(1) obtain k where 1: "s' = s\<lparr>krnl := k\<rparr> \<or> lib_print ''libfree'' (s\<lparr>krnl := k\<rparr>) = Some s'"
    by (auto simp: libfree_def bind_eq_Some_conv split: if_splits)
  show ?thesis by (rule print_after_rel [OF krnl_rel [OF assms(2)] 1])
qed

lemma libread_rel:
  assumes "libread v s p i off = Some (r, d, s')" "ok s"
  shows "rel s s'"
proof -
  from assms(1) obtain k where 1: "lib_print ''libread'' (s\<lparr>krnl := k\<rparr>) = Some s'"
    by (auto simp: libread_def bind_eq_Some_conv)
  show ?thesis by (rule print_after_rel [OF krnl_rel [OF assms(2)] disjI2 [OF 1]])
qed

lemma libwrite_rel:
  assumes "libwrite v s p b i off = Some (r, s')" "ok s"
  shows "rel s s'"
proof -
  from assms(1) obtain val k where w: "write_rg (krnl s) 0 i off b = Some (val, k)"
    by (auto simp: libwrite_def bind_eq_Some_conv)
  show ?thesis
  proof (cases "val = - 1")
    case True
    with assms w krnl_rel [OF assms(2), of k] show ?thesis by (auto simp: libwrite_def)
  next
    case False
    with assms(1) w obtain s1 where 1: "lib_print ''libwrite'' (s\<lparr>krnl := k\<rparr>) = Some s1"
      "sched s' = sched s1" "procs s' = procs s1"
      by (auto simp: libwrite_def bind_eq_Some_conv emit_def)
    have q: "rel s s1" by (rule print_after_rel [OF krnl_rel [OF assms(2)] disjI2 [OF 1(1)]])
    have "rel s1 s'" by (rule same [OF ok_after [OF q] 1(2)]) (simp add: 1(3))
    with q show ?thesis by (rule trans)
  qed
qed

lemma libsyscall_rel: "libsyscall v s p n x y z = Some (r, s') \<Longrightarrow> ok s \<Longrightarrow> rel s s'"
  by (auto simp: libsyscall_def bind_eq_Some_conv intro: syscall)

lemmas lib_rel = liballoc_rel libfree_rel libread_rel libwrite_rel libsyscall_rel

lemma run_rel:
  assumes "run v junk s proc = Some (r, s')" "procs s proc = Some p" "ok s"
  shows "rel s s'"
proof -
  let ?s = "set_pcb proc (p\<lparr>pc := pc p + 1\<rparr>) s"
  have 1: "rel s ?s" by (rule same [OF assms(3)]) auto
  note ok = ok_after [OF 1]
  show ?thesis
  proof (use assms(1,2) in \<open>cases rule: run_cases\<close>)
    case over
    with same [OF assms(3), of s] show ?thesis by simp
  qed (use 1 in \<open>auto intro: trans [OF 1] lib_rel [OF _ ok]\<close>)
qed

end

interpretation queues: sched_relation rl_ok same_queues
  by unfold_locales (blast intro: same_queues_same same_queues_trans same_queues_rl syscall_queues)+

section \<open>Properties\<close>

text \<open>
  C20: one instruction preserves the system's invariants, whatever its opcode and arguments:
  from a state in which the running list is a well-formed queue of living processes and
  nothing is mapped, every call of run that returns leads to such a state, the scheduler's
  queues hold the same processes, and no process changes but the one that runs, of which
  only the program counter moves, by one, when its program is not over: no instruction
  ever writes a register.
\<close>
theorem run_invariants:
  assumes "rl_ok s" "inert (krnl s)" "procs s proc = Some p" "run v junk s proc = Some (r, s')"
  shows "rl_ok s' \<and> inert (krnl s') \<and> same_queues s s' \<and>
    procs s' = (if csize (code p) \<le> pc p then procs s else (procs s)(proc \<mapsto> p\<lparr>pc := pc p + 1\<rparr>))"
  using queues.run_rel [OF assms(4,3,1)] same_queues_rl run_inert [OF assms(4,3,2)] run_procs [OF assms(4,3)]
  by blast

text \<open>Repeated execution, and a program of CALC instructions.\<close>

primrec run_n :: "byte \<Rightarrow> vm_rg_struct \<Rightarrow> nat \<Rightarrow> sys_t \<Rightarrow> pref \<Rightarrow> sys_t option" where
  "run_n v junk 0 s proc = Some s"
| "run_n v junk (Suc n) s proc = do { (_, s) \<leftarrow> run v junk s proc; run_n v junk n s proc }"

definition at_pc :: "pcb_t \<Rightarrow> nat \<Rightarrow> pcb_t" where
  "at_pc p n = p\<lparr>pc := of_nat (min (unat (pc p) + n) (unat (csize (code p))))\<rparr>"

lemma min_u32: "min n (unat (c :: u32)) < 2 ^ 32"
  using unat_u32_less [of c] by (simp add: min_less_iff_disj)

lemma at_pc_0: "pc p \<le> csize (code p) \<Longrightarrow> at_pc p 0 = p"
  by (cases p) (simp add: at_pc_def word_le_nat_alt min_absorb1)

lemma at_pc_over: "csize (code p) \<le> pc p \<Longrightarrow> pc p \<le> csize (code p) \<Longrightarrow> at_pc p n = p"
  by (cases p) (simp add: at_pc_def min_absorb2)

lemma at_pc_step:
  assumes "pc p < csize (code p)"
  shows "at_pc (p\<lparr>pc := pc p + 1\<rparr>) n = at_pc p (Suc n)" and "pc p + 1 \<le> csize (code p)"
proof -
  have "unat (pc p) + 1 < 2 ^ 32" using assms unat_u32_less [of "csize (code p)"]
    by (simp add: word_less_nat_alt)
  then have u: "unat (pc p + 1) = unat (pc p) + 1" by (simp add: unat_word_ariths)
  then show "at_pc (p\<lparr>pc := pc p + 1\<rparr>) n = at_pc p (Suc n)" by (simp add: at_pc_def)
  show "pc p + 1 \<le> csize (code p)" using u assms by (simp add: word_le_nat_alt word_less_nat_alt)
qed

lemma run_n_procs:
  "run_n v junk n s proc = Some s' \<Longrightarrow> procs s proc = Some p \<Longrightarrow> pc p \<le> csize (code p) \<Longrightarrow>
     procs s' = (procs s)(proc \<mapsto> at_pc p n)"
proof (induction n arbitrary: s p)
  case 0
  then show ?case by (auto simp: at_pc_0 fun_upd_idem)
next
  case (Suc n)
  then obtain r s1 where 1: "run v junk s proc = Some (r, s1)" "run_n v junk n s1 proc = Some s'"
    by (auto simp: bind_eq_Some_conv)
  show ?case
  proof (cases "csize (code p) \<le> pc p")
    case True
    with run_procs [OF 1(1) Suc.prems(2)] have "procs s1 = procs s" by simp
    with Suc.IH [OF 1(2), of p] Suc.prems(2,3) True show ?thesis by (simp add: at_pc_over)
  next
    case False
    with run_procs [OF 1(1) Suc.prems(2)]
    have p1: "procs s1 = (procs s)(proc \<mapsto> p\<lparr>pc := pc p + 1\<rparr>)" by simp
    have lt: "pc p < csize (code p)" using False by simp
    from Suc.IH [OF 1(2), of "p\<lparr>pc := pc p + 1\<rparr>"] p1 at_pc_step [OF lt] show ?thesis by (auto simp: fun_eq_iff)
  qed
qed

text \<open>
  Execution ends: as long as no instruction is undefined, n calls of run advance the
  program counter by n but never beyond the end of the program; after as many calls as
  there are instructions left it is at the end, and from then on run returns 1 and does
  nothing.
\<close>
lemma run_reaches_end:
  assumes "procs s proc = Some p" "pc p \<le> csize (code p)" "run_n v junk n s proc = Some s'"
  shows "procs s' = (procs s)(proc \<mapsto> at_pc p n) \<and>
    (unat (csize (code p)) \<le> unat (pc p) + n \<longrightarrow> run v junk s' proc = Some (1, s'))"
proof -
  have p': "procs s' = (procs s)(proc \<mapsto> at_pc p n)" by (rule run_n_procs [OF assms(3,1,2)])
  have "unat (pc (at_pc p n)) = min (unat (pc p) + n) (unat (csize (code p)))"
    by (simp add: at_pc_def unat_u32_of_nat [OF min_u32])
  moreover have "code (at_pc p n) = code p" by (simp add: at_pc_def)
  ultimately have "unat (csize (code p)) \<le> unat (pc p) + n \<Longrightarrow> csize (code (at_pc p n)) \<le> pc (at_pc p n)"
    by (simp add: word_le_nat_alt)
  with p' show ?thesis by (auto simp: run_def)
qed

lemma run_calc:
  assumes "procs s proc = Some p" "pc p < csize (code p)" "unat (pc p) < length (ctext (code p))"
    and "opcode (ctext (code p) ! unat (pc p)) = CALC"
  shows "run v junk s proc = Some (0, set_pcb proc (p\<lparr>pc := pc p + 1\<rparr>) s)"
  using assms by (simp add: run_def rd_in calc_def not_le Let_def)

text \<open>
  A program of CALC instructions always runs to its end: every call of run is defined,
  after as many calls as there are instructions the program counter is at the end, and
  memory, queues and output are untouched.
\<close>
lemma calc_program_completes:
  assumes "procs s proc = Some p" "pc p \<le> csize (code p)" "unat (csize (code p)) \<le> length (ctext (code p))"
    and "\<forall>ins\<in>set (ctext (code p)). opcode ins = CALC" "unat (pc p) + n = unat (csize (code p))"
  shows "run_n v junk n s proc = Some (set_pcb proc (p\<lparr>pc := csize (code p)\<rparr>) s)"
  using assms
proof (induction n arbitrary: s p)
  case 0
  then have "pc p = csize (code p)" by (simp add: word_unat_eq_iff)
  then have "p\<lparr>pc := csize (code p)\<rparr> = p" by (cases p) simp
  moreover have "(procs s)(proc \<mapsto> p) = procs s" using 0(1) by (auto simp: fun_eq_iff)
  ultimately show ?case by (cases s) (simp add: set_pcb_def)
next
  case (Suc n)
  have lt: "pc p < csize (code p)" using Suc.prems(5) by (simp add: word_less_nat_alt)
  have i: "unat (pc p) < length (ctext (code p))" using Suc.prems(3,5) by linarith
  let ?p = "p\<lparr>pc := pc p + 1\<rparr>"
  from run_calc [OF Suc.prems(1) lt i] Suc.prems(4) i
  have r: "run v junk s proc = Some (0, set_pcb proc ?p s)" by simp
  have u: "unat (pc p + 1) = unat (pc p) + 1"
    using Suc.prems(5) unat_u32_less [of "csize (code p)"] by (simp add: unat_word_ariths)
  have "run_n v junk n (set_pcb proc ?p s) proc =
      Some (set_pcb proc (?p\<lparr>pc := csize (code ?p)\<rparr>) (set_pcb proc ?p s))"
    by (rule Suc.IH) (use Suc.prems(3,4,5) u at_pc_step(2) [OF lt] in simp_all)
  with r show ?case by (simp add: set_pcb_def)
qed

text \<open>
  The legacy read instruction takes success for failure: read_mem returns 0 when the
  address is mapped, and then the instruction returns 1 and leaves the registers alone;
  when the address is not mapped it stores an uninitialised byte in the destination
  register and reports success.
\<close>
lemma legacy_read_inverted:
  assumes "unat source < length (regs p)" "unat destination < length (regs p)" "unat pa < length (ram m)"
    and "translate (regs p ! unat source + ucast offset) p = Some t"
  shows "cpu_read m p source offset destination data pa =
    (if t \<noteq> 0 then Some (1, p)
     else Some (0, p\<lparr>regs := (regs p)[unat destination := byte_to_u64 data]\<rparr>))"
  using assms by (simp add: cpu_read_def read_mem_def rd_in wr_in)

lemma legacy_read_inverted_witness:
  "cpu_read (init_mem\<lparr>ram := [42]\<rparr>) (legacy_pcb\<lparr>regs := [3073, 4097]\<rparr>) 0 0 1 7 0 =
     Some (1, legacy_pcb\<lparr>regs := [3073, 4097]\<rparr>) \<and>
   cpu_read (init_mem\<lparr>ram := [42]\<rparr>) (legacy_pcb\<lparr>regs := [3073, 4097]\<rparr>) 1 0 1 7 0 =
     Some (0, legacy_pcb\<lparr>regs := [3073, 7]\<rparr>)"
proof -
  have w: "wf_table (page_table (legacy_pcb\<lparr>regs := r\<rparr>))" for r
    using wf_legacy_pcb by (simp add: wf_table_def legacy_pcb_def)
  let ?p = "legacy_pcb\<lparr>regs := [3073, 4097]\<rparr>"
  have "translate 3073 ?p = Some 1" "translate 4097 ?p = Some 0"
    by (simp_all add: translate_def get_trans_table_def get_first_lv_def get_second_lv_def
        OFFSET_LEN_def PAGE_LEN_def legacy_pcb_def rd_def)
  with legacy_read_inverted [of 0 ?p 1 0 "init_mem\<lparr>ram := [42]\<rparr>" 0 1 7]
    legacy_read_inverted [of 1 ?p 1 0 "init_mem\<lparr>ram := [42]\<rparr>" 0 0 7]
  show ?thesis by (simp add: byte_to_u64_def)
qed

text \<open>A process with two CALC instructions, for the witnesses.\<close>

definition calc_inst :: inst_t where
  "calc_inst = \<lparr>opcode = CALC, arg_0 = 0, arg_1 = 0, arg_2 = 0, arg_3 = 0\<rparr>"

definition calc_pcb :: pcb_t where
  "calc_pcb = (demo_pcb 1 138)\<lparr>code := \<lparr>ctext = [calc_inst, calc_inst], csize = 2\<rparr>\<rparr>"

definition calc_sys :: sys_t where
  "calc_sys = demo_sys\<lparr>procs := [0 \<mapsto> calc_pcb, 1 \<mapsto> demo_pcb 2 139]\<rparr>"

lemma calc_pcb_simps [simp]: "pc calc_pcb = 0" "code calc_pcb = \<lparr>ctext = [calc_inst, calc_inst], csize = 2\<rparr>"
  "opcode calc_inst = CALC"
  by (simp_all add: calc_pcb_def calc_inst_def demo_pcb_def)

lemma calc_sys_simps [simp]: "procs calc_sys 0 = Some calc_pcb" "krnl calc_sys = fresh_krnl"
  "rl_ok calc_sys"
  by (simp_all add: calc_sys_def rl_ok_def all_alive_def)

lemma run_calc_sys: "run 0 zero_rg calc_sys 0 = Some (0, set_pcb 0 (calc_pcb\<lparr>pc := 1\<rparr>) calc_sys)"
  using run_calc [of calc_sys 0 calc_pcb] by simp

theorem run_invariants_witness:
  "rl_ok (set_pcb 0 (calc_pcb\<lparr>pc := 1\<rparr>) calc_sys) \<and> inert (krnl (set_pcb 0 (calc_pcb\<lparr>pc := 1\<rparr>) calc_sys))"
  using run_invariants [OF _ _ _ run_calc_sys, of calc_pcb] inert_fresh by simp

lemma calc_program_completes_witness:
  "run_n 0 zero_rg 2 calc_sys 0 = Some (set_pcb 0 (calc_pcb\<lparr>pc := 2\<rparr>) calc_sys)"
  using calc_program_completes [of calc_sys 0 calc_pcb 2 0 zero_rg] by simp

lemma run_n_calc_sys: "\<exists>s'. run_n 0 zero_rg 2 calc_sys 0 = Some s'"
proof -
  let ?s = "set_pcb 0 (calc_pcb\<lparr>pc := 1\<rparr>) calc_sys"
  have "run 0 zero_rg ?s 0 = Some (0, set_pcb 0 (calc_pcb\<lparr>pc := 2\<rparr>) ?s)"
    using run_calc [of ?s 0 "calc_pcb\<lparr>pc := 1\<rparr>"] by simp
  with run_calc_sys show ?thesis by (simp add: numeral_2_eq_2)
qed

lemma run_reaches_end_witness:
  "\<exists>s'. run_n 0 zero_rg 2 calc_sys 0 = Some s' \<and> run 0 zero_rg s' 0 = Some (1, s')"
proof -
  from run_n_calc_sys obtain s' where s': "run_n 0 zero_rg 2 calc_sys 0 = Some s'" by blast
  from run_reaches_end [OF _ _ this, of calc_pcb] s' show ?thesis by auto
qed

end
