(* ===== verification/Loader.thy ===== *)
theory Loader
  imports Scanf Mem
begin

text \<open>
  The loader of \<open>src/loader.c\<close>: a program file is read into a new process control block. The
  file system is a partial map from paths to contents. \<open>malloc\<close> returns memory with
  arbitrary contents: \<open>junk\<close> is the new block before anything is stored in it, \<open>cell i\<close> the
  i-th cell of its code array. The result is undefined (\<open>None\<close>), the exit code of \<open>exit\<close>
  (\<open>Inl\<close>), or the block and the next value of \<open>avail_pid\<close> (\<open>Inr\<close>).
\<close>

section \<open>Opcodes\<close>

definition OPT_CALC :: string where "OPT_CALC = ''calc''"
definition OPT_ALLOC :: string where "OPT_ALLOC = ''alloc''"
definition OPT_FREE :: string where "OPT_FREE = ''free''"
definition OPT_READ :: string where "OPT_READ = ''read''"
definition OPT_WRITE :: string where "OPT_WRITE = ''write''"
definition OPT_SYSCALL :: string where "OPT_SYSCALL = ''syscall''"

lemmas OPT_defs = OPT_CALC_def OPT_ALLOC_def OPT_FREE_def OPT_READ_def OPT_WRITE_def OPT_SYSCALL_def

definition get_opcode :: "string \<Rightarrow> int + ins_opcode_t" where
  "get_opcode opt =
     (if opt = OPT_CALC then Inr CALC
      else if opt = OPT_ALLOC then Inr ALLOC
      else if opt = OPT_FREE then Inr FREE
      else if opt = OPT_READ then Inr READ
      else if opt = OPT_WRITE then Inr WRITE
      else if opt = OPT_SYSCALL then Inr SYSCALL
      else Inl 1)"

section \<open>Operands\<close>

text \<open>The conversions that matched store into \<open>arg_0\<close>, \<open>arg_1\<close>, \<dots> in order.\<close>

definition set_args :: "inst_t \<Rightarrow> u64 list \<Rightarrow> inst_t" where
  "set_args t vs = t\<lparr>
     arg_0 := if 0 < length vs then vs ! 0 else arg_0 t,
     arg_1 := if 1 < length vs then vs ! 1 else arg_1 t,
     arg_2 := if 2 < length vs then vs ! 2 else arg_2 t,
     arg_3 := if 3 < length vs then vs ! 3 else arg_3 t\<rparr>"

text \<open>\<open>fscanf\<close> with \<open>n\<close> operands and the white-space directive at the end of the format.\<close>

definition fscanf_args :: "nat \<Rightarrow> string \<Rightarrow> (u64 list \<times> string) option" where
  "fscanf_args n s = do { (vs, s) \<leftarrow> scan_us n s;
     Some (vs, if length vs = n then skip_ws s else s) }"

text \<open>
  The switch over the opcode: the instruction, \<open>buf\<close> and the rest of the file. The operands
  of SYSCALL are on the rest of its line, which goes through \<open>buf[200]\<close>.
\<close>

definition load_operands :: "inst_t \<Rightarrow> string option \<Rightarrow> string \<Rightarrow> (inst_t \<times> string option \<times> string) option" where
  "load_operands t buf s = (case opcode t of
     CALC \<Rightarrow> Some (t, buf, s)
   | ALLOC \<Rightarrow> do { (vs, s) \<leftarrow> fscanf_args 2 s; Some (set_args t vs, buf, s) }
   | FREE \<Rightarrow> do { (vs, s) \<leftarrow> fscanf_args 1 s; Some (set_args t vs, buf, s) }
   | READ \<Rightarrow> do { (vs, s) \<leftarrow> fscanf_args 3 s; Some (set_args t vs, buf, s) }
   | WRITE \<Rightarrow> do { (vs, s) \<leftarrow> fscanf_args 3 s; Some (set_args t vs, buf, s) }
   | SYSCALL \<Rightarrow>
       (let (buf, s) = fgets 200 buf s in
        do { line \<leftarrow> buf; (vs, _) \<leftarrow> scan_us 4 line; Some (set_args t vs, buf, s) }))"

text \<open>
  The loop over the instructions that are still to be read, from index \<open>i\<close> on. \<open>opc\<close> and
  \<open>buf\<close> are the local arrays, \<open>None\<close> until something is stored in them.
\<close>

primrec load_loop :: "nat \<Rightarrow> nat \<Rightarrow> string option \<Rightarrow> string option \<Rightarrow> inst_t list \<Rightarrow> string \<Rightarrow>
    (int + inst_t list) option" where
  "load_loop 0 i opc buf ins s = Some (Inr ins)"
| "load_loop (Suc n) i opc buf ins s = do {
     (opc, s) \<leftarrow> scan_s 10 opc s;
     w \<leftarrow> opc;
     case get_opcode w of
       Inl e \<Rightarrow> Some (Inl e)
     | Inr c \<Rightarrow> do {
         t \<leftarrow> rd ins i;
         (t, buf, s) \<leftarrow> load_operands (t\<lparr>opcode := c\<rparr>) buf s;
         ins \<leftarrow> wr ins i t;
         load_loop n (Suc i) opc buf ins s } }"

section \<open>Loading\<close>

text \<open>\<open>sizeof(path)\<close> in \<open>load\<close> is the size of a pointer on the 64-bit host.\<close>

definition SIZEOF_POINTER :: nat where "SIZEOF_POINTER = 8"

definition load :: "(string \<Rightarrow> string option) \<Rightarrow> pcb_t \<Rightarrow> (nat \<Rightarrow> inst_t) \<Rightarrow> u32 \<Rightarrow> string \<Rightarrow>
    (int + pcb_t \<times> u32) option" where
  "load fs junk cell avail_pid name =
     (case fs name of
        None \<Rightarrow> Some (Inl 1)
      | Some file \<Rightarrow> do {
          (vs, s) \<leftarrow> scan_us 2 file;
          let prior = (if 0 < length vs then vs ! 0 else priority junk);
          let sz = (if 1 < length vs then vs ! 1 else csize (code junk));
          r \<leftarrow> load_loop (unat sz) 0 None None (map cell [0..<unat sz]) s;
          Some (case r of
             Inl e \<Rightarrow> Inl e
           | Inr ins \<Rightarrow> Inr (junk\<lparr>pid := avail_pid, bp := PAGE_SIZE, pc := 0,
               pcb_t.path := take (2 * SIZEOF_POINTER) name, priority := prior,
               code := \<lparr>ctext = ins, csize = sz\<rparr>\<rparr>, avail_pid + 1)) })"

section \<open>The text of a program\<close>

text \<open>The format of the program files: the inverse the loader is meant to have.\<close>

fun mnemonic :: "ins_opcode_t \<Rightarrow> string" where
  "mnemonic CALC = ''calc''"
| "mnemonic ALLOC = ''alloc''"
| "mnemonic FREE = ''free''"
| "mnemonic READ = ''read''"
| "mnemonic WRITE = ''write''"
| "mnemonic SYSCALL = ''syscall''"

fun operands :: "ins_opcode_t \<Rightarrow> nat" where
  "operands CALC = 0"
| "operands ALLOC = 2"
| "operands FREE = 1"
| "operands READ = 3"
| "operands WRITE = 3"
| "operands SYSCALL = 4"

definition show_args :: "u64 list \<Rightarrow> string" where
  "show_args ws = concat (map (\<lambda>w. CHR '' '' # digits (unat w)) ws)"

definition used_args :: "inst_t \<Rightarrow> u64 list" where
  "used_args t = take (operands (opcode t)) [arg_0 t, arg_1 t, arg_2 t, arg_3 t]"

definition show_inst :: "inst_t \<Rightarrow> string" where
  "show_inst t = mnemonic (opcode t) @ show_args (used_args t) @ [newline]"

definition show_prog :: "u32 \<Rightarrow> inst_t list \<Rightarrow> string" where
  "show_prog prior ts = digits (unat prior) @ '' '' @ digits (length ts) @ [newline] @ concat (map show_inst ts)"

text \<open>The instruction a line is read into: what the line does not give stays as it was.\<close>

definition read_into :: "inst_t \<Rightarrow> inst_t \<Rightarrow> inst_t" where
  "read_into u t = set_args (u\<lparr>opcode := opcode t\<rparr>) (used_args t)"

section \<open>Reading what was printed\<close>

lemma get_opcode_mnemonic [simp]: "get_opcode (mnemonic c) = Inr c"
  by (cases c) (simp_all add: get_opcode_def OPT_defs)

lemma no_digit_Cons: "\<not> is_digit c \<Longrightarrow> no_digit (c # r)"
  by (simp add: no_digit_def)

lemma no_digit_newline [simp]: "no_digit (newline # r)"
  by (simp add: no_digit_def is_digit_def newline_def of_char_char_of)

lemma is_space_newline [simp]: "is_space newline"
  by (simp add: is_space_def newline_def of_char_char_of)

lemma is_space_blank [simp]: "is_space CHR '' ''"
  by (simp add: is_space_def)

lemma no_digit_args: "no_digit (show_args ws @ newline # r)"
proof (cases ws)
  case Nil
  then show ?thesis by (simp add: show_args_def)
next
  case (Cons w vs)
  then show ?thesis by (simp add: show_args_def no_digit_def is_digit_def)
qed

lemma scan_us_args: "scan_us (length ws) (show_args ws @ newline # r) = Some (ws, newline # r)"
proof (induction ws)
  case Nil
  then show ?case by (simp add: show_args_def)
next
  case (Cons w ws)
  have "show_args (w # ws) @ newline # r = '' '' @ digits (unat w) @ (show_args ws @ newline # r)"
    by (simp add: show_args_def)
  moreover have "scan_u ('' '' @ digits (unat w) @ (show_args ws @ newline # r)) =
      Some (Some w, show_args ws @ newline # r)"
    using unat_u64_less [of w] by (subst scan_u_digits) (simp_all add: no_digit_args)
  ultimately show ?case using Cons.IH by simp
qed

lemma skip_ws_mnemonic [simp]: "skip_ws (mnemonic c @ s) = mnemonic c @ s"
  by (cases c) (simp_all add: skip_ws_def is_space_def)

lemma skip_ws_prog [simp]: "skip_ws (concat (map show_inst ts)) = concat (map show_inst ts)"
  by (cases ts) (simp_all add: show_inst_def, simp add: skip_ws_def)

lemma fscanf_args_printed:
  "length ws = n \<Longrightarrow> fscanf_args n (show_args ws @ newline # concat (map show_inst ts)) =
     Some (ws, concat (map show_inst ts))"
proof -
  assume n: "length ws = n"
  have "skip_ws (newline # concat (map show_inst ts)) = concat (map show_inst ts)"
    using skip_ws_spaces [of "[newline]" "concat (map show_inst ts)"] by simp
  with n scan_us_args [of ws "concat (map show_inst ts)"] show ?thesis by (auto simp: fscanf_args_def)
qed

text \<open>The operands of SYSCALL are read from the line.\<close>

lemma read_line_printed:
  "newline \<notin> set l \<Longrightarrow> length l < n \<Longrightarrow> read_line n (l @ newline # r) = (l @ [newline], r)"
proof (induction l arbitrary: n)
  case Nil
  then show ?case by (cases n) simp_all
next
  case (Cons c l)
  then show ?case by (cases n) (auto simp: case_prod_beta)
qed

lemma args_chars: "c \<in> set (show_args ws) \<Longrightarrow> c = CHR '' '' \<or> is_digit c"
  by (auto simp: show_args_def dest: digits_are_digits split: if_splits)

lemma args_no_newline: "newline \<notin> set (show_args ws)"
proof
  assume "newline \<in> set (show_args ws)"
  from args_chars [OF this] show False
    by (auto simp: newline_def is_digit_def of_char_char_of dest: arg_cong [where f = "of_char :: char \<Rightarrow> nat"])
qed

lemma cstr_args: "cstr (show_args ws @ [newline]) = show_args ws @ [newline]"
proof -
  have "(of_char c :: nat) \<noteq> 0" if "c \<in> set (show_args ws @ [newline])" for c
    using that args_chars [of c ws] by (auto simp: is_digit_def newline_def of_char_char_of)
  then show ?thesis unfolding cstr_def by (simp add: takeWhile_eq_all_conv)
qed

lemma length_args: "length (show_args ws) \<le> 21 * length ws"
proof (induction ws)
  case Nil
  then show ?case by (simp add: show_args_def)
next
  case (Cons w ws)
  have "unat w < 10 ^ Suc 19" using unat_u64_less [of w] by simp
  from length_digits [OF this] Cons show ?case by (simp add: show_args_def)
qed

lemma fgets_args:
  assumes "length ws = 4"
  shows "fgets 200 buf (show_args ws @ newline # r) = (Some (show_args ws @ [newline]), r)"
  using length_args [of ws] assms read_line_printed [OF args_no_newline, of ws 199 r]
  by (simp add: fgets_def cstr_args)

lemma load_operands_printed:
  assumes "opcode u = opcode t"
  obtains buf' w where "load_operands u buf (show_args (used_args t) @ newline # concat (map show_inst ts)) =
      Some (set_args u (used_args t), buf', w @ concat (map show_inst ts))" "\<forall>c\<in>set w. is_space c"
proof (cases "opcode t")
  case CALC
  then show ?thesis using assms that [of buf "[newline]"]
    by (simp add: load_operands_def used_args_def show_args_def set_args_def)
next
  case SYSCALL
  then have l: "length (used_args t) = 4" by (simp add: used_args_def)
  have "scan_us 4 (show_args (used_args t) @ [newline]) = Some (used_args t, [newline])"
    using scan_us_args [of "used_args t" "[]"] l by simp
  with SYSCALL assms show ?thesis
    using that [of "Some (show_args (used_args t) @ [newline])" "[]"] fgets_args [OF l, of buf "concat (map show_inst ts)"]
    by (simp add: load_operands_def)
qed (use assms that [of buf "[]"] in \<open>auto simp: load_operands_def used_args_def fscanf_args_printed\<close>)

lemma scan_opcode:
  assumes "\<forall>c\<in>set w. is_space c" "is_space (hd s)" "s \<noteq> []"
  shows "scan_s 10 opc (w @ mnemonic c @ s) = Some (Some (mnemonic c), s)"
proof -
  have ch: "\<forall>x\<in>set (mnemonic c). \<not> is_space x" by (cases c) (simp_all add: is_space_def)
  have l: "length (mnemonic c) < 10" "cstr (mnemonic c) = mnemonic c" "mnemonic c \<noteq> []"
    by (cases c; simp add: cstr_def)+
  have "takeWhile (\<lambda>x. \<not> is_space x) (mnemonic c @ s) = mnemonic c"
    using ch assms(2,3) by (cases s) (simp_all add: takeWhile_append2)
  with l assms(1) show ?thesis by (simp add: scan_s_def skip_ws_spaces)
qed

lemma load_loop_printed:
  assumes "\<forall>c\<in>set w. is_space c" "i + length ts = length ins"
  shows "load_loop (length ts) i opc buf ins (w @ concat (map show_inst ts)) =
    Some (Inr (take i ins @ map2 read_into (drop i ins) ts))"
  using assms
proof (induction ts arbitrary: i opc buf ins w)
  case Nil
  then show ?case by simp
next
  case (Cons t ts)
  let ?u = "(ins ! i)\<lparr>opcode := opcode t\<rparr>" and ?r = "show_args (used_args t) @ newline # concat (map show_inst ts)"
  have i: "i < length ins" using Cons.prems(2) by simp
  have s: "w @ concat (map show_inst (t # ts)) = w @ mnemonic (opcode t) @ ?r" by (simp add: show_inst_def)
  have r: "is_space (hd ?r)" "?r \<noteq> []" by (cases "used_args t"; simp add: show_args_def)+
  obtain buf' w' where o: "load_operands ?u buf ?r =
      Some (set_args ?u (used_args t), buf', w' @ concat (map show_inst ts))" "\<forall>c\<in>set w'. is_space c"
    by (rule load_operands_printed [of ?u t buf ts]) simp_all
  let ?ins = "ins[i := read_into (ins ! i) t]"
  have "load_loop (length ts) (Suc i) (Some (mnemonic (opcode t))) buf' ?ins (w' @ concat (map show_inst ts)) =
      Some (Inr (take (Suc i) ?ins @ map2 read_into (drop (Suc i) ?ins) ts))"
    by (rule Cons.IH [OF o(2)]) (use Cons.prems(2) in simp)
  moreover have "take (Suc i) ?ins @ map2 read_into (drop (Suc i) ?ins) ts =
      take i ins @ map2 read_into (drop i ins) (t # ts)"
    using i by (simp add: take_Suc_update_at_end Cons_nth_drop_Suc [symmetric])
  ultimately show ?case
    unfolding s using i by (simp add: scan_opcode [OF Cons.prems(1) r] o(1) rd_in wr_in read_into_def)
qed

text \<open>The header line of a program file, with \<open>n\<close> for the number of instructions.\<close>

definition show_header :: "u32 \<Rightarrow> nat \<Rightarrow> string" where
  "show_header prior n = digits (unat prior) @ '' '' @ digits n @ [newline]"

lemma show_prog_header: "show_prog prior ts = show_header prior (length ts) @ concat (map show_inst ts)"
  by (simp add: show_prog_def show_header_def)

lemma scan_header:
  assumes "n < 2 ^ 32"
  shows "scan_us 2 (show_header prior n @ r) = Some ([prior, of_nat n :: u32], newline # r)"
proof -
  have 1: "scan_u ([] @ digits (unat prior) @ ('' '' @ digits n @ newline # r)) =
      Some (Some prior, '' '' @ digits n @ newline # r)"
    using unat_u32_less [of prior] by (subst scan_u_digits) (simp_all add: no_digit_def is_digit_def)
  have 2: "scan_u ('' '' @ digits n @ newline # r) = Some (Some (of_nat n :: u32), newline # r)"
    using assms by (subst scan_u_digits) simp_all
  from 1 2 show ?thesis by (simp add: show_header_def numeral_2_eq_2)
qed

lemma load_header:
  assumes "fs name = Some (show_header prior n @ r)" "n < 2 ^ 32"
  shows "load fs junk cell a name = do {
    x \<leftarrow> load_loop n 0 None None (map cell [0..<n]) (newline # r);
    Some (case x of Inl e \<Rightarrow> Inl e
      | Inr ins \<Rightarrow> Inr (junk\<lparr>pid := a, bp := PAGE_SIZE, pc := 0, pcb_t.path := take 16 name, priority := prior,
               code := \<lparr>ctext = ins, csize = of_nat n\<rparr>\<rparr>, a + 1)) }"
  using scan_header [OF assms(2), of prior r] assms
  by (simp add: load_def SIZEOF_POINTER_def unat_u32_of_nat Let_def cong: sum.case_cong)

lemma read_into_same [simp]: "opcode (read_into u t) = opcode t" "used_args (read_into u t) = used_args t"
  by (cases "opcode t"; simp add: read_into_def used_args_def set_args_def)+

lemma map_read_into:
  "length us = length ts \<Longrightarrow> map opcode (map2 read_into us ts) = map opcode ts"
  "length us = length ts \<Longrightarrow> map used_args (map2 read_into us ts) = map used_args ts"
  by (induction us ts rule: list_induct2) simp_all

section \<open>Properties\<close>

text \<open>What was printed is read back.\<close>

lemma load_show_prog:
  assumes "fs name = Some (show_prog prior ts)" "length ts < 2 ^ 32"
  shows "\<exists>p. load fs junk cell a name = Some (Inr (p, a + 1)) \<and> pid p = a \<and> pc p = 0 \<and> priority p = prior \<and>
    unat (csize (code p)) = length ts \<and> map opcode (ctext (code p)) = map opcode ts \<and>
    map used_args (ctext (code p)) = map used_args ts"
proof -
  let ?ins = "map2 read_into (map cell [0..<length ts]) ts"
  have "load_loop (length ts) 0 None None (map cell [0..<length ts]) ([newline] @ concat (map show_inst ts)) = Some (Inr ?ins)"
    by (subst load_loop_printed) simp_all
  moreover have "map opcode ?ins = map opcode ts" "map used_args ?ins = map used_args ts"
    by (rule map_read_into; simp)+
  moreover have "unat (of_nat (length ts) :: u32) = length ts" using assms(2) by (rule unat_u32_of_nat)
  ultimately show ?thesis
    using load_header [of fs name prior "length ts" "concat (map show_inst ts)", OF assms(1) [unfolded show_prog_header] assms(2), of junk cell a] by simp
qed

text \<open>
  C29: what is printed is loaded: a file in the program format, whatever its instructions and
  operands, is loaded into a block with the next process number, a zero program counter, the
  priority and size of the header, and instruction by instruction the opcodes and the
  operands that the opcode uses; whatever malloc returned is left in the other operands.
\<close>
theorem load_reads_program:
  assumes "fs name = Some (show_prog prior ts)" "length ts < 2 ^ 32"
  shows "\<exists>p. load fs junk cell a name = Some (Inr (p, a + 1)) \<and> pid p = a \<and> pc p = 0 \<and> priority p = prior \<and>
    unat (csize (code p)) = length ts \<and> map opcode (ctext (code p)) = map opcode ts \<and>
    map used_args (ctext (code p)) = map used_args ts"
  using assms by (rule load_show_prog)

definition demo_prog :: "inst_t list" where
  "demo_prog = [\<lparr>opcode = WRITE, arg_0 = 7, arg_1 = 0, arg_2 = 20, arg_3 = 0\<rparr>,
                \<lparr>opcode = CALC, arg_0 = 0, arg_1 = 0, arg_2 = 0, arg_3 = 0\<rparr>,
                \<lparr>opcode = SYSCALL, arg_0 = 17, arg_1 = 4, arg_2 = 5, arg_3 = 6\<rparr>]"

theorem load_reads_program_witness:
  "\<exists>p. load (\<lambda>n. if n = ''input/proc/p'' then Some (show_prog 1 demo_prog) else None) legacy_pcb
     (\<lambda>_. hd demo_prog) 1 ''input/proc/p'' = Some (Inr (p, 1 + 1)) \<and>
     map opcode (ctext (code p)) = [WRITE, CALC, SYSCALL]"
  using load_reads_program [of "\<lambda>n. if n = ''input/proc/p'' then Some (show_prog 1 demo_prog) else None"
      "''input/proc/p''" 1 demo_prog legacy_pcb "\<lambda>_. hd demo_prog" 1]
  by (auto simp: demo_prog_def)

text \<open>A file that ends early: the buffer still holds the last opcode.\<close>

lemma load_loop_at_end:
  "i + n = length ins \<Longrightarrow> load_loop n i (Some ''calc'') buf ins [] =
     Some (Inr (take i ins @ map (\<lambda>u. u\<lparr>opcode := CALC\<rparr>) (drop i ins)))"
proof (induction n arbitrary: i ins)
  case 0
  then show ?case by simp
next
  case (Suc n)
  then have i: "i < length ins" by simp
  let ?ins = "ins[i := (ins ! i)\<lparr>opcode := CALC\<rparr>]"
  have "take (Suc i) ?ins @ map (\<lambda>u. u\<lparr>opcode := CALC\<rparr>) (drop (Suc i) ?ins) =
      take i ins @ map (\<lambda>u. u\<lparr>opcode := CALC\<rparr>) (drop i ins)"
    using i by (simp add: take_Suc_update_at_end Cons_nth_drop_Suc [symmetric])
  moreover have "get_opcode ''calc'' = Inr CALC" by (simp add: get_opcode_def OPT_defs)
  ultimately show ?case using Suc.IH [of "Suc i" ?ins] Suc.prems i
    by (simp add: scan_s_def skip_ws_def rd_in wr_in load_operands_def)
qed

lemma load_loop_first_word:
  assumes "w \<noteq> []" "\<forall>c\<in>set w. \<not> is_space c" "cstr w = w"
  shows "scan_s 10 None (newline # w @ newline # r) = (if length w < 10 then Some (Some w, newline # r) else None)"
proof -
  have "skip_ws (newline # w @ newline # r) = w @ newline # r"
    using skip_ws_spaces [of "[newline]" "w @ newline # r"] assms(1,2)
    by (cases w) (simp_all add: skip_ws_def)
  moreover have "takeWhile (\<lambda>c. \<not> is_space c) (w @ newline # r) = w"
    using assms(2) by (simp add: takeWhile_append2)
  ultimately show ?thesis using assms(1,3) by (simp add: scan_s_def)
qed

text \<open>
  How loading goes wrong. A missing file and a line with an unknown opcode end the whole
  simulation with exit code 1; a word of ten or more characters overruns the opcode buffer;
  a file with no instruction at all reads an uninitialised buffer; and a file that ends
  before its declared number of instructions is accepted: after a last CALC every missing
  instruction is CALC again.
\<close>
lemma load_failures:
  assumes "0 < n" "n < 2 ^ 32" "w \<noteq> []" "\<forall>c\<in>set w. \<not> is_space c" "cstr w = w"
  shows "(fs name = None \<longrightarrow> load fs junk cell a name = Some (Inl 1)) \<and>
    (fs name = Some (show_header prior n @ w @ newline # r) \<longrightarrow> get_opcode w = Inl 1 \<longrightarrow>
       load fs junk cell a name = (if length w < 10 then Some (Inl 1) else None)) \<and>
    (fs name = Some (show_header prior n) \<longrightarrow> load fs junk cell a name = None) \<and>
    (fs name = Some (show_header prior n @ ''calc'') \<longrightarrow>
       (\<exists>p. load fs junk cell a name = Some (Inr (p, a + 1)) \<and> map opcode (ctext (code p)) = replicate n CALC))"
proof -
  obtain m where n: "n = Suc m" using assms(1) by (cases n) auto
  have sz: "n < 4294967296" using assms(2) by simp
  have 1: "load fs junk cell a name = (if length w < 10 then Some (Inl 1) else None)"
    if "fs name = Some (show_header prior n @ w @ newline # r)" "get_opcode w = Inl 1"
    using load_header [of fs name prior n "w @ newline # r" junk cell a] assms(2) that(1) load_loop_first_word [OF assms(3-5), of r] that(2) n by simp
  have 2: "load fs junk cell a name = None" if "fs name = Some (show_header prior n)"
    using load_header [of fs name prior n "[]"] that assms(2) n by (simp add: scan_s_def skip_ws_def)
  have 3: "\<exists>p. load fs junk cell a name = Some (Inr (p, a + 1)) \<and> map opcode (ctext (code p)) = replicate n CALC"
    if f: "fs name = Some (show_header prior n @ ''calc'')"
  proof -
    let ?ins = "map cell [0..<n]"
    let ?ins1 = "?ins[0 := (?ins ! 0)\<lparr>opcode := CALC\<rparr>]"
    have "scan_s 10 None (newline # ''calc'') = Some (Some ''calc'', [])"
      by (simp add: scan_s_def skip_ws_def is_space_def cstr_def newline_def of_char_char_of)
    then have "load_loop n 0 None None ?ins (newline # ''calc'') = load_loop m 1 (Some ''calc'') None ?ins1 []"
      using n by (simp add: get_opcode_def OPT_defs load_operands_def rd_def wr_def del: upt_Suc)
    also have "\<dots> = Some (Inr (take 1 ?ins1 @ map (\<lambda>u. u\<lparr>opcode := CALC\<rparr>) (drop 1 ?ins1)))"
      by (rule load_loop_at_end) (simp add: n)
    finally show ?thesis
      using load_header [of fs name prior n "''calc''" junk cell a] f assms(2) n
      by (simp add: list_eq_iff_nth_eq nth_append nth_Cons split: nat.split)
  qed
  show ?thesis using 1 2 3 by (simp add: load_def)
qed

lemma load_failures_witness:
  "load (\<lambda>_. Some (show_header 1 2 @ ''jump'' @ [newline])) legacy_pcb (\<lambda>_. hd demo_prog) 1 ''p'' = Some (Inl 1)"
proof -
  have "get_opcode ''jump'' = Inl 1" by (simp add: get_opcode_def OPT_defs)
  moreover have "\<forall>c\<in>set ''jump''. \<not> is_space c" "cstr ''jump'' = ''jump''" by (simp_all add: is_space_def cstr_def)
  ultimately show ?thesis
    using load_failures [of 2 "''jump''" "\<lambda>_. Some (show_header 1 2 @ ''jump'' @ [newline])" "''p''"
        legacy_pcb "\<lambda>_. hd demo_prog" 1 1 "[]"] by simp
qed

end
