(* ===== verification/Config.thy ===== *)
theory Config
  imports Loader
begin

text \<open>
  The configuration file: \<open>read_config\<close> of \<open>src/os.c\<close>, in the variant with memory sizes
  (\<open>MM_FIXED_MEMSZ\<close> is not defined) and priorities. The variables of a conversion that does
  not match keep what they held: zero for the static ones, arbitrary contents (\<open>junk\<close>, by
  index) for the arrays from \<open>malloc\<close>.
\<close>

section \<open>Reading\<close>

definition PAGING_MAX_MMSWP :: nat where "PAGING_MAX_MMSWP = 4"

record config =
  time_slot :: int
  num_cpus :: int
  num_processes :: int
  memramsz :: int
  memswpsz :: "int list"
  ld_path :: "string list"
  ld_start_time :: "u64 list"
  ld_prio :: "u64 list"

text \<open>\<open>fscanf(file, "%d", &x)\<close> with the old value of \<open>x\<close>.\<close>

definition read_int :: "int \<Rightarrow> string \<Rightarrow> (int \<times> string) option" where
  "read_int old s = do { (r, s) \<leftarrow> scan_d s; Some (case r of None \<Rightarrow> old | Some v \<Rightarrow> v, s) }"

primrec scan_ds :: "nat \<Rightarrow> string \<Rightarrow> (int list \<times> string) option" where
  "scan_ds 0 s = Some ([], s)"
| "scan_ds (Suc n) s = do { (r, s) \<leftarrow> scan_d s;
     case r of None \<Rightarrow> Some ([], s) | Some v \<Rightarrow> do { (vs, s) \<leftarrow> scan_ds n s; Some (v # vs, s) } }"

text \<open>The loop over the swap sizes: one call of \<open>fscanf\<close> each.\<close>

primrec read_swaps :: "nat \<Rightarrow> string \<Rightarrow> (int list \<times> string) option" where
  "read_swaps 0 s = Some ([], s)"
| "read_swaps (Suc n) s = do { (v, s) \<leftarrow> read_int 0 s; (vs, s) \<leftarrow> read_swaps n s; Some (v # vs, s) }"

text \<open>\<open>fscanf(file, "%lu %s %lu\n", \<dots>)\<close> with the old contents of the three variables.\<close>

definition read_proc_line :: "u64 \<Rightarrow> string option \<Rightarrow> u64 \<Rightarrow> string \<Rightarrow> (u64 \<times> string option \<times> u64 \<times> string) option" where
  "read_proc_line st pbuf pr s = do {
     (r, s) \<leftarrow> scan_u s;
     case r of None \<Rightarrow> Some (st, pbuf, pr, s)
     | Some st \<Rightarrow> do {
         (pbuf, s) \<leftarrow> scan_s 100 pbuf s;
         (r, s) \<leftarrow> scan_u s;
         Some (case r of None \<Rightarrow> (st, pbuf, pr, s) | Some pr \<Rightarrow> (st, pbuf, pr, skip_ws s)) } }"

text \<open>
  The loop over the processes, from index \<open>i\<close>, with the buffer \<open>proc[100]\<close>. The name is
  appended to a prefix in another buffer of 100 bytes.
\<close>

definition proc_prefix :: string where "proc_prefix = ''input/proc/''"

primrec read_procs :: "(nat \<Rightarrow> u64) \<Rightarrow> nat \<Rightarrow> nat \<Rightarrow> string option \<Rightarrow> string \<Rightarrow> (string \<times> u64 \<times> u64) list option" where
  "read_procs junk 0 i pbuf s = Some []"
| "read_procs junk (Suc n) i pbuf s = do {
     (st, pbuf, pr, s) \<leftarrow> read_proc_line (junk i) pbuf (junk i) s;
     name \<leftarrow> pbuf;
     ps \<leftarrow> (if length (proc_prefix @ name) < 100 then read_procs junk n (Suc i) pbuf s else None);
     Some ((proc_prefix @ name, st, pr) # ps) }"

definition read_config :: "(string \<Rightarrow> string option) \<Rightarrow> (nat \<Rightarrow> u64) \<Rightarrow> string \<Rightarrow> (int + config) option" where
  "read_config fs junk name =
     (case fs name of
        None \<Rightarrow> Some (Inl 1)
      | Some file \<Rightarrow> do {
          (vs, s) \<leftarrow> scan_ds 3 file;
          let s = (if length vs = 3 then skip_ws s else s);
          let np = (if 2 < length vs then vs ! 2 else 0);
          (r, s) \<leftarrow> scan_d s;
          let s = (case r of None \<Rightarrow> s | Some _ \<Rightarrow> skip_ws s);
          (sws, s) \<leftarrow> read_swaps PAGING_MAX_MMSWP s;
          ps \<leftarrow> read_procs junk (nat np) 0 None (skip_ws s);
          Some (Inr \<lparr>time_slot = (if 0 < length vs then vs ! 0 else 0),
                     num_cpus = (if 1 < length vs then vs ! 1 else 0),
                     num_processes = np,
                     memramsz = (case r of None \<Rightarrow> 0 | Some v \<Rightarrow> v),
                     memswpsz = sws,
                     ld_path = map fst ps, ld_start_time = map (fst \<circ> snd) ps, ld_prio = map (snd \<circ> snd) ps\<rparr>) })"

section \<open>The format\<close>

definition show_proc :: "u64 \<times> string \<times> u64 \<Rightarrow> string" where
  "show_proc = (\<lambda>(st, name, pr). digits (unat st) @ '' '' @ name @ '' '' @ digits (unat pr) @ [newline])"

definition show_ints :: "nat list \<Rightarrow> string" where
  "show_ints ns = concat (map (\<lambda>n. digits n @ '' '') ns)"

definition show_config :: "nat \<Rightarrow> nat \<Rightarrow> nat \<Rightarrow> nat list \<Rightarrow> (u64 \<times> string \<times> u64) list \<Rightarrow> string" where
  "show_config ts cpus rsz sws ps = show_ints [ts, cpus, length ps] @ [newline] @ show_ints (rsz # sws) @ [newline] @
     concat (map show_proc ps)"

definition name_ok :: "string \<Rightarrow> bool" where
  "name_ok w \<longleftrightarrow> w \<noteq> [] \<and> cstr w = w \<and> (\<forall>c\<in>set w. \<not> is_space c) \<and> length w < 89"

lemma no_digit_blank [simp]: "no_digit (CHR '' '' # r)"
  by (simp add: no_digit_def is_digit_def)

lemma skip_ws_newline [simp]: "skip_ws (newline # s) = skip_ws s" "skip_ws (CHR '' '' # s) = skip_ws s"
  by (simp_all add: skip_ws_def)

lemma scan_d_skip: "scan_d (skip_ws s) = scan_d s"
  by (simp add: scan_d_def skip_ws_def dropWhile_idem)

lemma read_ints_printed:
  assumes "\<forall>n\<in>set ns. n < 2 ^ 31" "\<forall>c\<in>set w. is_space c"
  shows "scan_ds (length ns) (w @ show_ints ns @ r) = Some (map int ns, (if ns = [] then w else '' '') @ r)"
    and "read_swaps (length ns) (w @ show_ints ns @ r) = Some (map int ns, (if ns = [] then w else '' '') @ r)"
  using assms
proof (induction ns arbitrary: w)
  case Nil
  { case 1 then show ?case by (simp add: show_ints_def) next case 2 then show ?case by (simp add: show_ints_def) }
next
  case (Cons n ns)
  have n: "scan_d (w @ digits n @ ('' '' @ show_ints ns @ r)) = Some (Some (int n), '' '' @ show_ints ns @ r)"
    if "\<forall>n\<in>set (n # ns). n < 2 ^ 31" "\<forall>c\<in>set w. is_space c" for w
    using that by (intro scan_d_digits) simp_all
  have sh: "show_ints (n # ns) = digits n @ '' '' @ show_ints ns" by (simp add: show_ints_def)
  { case 1
    then show ?case using n [OF 1] Cons.IH(1) [of "'' ''"] by (simp add: sh)
  next
    case 2
    then show ?case using n [OF 2] Cons.IH(2) [of "'' ''"] by (simp add: sh read_int_def) }
qed

lemma scan_name:
  assumes "name_ok w"
  shows "scan_s 100 b (CHR '' '' # w @ CHR '' '' # r) = Some (Some w, CHR '' '' # r)"
proof -
  from assms have w: "w \<noteq> []" "cstr w = w" "\<forall>c\<in>set w. \<not> is_space c" "length w < 89" by (simp_all add: name_ok_def)
  then have "skip_ws (w @ CHR '' '' # r) = w @ CHR '' '' # r"
    by (cases w) (simp_all add: skip_ws_def)
  moreover have "takeWhile (\<lambda>c. \<not> is_space c) (w @ CHR '' '' # r) = w"
    using w(3) by (simp add: takeWhile_append2)
  ultimately show ?thesis using w by (simp add: scan_s_def)
qed

lemma read_proc_line_printed:
  assumes "name_ok name" "\<forall>c\<in>set w. is_space c"
  shows "read_proc_line j b j' (w @ show_proc (st, name, pr) @ r) = Some (st, Some name, pr, skip_ws r)"
proof -
  have 1: "scan_u (w @ digits (unat st) @ ('' '' @ name @ '' '' @ digits (unat pr) @ newline # r)) =
      Some (Some st, '' '' @ name @ '' '' @ digits (unat pr) @ newline # r)"
    using assms(2) unat_u64_less [of st] by (subst scan_u_digits) simp_all
  have 2: "scan_u ('' '' @ digits (unat pr) @ (newline # r)) = Some (Some pr, newline # r)"
    using unat_u64_less [of pr] by (subst scan_u_digits) simp_all
  from 1 2 scan_name [OF assms(1)] show ?thesis by (simp add: read_proc_line_def show_proc_def)
qed

lemma read_procs_printed:
  assumes "\<forall>p\<in>set ps. name_ok (fst (snd p))" "\<forall>c\<in>set w. is_space c"
  shows "read_procs junk (length ps) i b (skip_ws (w @ concat (map show_proc ps))) =
    Some (map (\<lambda>(st, name, pr). (proc_prefix @ name, st, pr)) ps)"
  using assms
proof (induction ps arbitrary: i b w)
  case Nil
  then show ?case by simp
next
  case (Cons p ps)
  obtain st name pr where p: "p = (st, name, pr)" by (cases p)
  with Cons.prems have ok: "name_ok name" by simp
  have s: "skip_ws (w @ concat (map show_proc (p # ps))) = [] @ show_proc (st, name, pr) @ concat (map show_proc ps)"
    using Cons.prems(2) p by (simp add: skip_ws_spaces show_proc_def)
  have l: "length (proc_prefix @ name) < 100" using ok by (simp add: name_ok_def proc_prefix_def)
  from Cons.IH [of "[]" "Suc i" "Some name"] Cons.prems(1) l show ?case
    unfolding s by (simp add: read_proc_line_printed [OF ok, of "[]", simplified] p)
qed

section \<open>Properties\<close>

text \<open>
  C39: a configuration in the documented format is read as it is written: the sizes of the
  time slot and of the memories, the number of processors, and for every process its start
  time, its path below \<open>input/proc/\<close> and its priority, in order.
\<close>
theorem read_config_reads:
  assumes "fs cfile = Some (show_config ts cpus rsz sws ps)" "length sws = PAGING_MAX_MMSWP"
    and "ts < 2 ^ 31" "cpus < 2 ^ 31" "rsz < 2 ^ 31" "\<forall>n\<in>set sws. n < 2 ^ 31" "length ps < 2 ^ 31"
    and "\<forall>p\<in>set ps. name_ok (fst (snd p))"
  shows "read_config fs junk cfile = Some (Inr \<lparr>time_slot = int ts, num_cpus = int cpus,
    num_processes = int (length ps), memramsz = int rsz, memswpsz = map int sws,
    ld_path = map (\<lambda>(_, name, _). ''input/proc/'' @ name) ps,
    ld_start_time = map fst ps, ld_prio = map (snd \<circ> snd) ps\<rparr>)"
proof -
  let ?c = "concat (map show_proc ps)"
  have 1: "scan_ds 3 ([] @ show_ints [ts, cpus, length ps] @ (newline # show_ints (rsz # sws) @ newline # ?c)) =
      Some (map int [ts, cpus, length ps], '' '' @ (newline # show_ints (rsz # sws) @ newline # ?c))"
    using read_ints_printed(1) [of "[ts, cpus, length ps]" "[]"] assms(3,4,7) by (simp add: numeral_3_eq_3)
  have 2: "scan_d ([] @ digits rsz @ ('' '' @ show_ints sws @ newline # ?c)) =
      Some (Some (int rsz), '' '' @ show_ints sws @ newline # ?c)"
    using assms(5) by (intro scan_d_digits) simp_all
  obtain n ns where sws: "sws = n # ns" using assms(2) by (cases sws) (simp_all add: PAGING_MAX_MMSWP_def)
  have sk: "skip_ws (show_ints sws @ r) = show_ints sws @ r" for r by (simp add: sws show_ints_def)
  have 3: "read_swaps PAGING_MAX_MMSWP ([] @ show_ints sws @ newline # ?c) = Some (map int sws, '' '' @ newline # ?c)"
    using read_ints_printed(2) [OF assms(6), of "[]" "newline # ?c"] assms(2) sws by (simp del: read_swaps.simps)
  have 4: "read_procs junk (length ps) 0 None (skip_ws ('' '' @ newline # ?c)) =
      Some (map (\<lambda>(st, name, pr). (proc_prefix @ name, st, pr)) ps)"
    using read_procs_printed [OF assms(8), of "'' '' @ [newline]"] by simp
  have "show_config ts cpus rsz sws ps =
      [] @ show_ints [ts, cpus, length ps] @ (newline # show_ints (rsz # sws) @ newline # ?c)"
    by (simp add: show_config_def)
  with 1 2 3 4 assms(1) show ?thesis
    by (simp add: read_config_def show_ints_def [of "rsz # sws"] show_ints_def [of sws, symmetric] sk Let_def
        proc_prefix_def comp_def case_prod_beta)
qed

theorem read_config_reads_witness:
  "read_config (\<lambda>_. Some (show_config 2 1 2048 [16777216, 0, 0, 0] [(9, ''sc3'', 15)])) (\<lambda>_. 0) ''input/os_sc'' =
     Some (Inr \<lparr>time_slot = 2, num_cpus = 1, num_processes = 1, memramsz = 2048,
       memswpsz = [16777216, 0, 0, 0], ld_path = [''input/proc/sc3''], ld_start_time = [9], ld_prio = [15]\<rparr>)"
proof -
  have "name_ok ''sc3''" by (simp add: name_ok_def cstr_def is_space_def)
  then show ?thesis
    using read_config_reads [of "\<lambda>_. Some (show_config 2 1 2048 [16777216, 0, 0, 0] [(9, ''sc3'', 15)])"
      "''input/os_sc''" 2 1 2048 "[16777216, 0, 0, 0]" "[(9, ''sc3'', 15)]" "\<lambda>_. 0"]
    by (simp add: PAGING_MAX_MMSWP_def)
qed

end
