(* ===== verification/Timer.thy ===== *)
theory Timer
  imports Prelude
begin

text \<open>
  The timer of \<open>src/timer.c\<close>: a barrier between the timer thread and the devices (one per
  processor and one for the loader). The time slot advances when every device has called
  \<open>next_slot\<close> or has detached.

  A step of the model is one critical section, so the steps of the threads interleave as
  the mutexes allow: a device marks its slot as done under \<open>event_lock\<close> and then waits
  under \<open>timer_lock\<close>; the timer visits the devices in list order, first to wait for each,
  then to release each. Waiting on a condition variable gives up the lock in the same
  step as the test before it. A signal wakes the thread that waits at that moment and is
  lost when there is none, and a waiting thread may wake without a signal; either way it
  tests its condition again.
\<close>

section \<open>State\<close>

text \<open>
  Where the thread that owns a device is: computing, about to test the loop of
  \<open>next_slot\<close>, asleep on \<open>timer_cond\<close>, or past \<open>detach_event\<close>.
\<close>

datatype where_t = Running | Arrived | Blocked | Detached

text \<open>
  \<open>passed\<close> is not in the code: it counts the calls of \<open>next_slot\<close> the device has returned
  from, in the arithmetic of \<open>_time\<close>.
\<close>

record timer_id_t =
  ev_done :: bool
  ev_fsh :: bool
  at :: where_t
  passed :: u64

text \<open>
  Where the timer thread is: not started, at the test of its outer loop, about to test
  device \<open>i\<close>, asleep on the \<open>event_cond\<close> of device \<open>i\<close>, about to release device \<open>i\<close>, or
  past \<open>pthread_exit\<close>. The other two numbers are its locals \<open>fsh\<close> and \<open>event\<close>.
\<close>

datatype tphase = Idle | Top | Scan nat nat nat | Sleep nat nat nat | Wake nat nat nat | Exited

record timer_t =
  dev_list :: "timer_id_t list"
  clock :: u64
  timer_started :: bool
  timer_stop :: bool
  phase :: tphase

definition current_time :: "timer_t \<Rightarrow> u64" where
  "current_time s = clock s"

section \<open>Operations\<close>

text \<open>The initial values of the static variables.\<close>

definition zero_timer :: timer_t where
  "zero_timer = \<lparr>dev_list = [], clock = 0, timer_started = False, timer_stop = False, phase = Idle\<rparr>"

definition fresh_dev :: timer_id_t where
  "fresh_dev = \<lparr>ev_done = False, ev_fsh = False, at = Running, passed = 0\<rparr>"

text \<open>The result is whether a device was attached; the NULL of the code is \<open>False\<close>.\<close>

definition attach_event :: "timer_t \<Rightarrow> bool \<times> timer_t" where
  "attach_event s = (if timer_started s then (False, s)
     else (True, s\<lparr>dev_list := fresh_dev # dev_list s\<rparr>))"

definition start_timer :: "timer_t \<Rightarrow> timer_t" where
  "start_timer s = s\<lparr>timer_started := True, phase := Top\<rparr>"

text \<open>\<open>pthread_cond_signal\<close> on the \<open>event_cond\<close> of device \<open>i\<close> and on the \<open>timer_cond\<close> of a device.\<close>

fun signal_event :: "nat \<Rightarrow> tphase \<Rightarrow> tphase" where
  "signal_event i (Sleep j f e) = (if j = i then Scan j f e else Sleep j f e)"
| "signal_event i p = p"

definition signal_timer :: "timer_id_t \<Rightarrow> timer_id_t" where
  "signal_timer d = (if at d = Blocked then d\<lparr>at := Arrived\<rparr> else d)"

text \<open>One step of the timer thread; \<open>None\<close> when it sleeps, has exited or was never started.\<close>

definition timer_routine :: "timer_t \<Rightarrow> timer_t option" where
  "timer_routine s = (case phase s of
     Top \<Rightarrow> Some (s\<lparr>phase := if timer_stop s then Exited else Scan 0 0 0\<rparr>)
   | Scan i f e \<Rightarrow>
       if i < length (dev_list s) then
         (let d = dev_list s ! i in
          if \<not> ev_done d \<and> \<not> ev_fsh d then Some (s\<lparr>phase := Sleep i f e\<rparr>)
          else Some (s\<lparr>phase := Scan (Suc i) (if ev_fsh d then Suc f else f) (Suc e)\<rparr>))
       else Some (s\<lparr>clock := clock s + 1, phase := Wake 0 f e\<rparr>)
   | Wake i f e \<Rightarrow>
       if i < length (dev_list s) then
         Some (s\<lparr>dev_list := (dev_list s)[i := signal_timer ((dev_list s ! i)\<lparr>ev_done := False\<rparr>)],
                 phase := Wake (Suc i) f e\<rparr>)
       else Some (s\<lparr>phase := if f = e then Exited else Top\<rparr>)
   | _ \<Rightarrow> None)"

text \<open>\<open>next_slot\<close> is two critical sections: the announcement, and one turn of the waiting loop.\<close>

definition next_slot_announce :: "nat \<Rightarrow> timer_t \<Rightarrow> timer_t" where
  "next_slot_announce i s =
     s\<lparr>dev_list := (dev_list s)[i := (dev_list s ! i)\<lparr>ev_done := True, at := Arrived\<rparr>],
       phase := signal_event i (phase s)\<rparr>"

definition next_slot_wait :: "nat \<Rightarrow> timer_t \<Rightarrow> timer_t" where
  "next_slot_wait i s = (let d = dev_list s ! i in
     s\<lparr>dev_list := (dev_list s)[i := if ev_done d then d\<lparr>at := Blocked\<rparr>
                                     else d\<lparr>at := Running, passed := passed d + 1\<rparr>]\<rparr>)"

definition detach_event :: "nat \<Rightarrow> timer_t \<Rightarrow> timer_t" where
  "detach_event i s =
     s\<lparr>dev_list := (dev_list s)[i := (dev_list s ! i)\<lparr>ev_fsh := True, at := Detached\<rparr>],
       phase := signal_event i (phase s)\<rparr>"

text \<open>A wake-up without a signal.\<close>

definition spurious_dev :: "nat \<Rightarrow> timer_t \<Rightarrow> timer_t" where
  "spurious_dev i s = s\<lparr>dev_list := (dev_list s)[i := signal_timer (dev_list s ! i)]\<rparr>"

definition spurious_timer :: "timer_t \<Rightarrow> timer_t" where
  "spurious_timer s = s\<lparr>phase := (case phase s of Sleep i f e \<Rightarrow> Scan i f e | p \<Rightarrow> p)\<rparr>"

text \<open>\<open>stop_timer\<close>: the request, and after the join the release of the list.\<close>

definition stop_request :: "timer_t \<Rightarrow> timer_t" where
  "stop_request s = s\<lparr>timer_stop := True\<rparr>"

definition stop_release :: "timer_t \<Rightarrow> timer_t" where
  "stop_release s = s\<lparr>dev_list := []\<rparr>"

section \<open>The interleaving\<close>

text \<open>Which thread moves, or the machine itself with a spurious wake-up.\<close>

datatype tact = Timer_thread | Dev nat | Main | Spurious

definition dev_at :: "timer_t \<Rightarrow> nat \<Rightarrow> where_t \<Rightarrow> bool" where
  "dev_at s i w \<longleftrightarrow> i < length (dev_list s) \<and> at (dev_list s ! i) = w"

inductive tstep :: "timer_t \<Rightarrow> tact \<Rightarrow> timer_t \<Rightarrow> bool" where
  timer: "timer_routine s = Some s' \<Longrightarrow> tstep s Timer_thread s'"
| announce: "dev_at s i Running \<Longrightarrow> tstep s (Dev i) (next_slot_announce i s)"
| wait_turn: "dev_at s i Arrived \<Longrightarrow> tstep s (Dev i) (next_slot_wait i s)"
| detach: "dev_at s i Running \<Longrightarrow> tstep s (Dev i) (detach_event i s)"
| request: "tstep s Main (stop_request s)"
| release: "phase s = Exited \<Longrightarrow> timer_stop s \<Longrightarrow> tstep s Main (stop_release s)"
| wake_dev: "dev_at s i Blocked \<Longrightarrow> tstep s Spurious (spurious_dev i s)"
| wake_timer: "tstep s Spurious (spurious_timer s)"

inductive_cases timer_thread_cases: "tstep s Timer_thread s'"
inductive_cases dev_cases: "tstep s (Dev i) s'"
inductive_simps main_simps: "tstep s Main s'"

text \<open>The boot sequence attaches \<open>n\<close> devices and then starts the timer.\<close>

primrec attach_n :: "nat \<Rightarrow> timer_t \<Rightarrow> timer_t" where
  "attach_n 0 s = s"
| "attach_n (Suc n) s = attach_n n (snd (attach_event s))"

definition booted :: "nat \<Rightarrow> timer_t" where
  "booted n = start_timer (attach_n n zero_timer)"

definition timer_init :: "timer_t \<Rightarrow> bool" where
  "timer_init s \<longleftrightarrow> (\<exists>n. s = booted n)"

lemma attach_n_eq: "\<not> timer_started s \<Longrightarrow>
    attach_n n s = s\<lparr>dev_list := replicate n fresh_dev @ dev_list s\<rparr>"
  by (induction n arbitrary: s) (simp_all add: attach_event_def replicate_app_Cons_same)

lemma booted_eq: "booted n = \<lparr>dev_list = replicate n fresh_dev, clock = 0, timer_started = True,
    timer_stop = False, phase = Top\<rparr>"
  by (simp add: booted_def start_timer_def attach_n_eq zero_timer_def)

section \<open>The invariant of the barrier\<close>

text \<open>The timer has advanced the clock and has not yet come to device \<open>i\<close>.\<close>

definition pending :: "timer_t \<Rightarrow> nat \<Rightarrow> bool" where
  "pending s i \<longleftrightarrow> (case phase s of Wake k f e \<Rightarrow> k \<le> i | _ \<Rightarrow> False)"

text \<open>
  A device that has not detached has passed as many slots as the clock shows, or one less
  while it is still inside the call of \<open>next_slot\<close> that the clock has already counted.
\<close>

definition dev_ok :: "timer_t \<Rightarrow> nat \<Rightarrow> timer_id_t \<Rightarrow> bool" where
  "dev_ok s i d \<longleftrightarrow>
     (ev_fsh d \<longleftrightarrow> at d = Detached) \<and>
     (at d = Running \<or> at d = Detached \<longrightarrow> \<not> ev_done d) \<and>
     (at d = Blocked \<longrightarrow> ev_done d) \<and>
     (pending s i \<longrightarrow> ev_done d \<or> ev_fsh d) \<and>
     (at d \<noteq> Detached \<longrightarrow>
        passed d + (if at d \<noteq> Running \<and> (\<not> ev_done d \<or> pending s i) then 1 else 0) = clock s)"

text \<open>The devices below \<open>k\<close> are done or detached, and \<open>f\<close> of them are detached.\<close>

definition scanned :: "timer_id_t list \<Rightarrow> nat \<Rightarrow> nat \<Rightarrow> nat \<Rightarrow> bool" where
  "scanned ds k f e \<longleftrightarrow> k \<le> length ds \<and> e = k \<and> f = card {j. j < k \<and> ev_fsh (ds ! j)} \<and>
     (\<forall>j<k. ev_done (ds ! j) \<or> ev_fsh (ds ! j))"

definition phase_ok :: "timer_t \<Rightarrow> bool" where
  "phase_ok s \<longleftrightarrow> (case phase s of
     Scan k f e \<Rightarrow> scanned (dev_list s) k f e
   | Sleep k f e \<Rightarrow> scanned (dev_list s) k f e \<and> k < length (dev_list s) \<and>
       \<not> ev_done (dev_list s ! k) \<and> \<not> ev_fsh (dev_list s ! k)
   | Wake k f e \<Rightarrow> k \<le> length (dev_list s) \<and> (f = e \<longrightarrow> (\<forall>d\<in>set (dev_list s). ev_fsh d))
   | Exited \<Rightarrow> timer_stop s \<or> (\<forall>d\<in>set (dev_list s). ev_fsh d)
   | Idle \<Rightarrow> False
   | Top \<Rightarrow> True)"

definition tinv :: "timer_t \<Rightarrow> bool" where
  "tinv s \<longleftrightarrow> (\<forall>i < length (dev_list s). dev_ok s i (dev_list s ! i)) \<and> phase_ok s"

lemma scanned_0 [simp]: "scanned ds 0 0 0"
  by (simp add: scanned_def)

lemma card_below_Suc: "card {j. j < Suc k \<and> P j} = (if P k then Suc (card {j. j < k \<and> P j}) else card {j. j < k \<and> P j})"
proof -
  have "{j. j < Suc k \<and> P j} = (if P k then insert k {j. j < k \<and> P j} else {j. j < k \<and> P j})"
    by (auto simp: less_Suc_eq)
  then show ?thesis by simp
qed

lemma card_below_all: "card {j. j < (k :: nat) \<and> P j} = k \<Longrightarrow> j < k \<Longrightarrow> P j"
  using card_subset_eq [of "{..<k}" "{j. j < k \<and> P j}"] by auto

lemma scanned_Suc:
  assumes "scanned ds k f e" "k < length ds" "ev_done (ds ! k) \<or> ev_fsh (ds ! k)"
  shows "scanned ds (Suc k) (if ev_fsh (ds ! k) then Suc f else f) (Suc e)"
  using assms by (simp add: scanned_def card_below_Suc All_less_Suc)

lemma scanned_all:
  assumes "scanned ds k f e" "\<not> k < length ds"
  shows "e = length ds" "\<forall>j<length ds. ev_done (ds ! j) \<or> ev_fsh (ds ! j)"
    "f = e \<Longrightarrow> \<forall>d\<in>set ds. ev_fsh d"
proof -
  have k: "k = length ds" "e = k" "f = card {j. j < k \<and> ev_fsh (ds ! j)}"
    "\<forall>j<k. ev_done (ds ! j) \<or> ev_fsh (ds ! j)" using assms by (simp_all add: scanned_def)
  then show "e = length ds" "\<forall>j<length ds. ev_done (ds ! j) \<or> ev_fsh (ds ! j)" by simp_all
  assume "f = e"
  with k have "card {j. j < k \<and> ev_fsh (ds ! j)} = k" by simp
  from card_below_all [OF this] k(1) show "\<forall>d\<in>set ds. ev_fsh d" by (auto simp: in_set_conv_nth)
qed

text \<open>A device outside the scanned prefix, or one whose flags stay, changes nothing there.\<close>

lemma scanned_update:
  assumes "scanned ds k f e" "k \<le> i \<or> ev_fsh d = ev_fsh (ds ! i) \<and> ev_done d = ev_done (ds ! i)"
  shows "scanned (ds[i := d]) k f e"
proof -
  have same: "ev_fsh (ds[i := d] ! j) = ev_fsh (ds ! j)" "ev_done (ds[i := d] ! j) = ev_done (ds ! j)"
    if "j < k" for j
    using that assms by (cases "j = i"; simp add: nth_list_update scanned_def)+
  have "{j. j < k \<and> ev_fsh (ds[i := d] ! j)} = {j. j < k \<and> ev_fsh (ds ! j)}"
    using same by auto
  with assms(1) same show ?thesis by (simp add: scanned_def)
qed


text \<open>Every operation keeps the invariant.\<close>

lemma pending_Wake [simp]: "phase s = Wake k f e \<Longrightarrow> pending s i \<longleftrightarrow> k \<le> i"
  by (simp add: pending_def)

lemma pending_other: "(\<And>k f e. phase s \<noteq> Wake k f e) \<Longrightarrow> \<not> pending s i"
  by (simp add: pending_def split: tphase.splits)

lemma pending_signal [simp]: "pending (s\<lparr>dev_list := ds, phase := signal_event i (phase s)\<rparr>) j = pending s j"
  by (cases "phase s") (simp_all add: pending_def)

text \<open>A step of device \<open>i\<close> that keeps the clock leaves the other devices' conditions as they are.\<close>

lemma tinv_dev_step:
  assumes "tinv s" "i < length (dev_list s)" "s' = s\<lparr>dev_list := (dev_list s)[i := d], phase := p\<rparr>"
    and "\<And>j. pending s' j = pending s j"
    and "dev_ok s i d" "phase_ok s'"
  shows "tinv s'"
proof -
  have "dev_ok s' j (dev_list s' ! j)" if "j < length (dev_list s')" for j
    using that assms by (cases "j = i") (auto simp: tinv_def dev_ok_def)
  with assms(6) show ?thesis by (simp add: tinv_def)
qed

lemma phase_ok_signal:
  assumes "phase_ok s" "i < length (dev_list s)" "at (dev_list s ! i) = Running" "tinv s"
    and "ev_fsh (dev_list s ! i) \<Longrightarrow> ev_fsh d"
  shows "phase_ok (s\<lparr>dev_list := (dev_list s)[i := d], phase := signal_event i (phase s)\<rparr>)"
proof -
  have r: "\<not> ev_done (dev_list s ! i)" "\<not> ev_fsh (dev_list s ! i)"
    using assms(2-4) by (auto simp: tinv_def dev_ok_def)
  have live: "\<not> (\<forall>d\<in>set (dev_list s). ev_fsh d)" using r assms(2) nth_mem by blast
  have out: "k \<le> i" if "scanned (dev_list s) k f e" for k f e
    using that r by (meson scanned_def not_le_imp_less)
  show ?thesis
  proof (cases "phase s")
    case (Sleep k f e)
    with assms(1,2) r out show ?thesis
      by (cases "i = k") (auto simp: phase_ok_def intro!: scanned_update)
  qed (use assms(1,2) r out live in \<open>auto simp: phase_ok_def intro!: scanned_update\<close>)
qed

lemma announce_inv: "tinv s \<Longrightarrow> dev_at s i Running \<Longrightarrow> tinv (next_slot_announce i s)"
  unfolding next_slot_announce_def
  by (rule tinv_dev_step [OF _ _ refl])
     (auto simp: dev_at_def tinv_def dev_ok_def intro!: phase_ok_signal)

lemma detach_inv: "tinv s \<Longrightarrow> dev_at s i Running \<Longrightarrow> tinv (detach_event i s)"
  unfolding detach_event_def
  by (rule tinv_dev_step [OF _ _ refl])
     (auto simp: dev_at_def tinv_def dev_ok_def intro!: phase_ok_signal)

lemma phase_ok_same_flags:
  assumes "phase_ok s" "i < length (dev_list s)"
    and "ev_done d = ev_done (dev_list s ! i)" "ev_fsh d = ev_fsh (dev_list s ! i)"
  shows "phase_ok (s\<lparr>dev_list := (dev_list s)[i := d]\<rparr>)"
proof -
  have "ev_fsh d \<or> \<not> (\<forall>d\<in>set (dev_list s). ev_fsh d)" using assms(2,4) nth_mem by metis
  then have "(\<forall>d\<in>set (dev_list s). ev_fsh d) \<Longrightarrow> (\<forall>x\<in>set ((dev_list s)[i := d]). ev_fsh x)"
    using set_update_subset_insert [of "dev_list s" i d] by blast
  moreover have "ev_done ((dev_list s)[i := d] ! k) = ev_done (dev_list s ! k)"
    "ev_fsh ((dev_list s)[i := d] ! k) = ev_fsh (dev_list s ! k)" for k
    using assms(2-4) by (cases "k = i"; simp)+
  ultimately show ?thesis
    using assms by (auto simp: phase_ok_def intro!: scanned_update split: tphase.splits)
qed

lemma wait_inv: "tinv s \<Longrightarrow> dev_at s i Arrived \<Longrightarrow> tinv (next_slot_wait i s)"
proof -
  assume a: "tinv s" "dev_at s i Arrived"
  let ?d = "if ev_done (dev_list s ! i) then (dev_list s ! i)\<lparr>at := Blocked\<rparr>
    else (dev_list s ! i)\<lparr>at := Running, passed := passed (dev_list s ! i) + 1\<rparr>"
  have eq: "next_slot_wait i s = s\<lparr>dev_list := (dev_list s)[i := ?d], phase := phase s\<rparr>"
    by (simp add: next_slot_wait_def Let_def)
  show ?thesis
    by (rule tinv_dev_step [OF a(1) _ eq])
       (use a in \<open>auto simp: dev_at_def tinv_def dev_ok_def pending_def eq intro!: phase_ok_same_flags\<close>)
qed

lemma spurious_dev_inv: "tinv s \<Longrightarrow> dev_at s i Blocked \<Longrightarrow> tinv (spurious_dev i s)"
proof -
  assume a: "tinv s" "dev_at s i Blocked"
  have eq: "spurious_dev i s = s\<lparr>dev_list := (dev_list s)[i := signal_timer (dev_list s ! i)], phase := phase s\<rparr>"
    by (simp add: spurious_dev_def)
  show ?thesis
    by (rule tinv_dev_step [OF a(1) _ eq])
       (use a in \<open>auto simp: dev_at_def tinv_def dev_ok_def pending_def eq signal_timer_def intro!: phase_ok_same_flags\<close>)
qed

text \<open>The steps that write no device: only \<open>pending\<close> and the clock matter to the devices.\<close>

lemma tinv_phase_step:
  assumes "tinv s" "s' = s\<lparr>phase := p, timer_stop := b\<rparr>" "\<And>i. i < length (dev_list s) \<Longrightarrow> pending s' i = pending s i"
    and "phase_ok s'"
  shows "tinv s'"
  using assms by (auto simp: tinv_def dev_ok_def)

lemma spurious_timer_inv: "tinv s \<Longrightarrow> tinv (spurious_timer s)"
  by (rule tinv_phase_step [where p = "phase (spurious_timer s)" and b = "timer_stop s"])
     (auto simp: spurious_timer_def tinv_def phase_ok_def pending_def split: tphase.splits)

lemma stop_request_inv: "tinv s \<Longrightarrow> tinv (stop_request s)"
  by (rule tinv_phase_step [where p = "phase s" and b = True])
     (auto simp: stop_request_def tinv_def phase_ok_def pending_def split: tphase.splits)

lemma stop_release_inv: "phase s = Exited \<Longrightarrow> tinv (stop_release s)"
  by (simp add: stop_release_def tinv_def phase_ok_def)

text \<open>The steps of the timer thread, by the place it is at.\<close>

lemma timer_routine_cases [consumes 1, case_names stop start sleep visit advance wakeup leave]:
  assumes "timer_routine s = Some s'"
  obtains "phase s = Top" "timer_stop s" "s' = s\<lparr>phase := Exited\<rparr>"
  | "phase s = Top" "\<not> timer_stop s" "s' = s\<lparr>phase := Scan 0 0 0\<rparr>"
  | i f e where "phase s = Scan i f e" "i < length (dev_list s)" "\<not> ev_done (dev_list s ! i)"
      "\<not> ev_fsh (dev_list s ! i)" "s' = s\<lparr>phase := Sleep i f e\<rparr>"
  | i f e where "phase s = Scan i f e" "i < length (dev_list s)"
      "ev_done (dev_list s ! i) \<or> ev_fsh (dev_list s ! i)"
      "s' = s\<lparr>phase := Scan (Suc i) (if ev_fsh (dev_list s ! i) then Suc f else f) (Suc e)\<rparr>"
  | i f e where "phase s = Scan i f e" "\<not> i < length (dev_list s)" "s' = s\<lparr>clock := clock s + 1, phase := Wake 0 f e\<rparr>"
  | i f e where "phase s = Wake i f e" "i < length (dev_list s)"
      "s' = s\<lparr>dev_list := (dev_list s)[i := signal_timer ((dev_list s ! i)\<lparr>ev_done := False\<rparr>)], phase := Wake (Suc i) f e\<rparr>"
  | i f e where "phase s = Wake i f e" "\<not> i < length (dev_list s)" "s' = s\<lparr>phase := if f = e then Exited else Top\<rparr>"
  using assms by (cases "phase s") (auto simp: timer_routine_def Let_def split: if_splits)

lemma phase_step_ok:
  assumes "tinv s" "s' = s\<lparr>phase := p\<rparr>" "\<And>i. i < length (dev_list s) \<Longrightarrow> pending s' i = pending s i" "phase_ok s'"
  shows "tinv s'"
  by (rule tinv_phase_step [where p = p and b = "timer_stop s", OF assms(1) _ assms(3,4)]) (simp_all add: assms(2))

lemma advance_inv:
  assumes "tinv s" "phase s = Scan i f e" "\<not> i < length (dev_list s)"
  shows "tinv (s\<lparr>clock := clock s + 1, phase := Wake 0 f e\<rparr>)" (is "tinv ?s'")
proof -
  from assms have "scanned (dev_list s) i f e" by (simp add: tinv_def phase_ok_def)
  note all = scanned_all [OF this assms(3)]
  have "dev_ok ?s' j (dev_list s ! j)" if "j < length (dev_list s)" for j
  proof -
    from assms(1) that have "dev_ok s j (dev_list s ! j)" by (simp add: tinv_def)
    moreover have "ev_done (dev_list s ! j) \<or> ev_fsh (dev_list s ! j)" using all(2) that by simp
    ultimately show ?thesis using assms(2) by (auto simp: dev_ok_def pending_def)
  qed
  moreover have "phase_ok ?s'" using all(1,3) by (auto simp: phase_ok_def)
  ultimately show ?thesis by (simp add: tinv_def)
qed

lemma wakeup_inv:
  assumes "tinv s" "phase s = Wake i f e" "i < length (dev_list s)"
  shows "tinv (s\<lparr>dev_list := (dev_list s)[i := signal_timer ((dev_list s ! i)\<lparr>ev_done := False\<rparr>)],
    phase := Wake (Suc i) f e\<rparr>)" (is "tinv ?s'")
proof -
  let ?d = "signal_timer ((dev_list s ! i)\<lparr>ev_done := False\<rparr>)"
  have flag: "ev_fsh ?d = ev_fsh (dev_list s ! i)" by (simp add: signal_timer_def)
  have d: "dev_ok s i (dev_list s ! i)" using assms by (simp add: tinv_def)
  have "dev_ok ?s' j (dev_list ?s' ! j)" if "j < length (dev_list s)" for j
  proof (cases "j = i")
    case True
    with d assms(2,3) show ?thesis by (auto simp: dev_ok_def pending_def signal_timer_def)
  next
    case False
    with that assms show ?thesis by (auto simp: tinv_def dev_ok_def pending_def Suc_le_eq)
  qed
  moreover have "phase_ok ?s'"
    using assms flag set_update_subset_insert [of "dev_list s" i ?d]
    by (auto simp: tinv_def phase_ok_def)
  ultimately show ?thesis by (simp add: tinv_def)
qed

lemma timer_routine_inv:
  assumes "timer_routine s = Some s'" "tinv s"
  shows "tinv s'"
  using assms(1)
proof (cases rule: timer_routine_cases)
  case (visit i f e)
  with assms(2) show ?thesis
    by (intro phase_step_ok [OF assms(2) visit(4)]) (auto simp: tinv_def phase_ok_def pending_def scanned_Suc)
next
  case (advance i f e)
  with advance_inv [OF assms(2) advance(1,2)] show ?thesis by simp
next
  case (wakeup i f e)
  with wakeup_inv [OF assms(2) wakeup(1,2)] show ?thesis by simp
next
  case (leave i f e)
  with assms(2) show ?thesis
    by (intro phase_step_ok [OF assms(2) leave(3)]) (auto simp: tinv_def phase_ok_def pending_def)
next
  case (sleep i f e)
  with assms(2) show ?thesis
    by (intro phase_step_ok [OF assms(2) sleep(5)]) (auto simp: tinv_def phase_ok_def pending_def)
next
  case start
  with assms(2) show ?thesis
    by (intro phase_step_ok [OF assms(2) start(3)]) (auto simp: tinv_def phase_ok_def pending_def)
next
  case stop
  with assms(2) show ?thesis
    by (intro phase_step_ok [OF assms(2) stop(3)]) (auto simp: tinv_def phase_ok_def pending_def)
qed

lemma tstep_inv: "tstep s a s' \<Longrightarrow> tinv s \<Longrightarrow> tinv s'"
  by (induction rule: tstep.induct)
     (auto intro: timer_routine_inv announce_inv wait_inv detach_inv spurious_dev_inv
        spurious_timer_inv stop_request_inv stop_release_inv)

lemma booted_inv: "tinv (booted n)"
  by (simp add: booted_eq tinv_def dev_ok_def phase_ok_def pending_def fresh_dev_def)

interpretation barrier: step_invariant timer_init tstep tinv
  by unfold_locales (auto simp: timer_init_def booted_inv intro: tstep_inv)

text \<open>What the invariant says of one device.\<close>

lemma tinv_flags:
  assumes "tinv s" "d \<in> set (dev_list s)"
  shows "ev_fsh d \<longleftrightarrow> at d = Detached" "at d = Running \<Longrightarrow> \<not> ev_done d" "at d = Blocked \<Longrightarrow> ev_done d"
    "at d = Running \<Longrightarrow> passed d = clock s"
    "at d \<noteq> Detached \<Longrightarrow> passed d = clock s \<or> passed d + 1 = clock s"
  using assms by (auto simp: tinv_def dev_ok_def in_set_conv_nth split: if_splits)

text \<open>Only the timer thread moves the clock.\<close>

lemma tstep_clock: "tstep s a s' \<Longrightarrow> clock s' \<noteq> clock s \<Longrightarrow> timer_routine s = Some s' \<and> a = Timer_thread"
  by (cases rule: tstep.cases)
     (auto simp: next_slot_announce_def next_slot_wait_def detach_event_def
        stop_request_def stop_release_def spurious_dev_def spurious_timer_def Let_def)

section \<open>One round of the timer\<close>

primrec timer_n :: "nat \<Rightarrow> timer_t \<Rightarrow> timer_t option" where
  "timer_n 0 s = Some s"
| "timer_n (Suc n) s = do { s \<leftarrow> timer_routine s; timer_n n s }"

lemma timer_n_add: "timer_n (m + n) s = do { s \<leftarrow> timer_n m s; timer_n n s }"
  by (induction m arbitrary: s) (simp_all add: Option.bind_assoc)

lemma timer_n_run: "timer_n n s = Some s' \<Longrightarrow> run_of tstep s (replicate n Timer_thread) s'"
  by (induction n arbitrary: s) (auto simp: bind_eq_Some_conv intro: tstep.timer)

definition ready_dev :: "timer_id_t \<Rightarrow> bool" where
  "ready_dev d \<longleftrightarrow> ev_done d \<or> ev_fsh d"

definition let_go :: "timer_id_t \<Rightarrow> timer_id_t" where
  "let_go d = signal_timer (d\<lparr>ev_done := False\<rparr>)"

lemma scan_rounds:
  "\<forall>d\<in>set (drop i (dev_list s)). ready_dev d \<Longrightarrow> phase s = Scan i f e \<Longrightarrow> i + n = length (dev_list s) \<Longrightarrow>
     timer_n n s = Some (s\<lparr>phase := Scan (i + n) (f + length (filter ev_fsh (drop i (dev_list s)))) (e + n)\<rparr>)"
proof (induction n arbitrary: s i f e)
  case 0
  then show ?case by (cases s) simp
next
  case (Suc n)
  then have i: "i < length (dev_list s)" by simp
  then have dr: "drop i (dev_list s) = dev_list s ! i # drop (Suc i) (dev_list s)" by (simp add: Cons_nth_drop_Suc)
  with Suc.prems(1) have r: "ready_dev (dev_list s ! i)" "\<forall>d\<in>set (drop (Suc i) (dev_list s)). ready_dev d" by auto
  let ?s = "s\<lparr>phase := Scan (Suc i) (if ev_fsh (dev_list s ! i) then Suc f else f) (Suc e)\<rparr>"
  have "timer_routine s = Some ?s"
    using Suc.prems(2) i r(1) by (auto simp: timer_routine_def ready_dev_def)
  moreover have "timer_n n ?s = Some (?s\<lparr>phase := Scan (Suc i + n)
      ((if ev_fsh (dev_list s ! i) then Suc f else f) + length (filter ev_fsh (drop (Suc i) (dev_list s)))) (Suc e + n)\<rparr>)"
    using Suc.IH [of "Suc i" ?s "if ev_fsh (dev_list s ! i) then Suc f else f" "Suc e"] r(2) Suc.prems(3) by simp
  ultimately show ?case by (simp add: dr)
qed

lemma wake_rounds:
  "phase s = Wake i f e \<Longrightarrow> i + n = length (dev_list s) \<Longrightarrow>
     timer_n n s = Some (s\<lparr>dev_list := take i (dev_list s) @ map let_go (drop i (dev_list s)), phase := Wake (i + n) f e\<rparr>)"
proof (induction n arbitrary: s i)
  case 0
  then show ?case by (cases s) simp
next
  case (Suc n)
  then have i: "i < length (dev_list s)" by simp
  let ?ds = "(dev_list s)[i := let_go (dev_list s ! i)]"
  let ?s = "s\<lparr>dev_list := ?ds, phase := Wake (Suc i) f e\<rparr>"
  have "timer_routine s = Some ?s"
    using Suc.prems(1) i by (simp add: timer_routine_def let_go_def)
  moreover have "timer_n n ?s = Some (?s\<lparr>dev_list := take (Suc i) ?ds @ map let_go (drop (Suc i) ?ds), phase := Wake (Suc i + n) f e\<rparr>)"
    using Suc.IH [of ?s "Suc i"] Suc.prems(2) by simp
  moreover have "take (Suc i) ?ds @ map let_go (drop (Suc i) ?ds) = take i (dev_list s) @ map let_go (drop i (dev_list s))"
    using i by (simp add: take_Suc_update_at_end Cons_nth_drop_Suc [symmetric])
  ultimately show ?case by simp
qed

section \<open>Properties\<close>

text \<open>
  C7: the clock only moves when the whole system has finished the slot: in every state the
  interleaving can reach, a step that changes \<open>_time\<close> is one of the timer thread, adds one,
  and is taken when every device has announced the end of its slot or has detached; none is
  computing. So a device that computes reads the same time throughout its slot.
\<close>
theorem clock_waits_for_devices:
  assumes "reach timer_init tstep s" "tstep s a s'" "clock s' \<noteq> clock s"
  shows "a = Timer_thread \<and> clock s' = clock s + 1 \<and> dev_list s' = dev_list s \<and>
    (\<forall>d\<in>set (dev_list s). at d \<noteq> Running \<and> (ev_done d \<or> at d = Detached))"
proof -
  have inv: "tinv s" by (rule barrier.reach_inv [OF assms(1)])
  note t = tstep_clock [OF assms(2,3)]
  from t have "timer_routine s = Some s'" by simp
  then show ?thesis using assms(3)
  proof (cases rule: timer_routine_cases)
    case (advance i f e)
    with inv have "scanned (dev_list s) i f e" by (simp add: tinv_def phase_ok_def)
    from scanned_all(2) [OF this advance(2)] have r: "\<forall>d\<in>set (dev_list s). ev_done d \<or> ev_fsh d"
      by (simp add: all_set_conv_all_nth)
    have "at d \<noteq> Running \<and> (ev_done d \<or> at d = Detached)" if "d \<in> set (dev_list s)" for d
      using r that tinv_flags(1,2) [OF inv that] by auto
    with advance t show ?thesis by simp
  qed simp_all
qed


text \<open>A slot of one device: it announces, the timer visits it and advances.\<close>

definition demo_slot :: timer_t where
  "demo_slot = (booted 1)\<lparr>dev_list := [fresh_dev\<lparr>ev_done := True, at := Arrived\<rparr>], phase := Scan 1 0 1\<rparr>"

lemma reach_booted: "reach timer_init tstep (booted n)"
  by (rule reach.reach_init) (auto simp: timer_init_def)

lemma reach_demo_slot: "reach timer_init tstep demo_slot"
proof -
  have 1: "tstep (booted 1) (Dev 0) (next_slot_announce 0 (booted 1))"
    by (rule tstep.announce) (simp add: dev_at_def booted_eq fresh_dev_def)
  have "timer_n 2 (next_slot_announce 0 (booted 1)) = Some demo_slot"
    by (simp add: numeral_2_eq_2 timer_routine_def next_slot_announce_def booted_eq demo_slot_def fresh_dev_def Let_def)
  from reach_run [OF timer_n_run [OF this] reach_step [OF reach_booted 1]] show ?thesis .
qed

theorem clock_waits_for_devices_witness:
  "at (hd (dev_list demo_slot)) \<noteq> Running \<and> clock (demo_slot\<lparr>clock := 1, phase := Wake 0 0 1\<rparr>) = clock demo_slot + 1"
proof -
  let ?s = "demo_slot\<lparr>clock := 1, phase := Wake 0 0 1\<rparr>"
  have "tstep demo_slot Timer_thread ?s"
    by (rule tstep.timer) (simp add: timer_routine_def demo_slot_def booted_eq)
  moreover have "clock ?s \<noteq> clock demo_slot" by (simp add: demo_slot_def booted_eq)
  ultimately have *: "(\<forall>d\<in>set (dev_list demo_slot). at d \<noteq> Running) \<and> clock ?s = clock demo_slot + 1"
    using clock_waits_for_devices [OF reach_demo_slot, of Timer_thread ?s] by blast
  have "hd (dev_list demo_slot) \<in> set (dev_list demo_slot)" by (simp add: demo_slot_def)
  with * show ?thesis by blast
qed

text \<open>
  The devices run in lockstep: in every reachable state a device that computes has
  returned from \<open>next_slot\<close> exactly as often as the clock has advanced, so any two of them
  are in the same slot, and no attached device is more than one slot behind.
\<close>
lemma devices_in_lockstep:
  assumes "reach timer_init tstep s"
  shows "(\<forall>d\<in>set (dev_list s). at d = Running \<longrightarrow> passed d = current_time s) \<and>
    (\<forall>d\<in>set (dev_list s). at d \<noteq> Detached \<longrightarrow> passed d = current_time s \<or> passed d + 1 = current_time s)"
  using tinv_flags(4,5) [OF barrier.reach_inv [OF assms]] by (auto simp: current_time_def)

lemma devices_in_lockstep_witness: "passed (hd (dev_list demo_slot)) = current_time demo_slot \<or>
    passed (hd (dev_list demo_slot)) + 1 = current_time demo_slot"
  using devices_in_lockstep [OF reach_demo_slot] by (simp add: demo_slot_def fresh_dev_def)

text \<open>
  C18: no wake-up is lost. In every reachable state in which the timer was not asked to stop,
  either the timer thread can take a step, or it sleeps on a device that has not finished its
  slot and whose thread can move, or it has exited and every device has detached. A device
  asleep in \<open>next_slot\<close> still has its flag up, and the timer thread has not exited, so its
  release is to come.
\<close>
theorem no_lost_wakeup:
  assumes "reach timer_init tstep s" "\<not> timer_stop s"
  shows "((\<exists>s'. tstep s Timer_thread s') \<or>
      (\<exists>i f e. phase s = Sleep i f e \<and> (dev_at s i Running \<or> dev_at s i Arrived)) \<or>
      phase s = Exited \<and> (\<forall>d\<in>set (dev_list s). at d = Detached)) \<and>
    (\<forall>d\<in>set (dev_list s). at d = Blocked \<longrightarrow> ev_done d \<and> phase s \<noteq> Exited)"
proof -
  have inv: "tinv s" by (rule barrier.reach_inv [OF assms(1)])
  note flags = tinv_flags(1,3) [OF inv]
  have exit: "\<forall>d\<in>set (dev_list s). at d = Detached" if "phase s = Exited"
    using inv that assms(2) flags by (auto simp: tinv_def phase_ok_def)
  have step: "\<exists>s'. tstep s Timer_thread s'" if "timer_routine s \<noteq> None"
    using that by (auto intro: tstep.timer)
  have "(\<exists>s'. tstep s Timer_thread s') \<or>
      (\<exists>i f e. phase s = Sleep i f e \<and> (dev_at s i Running \<or> dev_at s i Arrived)) \<or> phase s = Exited"
  proof (cases "phase s")
    case Idle
    with inv show ?thesis by (simp add: tinv_def phase_ok_def)
  next
    case (Sleep i f e)
    with inv have i: "i < length (dev_list s)" "\<not> ev_done (dev_list s ! i)" "\<not> ev_fsh (dev_list s ! i)"
      by (auto simp: tinv_def phase_ok_def)
    have "at (dev_list s ! i) = Running \<or> at (dev_list s ! i) = Arrived"
      using flags [OF nth_mem [OF i(1)]] i(2,3) by (cases "at (dev_list s ! i)") auto
    with Sleep i(1) show ?thesis by (auto simp: dev_at_def)
  qed (use step in \<open>auto simp: timer_routine_def Let_def\<close>)
  with exit flags show ?thesis by auto
qed

theorem no_lost_wakeup_witness: "\<exists>s'. tstep demo_slot Timer_thread s'"
proof -
  have "\<not> timer_stop demo_slot" "\<And>i f e. phase demo_slot \<noteq> Sleep i f e" "phase demo_slot \<noteq> Exited"
    by (simp_all add: demo_slot_def booted_eq)
  with no_lost_wakeup [OF reach_demo_slot] show ?thesis by blast
qed

text \<open>
  A round of the timer completes: once every device has announced the end of its slot or
  has detached, the timer thread alone needs one step to start the round, one per device to
  visit it, one to advance the clock, one per device to release it and one to end the round.
  It never sleeps on the way, wakes every sleeping device, clears every flag, and exits
  exactly when all devices have detached.
\<close>
lemma timer_round_completes:
  assumes "phase s = Top" "\<not> timer_stop s" "\<forall>d\<in>set (dev_list s). ev_done d \<or> ev_fsh d"
  shows "timer_n (2 * length (dev_list s) + 3) s =
    Some (s\<lparr>dev_list := map let_go (dev_list s), clock := clock s + 1,
            phase := if \<forall>d\<in>set (dev_list s). ev_fsh d then Exited else Top\<rparr>)"
proof -
  let ?n = "length (dev_list s)" and ?f = "length (filter ev_fsh (dev_list s))"
  let ?s1 = "s\<lparr>phase := Scan 0 0 0\<rparr>"
  let ?s2 = "s\<lparr>phase := Scan ?n ?f ?n\<rparr>"
  let ?s3 = "s\<lparr>clock := clock s + 1, phase := Wake 0 ?f ?n\<rparr>"
  let ?s4 = "s\<lparr>clock := clock s + 1, dev_list := map let_go (dev_list s), phase := Wake ?n ?f ?n\<rparr>"
  have 1: "timer_routine s = Some ?s1" using assms by (simp add: timer_routine_def)
  have 2: "timer_n ?n ?s1 = Some ?s2"
    using scan_rounds [of 0 ?s1 0 0 ?n] assms(3) by (simp add: ready_dev_def)
  have 3: "timer_routine ?s2 = Some ?s3" by (simp add: timer_routine_def)
  have 4: "timer_n ?n ?s3 = Some ?s4" using wake_rounds [of ?s3 0 ?f ?n ?n] by simp
  have "?f = ?n \<longleftrightarrow> (\<forall>d\<in>set (dev_list s). ev_fsh d)"
    by (metis filter_id_conv length_filter_less nat_neq_iff)
  then have 5: "timer_routine ?s4 = Some (s\<lparr>dev_list := map let_go (dev_list s), clock := clock s + 1,
      phase := if \<forall>d\<in>set (dev_list s). ev_fsh d then Exited else Top\<rparr>)"
    by (simp add: timer_routine_def)
  have n: "2 * ?n + 3 = Suc (?n + Suc (?n + Suc 0))" by simp
  show ?thesis unfolding n timer_n.simps timer_n_add 1 2 3 4 5 Option.bind.bind_lunit by (simp only: 2 3 4 5 Option.bind.bind_lunit timer_n.simps)
qed

lemma timer_round_completes_witness:
  "\<exists>s'. timer_n 5 ((booted 1)\<lparr>dev_list := [fresh_dev\<lparr>ev_done := True, at := Blocked\<rparr>]\<rparr>) = Some s' \<and> clock s' = 1"
  using timer_round_completes [of "(booted 1)\<lparr>dev_list := [fresh_dev\<lparr>ev_done := True, at := Blocked\<rparr>]\<rparr>"]
  by (simp add: booted_eq)

text \<open>Devices can only be attached before the timer starts; later calls return NULL.\<close>

lemma attach_after_start: "attach_event (start_timer s) = (False, start_timer s)"
  by (simp add: attach_event_def start_timer_def)

end
