(* ===== verification/Os.thy ===== *)
theory Os
  imports Cpu Config Timer
begin

text \<open>
  The threads of \<open>src/os.c\<close>: one loader and one thread per processor, which share the kernel
  structure, the scheduler and the processes, and meet at the timer's barrier.

  A step of a thread is a stretch of its code with at most one critical section of the
  scheduler or the timer, so the relation below interleaves the threads at their locks:
  between the two critical sections that put a process back another thread may run, and so may
  it before the next process is fetched and between the dispatch and the instruction. The loader
  replaces the shared \<open>mm\<close> without a lock: its \<open>malloc\<close> and \<open>init_mm\<close> are two steps. An
  instruction (\<open>run\<close>) is one step. A thread that has called \<open>next_slot\<close> moves again when the timer has
  let its device go.
\<close>

section \<open>The state the threads share\<close>

text \<open>\<open>ld_done\<close> is the static \<open>done\<close> of \<open>os.c\<close>, \<open>avail\<close> the static \<open>avail_pid\<close> of the
  loader, and \<open>exit_code\<close> is set when a thread has called \<open>exit\<close>.\<close>

record os_t =
  osys :: sys_t
  ld_done :: bool
  avail :: u32
  exit_code :: "int option"

text \<open>What a thread does at the end of a step: go on, call \<open>next_slot\<close>, or \<open>detach_event\<close>.\<close>

datatype signal = Continue | Next_slot | Detach

section \<open>The processor threads\<close>

text \<open>
  Where a processor is: at the top of its loop, between the two critical sections of
  \<open>put_proc\<close>, about to fetch a process, at the second test, about to run, past the loop.
  \<open>cproc\<close> is \<open>proc\<close>; between freeing or putting back a process and the next fetch the code does
  not read it, and it is \<open>None\<close> here.
\<close>

datatype cpc = At_top | At_put | At_get | At_check | At_run | At_end

record cpu_t =
  cpu_pc :: cpc
  cproc :: "pref option"
  time_left :: int

definition cpu_start :: cpu_t where
  "cpu_start = \<lparr>cpu_pc = At_top, cproc = None, time_left = 0\<rparr>"

definition fetch :: "os_t \<Rightarrow> pref option \<times> os_t" where
  "fetch s = (let (q, sc) = get_proc (sched (osys s)) in (q, s\<lparr>osys := (osys s)\<lparr>sched := sc\<rparr>\<rparr>))"

text \<open>The first test of the loop body.\<close>

definition cpu_top :: "nat \<Rightarrow> cpu_t \<Rightarrow> os_t \<Rightarrow> (cpu_t \<times> os_t \<times> signal) option" where
  "cpu_top i c s = (case cproc c of
     None \<Rightarrow>
       let (q, s) = fetch s in
       if q = None then Some (c, s, Next_slot)
       else Some (c\<lparr>cproc := q, cpu_pc := At_check\<rparr>, s, Continue)
   | Some p \<Rightarrow> do {
       b \<leftarrow> procs (osys s) p;
       if pc b = csize (code b) then
         Some (c\<lparr>cproc := None, time_left := 0, cpu_pc := At_get\<rparr>,
           s\<lparr>osys := emit [Finished (int i) (pid b)] ((osys s)\<lparr>procs := (procs (osys s))(p := None)\<rparr>)\<rparr>, Continue)
       else if time_left c = 0 then
         Some (c\<lparr>cpu_pc := At_put\<rparr>,
           s\<lparr>osys := emit [Put_back (int i) (pid b)] ((osys s)\<lparr>sched := list_running p (sched (osys s))\<rparr>)\<rparr>, Continue)
       else Some (c\<lparr>cpu_pc := At_check\<rparr>, s, Continue) })"

definition cpu_put :: "cpu_t \<Rightarrow> os_t \<Rightarrow> (cpu_t \<times> os_t \<times> signal) option" where
  "cpu_put c s = do {
     p \<leftarrow> cproc c;
     sc \<leftarrow> put_mlq_proc (procs (osys s)) p (sched (osys s));
     Some (c\<lparr>cproc := None, cpu_pc := At_get\<rparr>, s\<lparr>osys := (osys s)\<lparr>sched := sc\<rparr>\<rparr>, Continue) }"

definition cpu_get :: "cpu_t \<Rightarrow> os_t \<Rightarrow> (cpu_t \<times> os_t \<times> signal) option" where
  "cpu_get c s = (let (q, s) = fetch s in Some (c\<lparr>cproc := q, cpu_pc := At_check\<rparr>, s, Continue))"

text \<open>The second test: stop, skip the slot, or start a new time slice of \<open>quantum\<close> instructions.\<close>

definition cpu_check :: "int \<Rightarrow> nat \<Rightarrow> cpu_t \<Rightarrow> os_t \<Rightarrow> (cpu_t \<times> os_t \<times> signal) option" where
  "cpu_check quantum i c s = (case cproc c of
     None \<Rightarrow>
       if ld_done s then Some (c\<lparr>cpu_pc := At_end\<rparr>, s\<lparr>osys := emit [Cpu_stopped (int i)] (osys s)\<rparr>, Detach)
       else Some (c\<lparr>cpu_pc := At_top\<rparr>, s, Next_slot)
   | Some p \<Rightarrow>
       if time_left c = 0 then do {
         b \<leftarrow> procs (osys s) p;
         Some (c\<lparr>time_left := quantum, cpu_pc := At_run\<rparr>, s\<lparr>osys := emit [Dispatched (int i) (pid b)] (osys s)\<rparr>, Continue) }
       else Some (c\<lparr>cpu_pc := At_run\<rparr>, s, Continue))"

text \<open>One instruction; \<open>time_left\<close> is an \<open>int\<close> of C and must not underflow.\<close>

definition cpu_exec :: "byte \<Rightarrow> vm_rg_struct \<Rightarrow> cpu_t \<Rightarrow> os_t \<Rightarrow> (cpu_t \<times> os_t \<times> signal) option" where
  "cpu_exec v junk c s = do {
     p \<leftarrow> cproc c;
     (_, y) \<leftarrow> run v junk (osys s) p;
     if time_left c = - (2 ^ 31) then None
     else Some (c\<lparr>time_left := time_left c - 1, cpu_pc := At_top\<rparr>, s\<lparr>osys := y\<rparr>, Next_slot) }"

definition cpu_routine :: "int \<Rightarrow> byte \<Rightarrow> vm_rg_struct \<Rightarrow> nat \<Rightarrow> cpu_t \<Rightarrow> os_t \<Rightarrow> (cpu_t \<times> os_t \<times> signal) option" where
  "cpu_routine quantum v junk i c s = (case cpu_pc c of
     At_top \<Rightarrow> cpu_top i c s
   | At_put \<Rightarrow> cpu_put c s
   | At_get \<Rightarrow> cpu_get c s
   | At_check \<Rightarrow> cpu_check quantum i c s
   | At_run \<Rightarrow> cpu_exec v junk c s
   | At_end \<Rightarrow> None)"

lemmas cpu_step_defs = cpu_routine_def cpu_top_def cpu_put_def cpu_get_def cpu_check_def cpu_exec_def

section \<open>The loader thread\<close>

text \<open>Where the loader is: at its outer loop, waiting for the start time, about to give the
  process its memory, at the first and at the second critical section of \<open>add_proc\<close>, past the loop.\<close>

datatype lpc = Ld_top | Ld_wait | Ld_init | Ld_add | Ld_queue | Ld_end

record ld_t =
  ld_pc :: lpc
  ld_i :: nat
  ld_proc :: "pref option"

definition ld_start :: ld_t where
  "ld_start = \<lparr>ld_pc = Ld_top, ld_i = 0, ld_proc = None\<rparr>"

text \<open>\<open>p\<close> is the address \<open>malloc\<close> returns, \<open>mem\<close> and \<open>cell\<close> what its memory holds.\<close>

definition ld_load :: "config \<Rightarrow> (string \<Rightarrow> string option) \<Rightarrow> pref \<Rightarrow> pcb_t \<Rightarrow> (nat \<Rightarrow> inst_t) \<Rightarrow>
    ld_t \<Rightarrow> os_t \<Rightarrow> (ld_t \<times> os_t \<times> signal) option" where
  "ld_load cfg fs p mem cell l s = (
     if int (ld_i l) < num_processes cfg then do {
       name \<leftarrow> rd (ld_path cfg) (ld_i l);
       pr \<leftarrow> rd (ld_prio cfg) (ld_i l);
       r \<leftarrow> load fs mem cell (avail s) name;
       case r of
         Inl e \<Rightarrow> Some (l, s\<lparr>exit_code := Some e\<rparr>, Continue)
       | Inr (b, n) \<Rightarrow> Some (l\<lparr>ld_pc := Ld_wait, ld_proc := Some p\<rparr>,
           s\<lparr>osys := set_pcb p (b\<lparr>prio := ucast pr\<rparr>) (osys s), avail := n\<rparr>, Continue) }
     else Some (l\<lparr>ld_pc := Ld_end\<rparr>, s\<lparr>ld_done := True\<rparr>, Detach))"

text \<open>
  Once the start time has come, \<open>krnl->mm\<close> is set to memory that \<open>malloc\<close> has just returned. Until
  \<open>init_mm\<close>, which takes no lock, has filled it, \<open>mm\<close> is \<open>None\<close>: whatever another thread does with
  it meanwhile is undefined.
\<close>

definition ld_waiting :: "config \<Rightarrow> u64 \<Rightarrow> ld_t \<Rightarrow> os_t \<Rightarrow> (ld_t \<times> os_t \<times> signal) option" where
  "ld_waiting cfg now l s = do {
     st \<leftarrow> rd (ld_start_time cfg) (ld_i l);
     if now < st then Some (l, s, Next_slot)
     else Some (l\<lparr>ld_pc := Ld_init\<rparr>, s\<lparr>osys := (osys s)\<lparr>krnl := (krnl (osys s))\<lparr>mm := None\<rparr>\<rparr>\<rparr>, Continue) }"

text \<open>\<open>init_mm\<close> fills the new \<open>mm\<close> of the one kernel structure; \<open>rgs\<close> is the uninitialised list of its area.\<close>

definition ld_memory :: "config \<Rightarrow> vm_rg_struct list \<Rightarrow> ld_t \<Rightarrow> os_t \<Rightarrow> (ld_t \<times> os_t \<times> signal) option" where
  "ld_memory cfg rgs l s = do {
     p \<leftarrow> ld_proc l;
     b \<leftarrow> procs (osys s) p;
     name \<leftarrow> rd (ld_path cfg) (ld_i l);
     pr \<leftarrow> rd (ld_prio cfg) (ld_i l);
     let (_, k) = init_mm (krnl (osys s)) False False rgs;
     Some (l\<lparr>ld_pc := Ld_add\<rparr>, s\<lparr>osys := emit [Loaded name (pid b) pr] ((osys s)\<lparr>krnl := k\<rparr>)\<rparr>, Continue) }"

definition ld_add :: "ld_t \<Rightarrow> os_t \<Rightarrow> (ld_t \<times> os_t \<times> signal) option" where
  "ld_add l s = do {
     p \<leftarrow> ld_proc l;
     Some (l\<lparr>ld_pc := Ld_queue\<rparr>, s\<lparr>osys := (osys s)\<lparr>sched := list_running p (sched (osys s))\<rparr>\<rparr>, Continue) }"

definition ld_queue :: "ld_t \<Rightarrow> os_t \<Rightarrow> (ld_t \<times> os_t \<times> signal) option" where
  "ld_queue l s = do {
     p \<leftarrow> ld_proc l;
     sc \<leftarrow> add_mlq_proc (procs (osys s)) p (sched (osys s));
     Some (l\<lparr>ld_pc := Ld_top, ld_i := Suc (ld_i l), ld_proc := None\<rparr>, s\<lparr>osys := (osys s)\<lparr>sched := sc\<rparr>\<rparr>, Next_slot) }"

definition ld_routine :: "config \<Rightarrow> (string \<Rightarrow> string option) \<Rightarrow> pref \<Rightarrow> pcb_t \<Rightarrow> (nat \<Rightarrow> inst_t) \<Rightarrow>
    vm_rg_struct list \<Rightarrow> u64 \<Rightarrow> ld_t \<Rightarrow> os_t \<Rightarrow> (ld_t \<times> os_t \<times> signal) option" where
  "ld_routine cfg fs p mem cell rgs now l s = (case ld_pc l of
     Ld_top \<Rightarrow> ld_load cfg fs p mem cell l s
   | Ld_wait \<Rightarrow> ld_waiting cfg now l s
   | Ld_init \<Rightarrow> ld_memory cfg rgs l s
   | Ld_add \<Rightarrow> ld_add l s
   | Ld_queue \<Rightarrow> ld_queue l s
   | Ld_end \<Rightarrow> None)"

lemmas ld_step_defs = ld_routine_def ld_waiting_def ld_memory_def ld_add_def ld_queue_def

section \<open>The whole program\<close>

record world =
  wos :: os_t
  wcpus :: "cpu_t list"
  wld :: ld_t
  wtm :: timer_t

text \<open>
  \<open>attach_event\<close> puts each device in front: the loader, attached last, is device 0, and
  processor \<open>i\<close> of \<open>n\<close> is device \<open>n - i\<close>.
\<close>

definition dev_of :: "world \<Rightarrow> nat \<Rightarrow> nat" where
  "dev_of w i = length (wcpus w) - i"

fun notify :: "signal \<Rightarrow> nat \<Rightarrow> timer_t \<Rightarrow> timer_t" where
  "notify Continue d t = t"
| "notify Next_slot d t = next_slot_announce d t"
| "notify Detach d t = detach_event d t"

text \<open>
  \<open>main\<close> after \<open>read_config\<close>: the devices are attached, the timer started, the memories
  initialised (\<open>m0\<close> and \<open>m1\<close> are their uninitialised structures, \<open>j0\<close> and \<open>j1\<close> what the
  uninitialised end of a one-frame list leads to) and the scheduler. Only the first swap
  device is ever used.
\<close>

definition boot :: "config \<Rightarrow> memphy_struct \<Rightarrow> u64 list \<Rightarrow> memphy_struct \<Rightarrow> u64 list \<Rightarrow> world" where
  "boot cfg m0 j0 m1 j1 =
     (let n = nat (num_cpus cfg);
          ram = snd (init_memphy m0 (word_of_int (memramsz cfg)) 1 j0);
          swp = snd (init_memphy m1 (word_of_int (memswpsz cfg ! 0)) 1 j1)
      in \<lparr>wos = \<lparr>osys = \<lparr>krnl = \<lparr>mm = None, tables = [], mram = ram, active_mswp = swp\<rparr>,
                        sched = init_scheduler zero_sched, procs = Map.empty, out = []\<rparr>,
                 ld_done = False, avail = 1, exit_code = None\<rparr>,
          wcpus = replicate n cpu_start, wld = ld_start, wtm = booted (Suc n)\<rparr>)"

datatype wact = Cpu nat | Loader_thread | Clock tact | Stop

inductive wstep :: "config \<Rightarrow> (string \<Rightarrow> string option) \<Rightarrow> world \<Rightarrow> wact \<Rightarrow> world \<Rightarrow> bool"
  for cfg :: config and fs :: "string \<Rightarrow> string option" where
  cpu: "exit_code (wos w) = None \<Longrightarrow> i < length (wcpus w) \<Longrightarrow> dev_at (wtm w) (dev_of w i) Running \<Longrightarrow>
     cpu_routine (time_slot cfg) v junk i (wcpus w ! i) (wos w) = Some (c, s, g) \<Longrightarrow>
     wstep cfg fs w (Cpu i) (w\<lparr>wos := s, wcpus := (wcpus w)[i := c], wtm := notify g (dev_of w i) (wtm w)\<rparr>)"
| loader: "exit_code (wos w) = None \<Longrightarrow> dev_at (wtm w) 0 Running \<Longrightarrow> procs (osys (wos w)) p = None \<Longrightarrow>
     ld_routine cfg fs p mem cell rgs (current_time (wtm w)) (wld w) (wos w) = Some (l, s, g) \<Longrightarrow>
     wstep cfg fs w Loader_thread (w\<lparr>wos := s, wld := l, wtm := notify g 0 (wtm w)\<rparr>)"
| clock: "exit_code (wos w) = None \<Longrightarrow> tstep (wtm w) a t \<Longrightarrow>
     a = Timer_thread \<or> a = Spurious \<or> (\<exists>d. a = Dev d \<and> dev_at (wtm w) d Arrived) \<Longrightarrow>
     wstep cfg fs w (Clock a) (w\<lparr>wtm := t\<rparr>)"
| stop: "exit_code (wos w) = None \<Longrightarrow> \<forall>c\<in>set (wcpus w). cpu_pc c = At_end \<Longrightarrow> ld_pc (wld w) = Ld_end \<Longrightarrow>
     tstep (wtm w) Main t \<Longrightarrow> wstep cfg fs w Stop (w\<lparr>wtm := t\<rparr>)"

inductive_cases cpu_step_cases: "wstep cfg fs w (Cpu i) w'"

definition world_init :: "config \<Rightarrow> world \<Rightarrow> bool" where
  "world_init cfg w \<longleftrightarrow> (\<exists>m0 j0 m1 j1. w = boot cfg m0 j0 m1 j1)"

end
