(* ===== verification/Owners.thy ===== *)
theory Owners
  imports Os
begin

text \<open>
  Who has a process: the ready queues, a processor or the loader. Every step of a thread of
  \<open>src/os.c\<close> hands processes over without duplicating or losing hold of one (except where a
  full queue drops it), and a freed process is in nobody's hands. With it goes what the
  memory of a running process looks like.
\<close>

section \<open>Who has a process\<close>

text \<open>A pointer as a multiset, the processes waiting in the levels, those of a list of processors.\<close>

definition opt :: "'a option \<Rightarrow> 'a multiset" where
  "opt x = (case x of None \<Rightarrow> {#} | Some p \<Rightarrow> {#p#})"

lemma opt_simps [simp]: "opt None = {#}" "opt (Some p) = {#p#}"
  by (simp_all add: opt_def)

definition waiting :: "sched_t \<Rightarrow> pref multiset" where
  "waiting s = sum_list (map (mset \<circ> contents) (mlq_ready_queue s))"

definition on_cpus :: "cpu_t list \<Rightarrow> pref multiset" where
  "on_cpus cs = sum_list (map (opt \<circ> cproc) cs)"

lemma waiting_update:
  assumes "i < length (mlq_ready_queue s)"
  shows "waiting (s\<lparr>mlq_ready_queue := (mlq_ready_queue s)[i := q]\<rparr>) + mset (contents (mlq_ready_queue s ! i)) =
    waiting s + mset (contents q)"
  using sum_update [OF assms, of "mset \<circ> contents" q] by (simp add: waiting_def)

lemma waiting_frame [simp]:
  "waiting (s\<lparr>currentPrio := a\<rparr>) = waiting s" "waiting (s\<lparr>used_slot := b\<rparr>) = waiting s"
  "waiting (s\<lparr>running_list := q\<rparr>) = waiting s"
  by (simp_all add: waiting_def)

lemma on_cpus_update:
  "i < length cs \<Longrightarrow> on_cpus (cs[i := c]) + opt (cproc (cs ! i)) = on_cpus cs + opt (cproc c)"
  using sum_update [of i cs "opt \<circ> cproc" c] by (simp add: on_cpus_def)

lemma on_cpus_split: "i < length cs \<Longrightarrow> \<exists>R. on_cpus cs = opt (cproc (cs ! i)) + R \<and>
    (\<forall>c. on_cpus (cs[i := c]) = opt (cproc c) + R)"
proof -
  assume i: "i < length cs"
  have "on_cpus cs = on_cpus (cs[i := (cs ! i)\<lparr>cproc := None\<rparr>]) + opt (cproc (cs ! i))"
    using on_cpus_update [OF i, of "(cs ! i)\<lparr>cproc := None\<rparr>"] by simp
  moreover have "on_cpus (cs[i := c]) = on_cpus (cs[i := (cs ! i)\<lparr>cproc := None\<rparr>]) + opt (cproc c)" for c
    using on_cpus_update [of i "cs[i := (cs ! i)\<lparr>cproc := None\<rparr>]" c] i by simp
  ultimately show ?thesis by (metis add.commute)
qed

text \<open>Fetching a process takes it out of its queue; putting it back adds it at most once.\<close>

lemma waiting_serve:
  assumes "wf_sched s" "i < MAX_PRIO" "level s i \<noteq> []"
  shows "waiting s = waiting (snd (serve s i u)) + opt (fst (serve s i u))"
proof -
  let ?q = "mlq_ready_queue s ! i"
  have len: "i < length (mlq_ready_queue s)" using assms(1,2) by (simp add: wf_sched_def)
  have c: "contents ?q = hd (contents ?q) # contents (snd (dequeue ?q))"
    using assms wf_level_queue [OF assms(1,2)] by (simp add: queue_simps level_def)
  have f: "fst (serve s i u) = Some (hd (contents ?q))"
    using serve_result(1) [OF assms] by (simp add: level_def)
  have "waiting (snd (serve s i u)) + mset (contents ?q) = waiting s + mset (contents (snd (dequeue ?q)))"
    using waiting_update [OF len, of "snd (dequeue ?q)"] by (simp add: serve_def)
  then have "waiting (snd (serve s i u)) + {#hd (contents ?q)#} + mset (contents (snd (dequeue ?q))) =
      waiting s + mset (contents (snd (dequeue ?q)))"
    by (subst (asm) c) simp
  then show ?thesis using f by simp
qed

lemma get_proc_waiting:
  assumes "wf_sched s" "get_proc s = (q, s')"
  shows "wf_sched s'" "waiting s = waiting s' + opt q"
proof -
  have "wf_sched s' \<and> waiting s = waiting s' + opt q"
    using assms(1)
  proof (cases rule: get_mlq_cases)
    case none
    with assms show ?thesis by (simp add: get_proc_def)
  next
    case (budget h)
    with assms wf_serve [OF assms(1), of h "Suc (used_budget s h)"] waiting_serve [OF assms(1), of h "Suc (used_budget s h)"]
    show ?thesis by (simp add: get_proc_def)
  next
    case (turn h n)
    with assms wf_serve [OF assms(1), of n 1] waiting_serve [OF assms(1), of n 1]
    show ?thesis by (simp add: get_proc_def)
  qed
  then show "wf_sched s'" "waiting s = waiting s' + opt q" by simp_all
qed

lemma list_running_facts:
  assumes "wf_sched s"
  shows "wf_sched (list_running p s)" "waiting (list_running p s) = waiting s"
  using assms by (simp_all add: list_running_def wf_sched_def)

lemma put_mlq_waiting:
  assumes "wf_sched s" "put_mlq_proc h p s = Some s'"
  shows "wf_sched s'" "waiting s' \<subseteq># waiting s + {#p#}"
proof -
  from assms(2) obtain b where b: "h p = Some b" "unat (prio b) < length (mlq_ready_queue s)"
    and s': "s' = s\<lparr>mlq_ready_queue := (mlq_ready_queue s)
      [unat (prio b) := enqueue (mlq_ready_queue s ! unat (prio b)) (Some p)]\<rparr>"
    by (auto simp: put_mlq_proc_Some)
  have wf: "wf_queue (mlq_ready_queue s ! unat (prio b))"
    using wf_level_queue [OF assms(1)] b(2) assms(1) by (simp add: wf_sched_def)
  then show "wf_sched s'"
    using assms(1) by (auto simp: s' wf_sched_def dest!: subsetD [OF set_update_subset_insert])
  let ?q = "mlq_ready_queue s ! unat (prio b)"
  have "waiting s' + mset (contents ?q) = waiting s + mset (contents (enqueue ?q (Some p)))"
    using waiting_update [OF b(2), of "enqueue ?q (Some p)"] by (simp add: s')
  moreover have "waiting s + mset (contents (enqueue ?q (Some p))) \<subseteq># waiting s + (mset (contents ?q) + {#p#})"
    using wf by (intro subset_mset.add_left_mono) (simp add: queue_simps)
  ultimately have "waiting s' + mset (contents ?q) \<subseteq># (waiting s + {#p#}) + mset (contents ?q)"
    by (simp only: ac_simps)
  then show "waiting s' \<subseteq># waiting s + {#p#}" by simp
qed

text \<open>An instruction may only turn the running list.\<close>

definition sched_ok :: "sys_t \<Rightarrow> bool" where
  "sched_ok s \<longleftrightarrow> wf_sched (sched s)"

definition keeps_ready :: "sys_t \<Rightarrow> sys_t \<Rightarrow> bool" where
  "keeps_ready s s' \<longleftrightarrow> wf_sched (sched s') \<and> (\<exists>rl. sched s' = (sched s)\<lparr>running_list := rl\<rparr>)"

lemma find_loop_wf: "find_loop h pd n q = Some (c, q') \<Longrightarrow> wf_queue q \<Longrightarrow> wf_queue q'"
proof (induction n arbitrary: q)
  case 0
  then show ?case by simp
next
  case (Suc n)
  obtain x q1 where d: "dequeue q = (x, q1)" by (cases "dequeue q")
  have "wf_queue q1" using wf_dequeue [OF Suc.prems(2)] d by simp
  with Suc.prems(1) Suc.IH d show ?case
    by (auto simp: bind_eq_Some_conv Let_def split: option.splits if_splits)
qed

lemma find_caller_ready: "find_caller s pd = Some (c, s') \<Longrightarrow> sched_ok s \<Longrightarrow> keeps_ready s s'"
  by (auto simp: find_caller_rl sched_ok_def keeps_ready_def with_rl_def wf_sched_def dest: find_loop_wf)

lemma keeps_ready_trans: "keeps_ready s s1 \<Longrightarrow> keeps_ready s1 s' \<Longrightarrow> keeps_ready s s'"
  by (cases "sched s") (auto simp: keeps_ready_def)

lemma keeps_ready_same: "sched_ok s \<Longrightarrow> sched s' = sched s \<Longrightarrow> keeps_ready s s'"
  by (cases "sched s") (auto simp: keeps_ready_def sched_ok_def)

lemma syscall_ready:
  assumes "sched_ok s" "syscall v s pd nr r = Some (x, r', s')"
  shows "keeps_ready s s'"
proof -
  have 1: "keeps_ready s s'" if h: "sys_xxxhandler s pd r = Some (x, r', s')"
  proof -
    from h obtain c s1 where c: "find_caller s pd = Some (c, s1)" "sched s' = sched s1"
      by (auto simp: sys_xxxhandler_def emit_def Let_def bind_eq_Some_conv split: if_splits)
    from find_caller_ready [OF c(1) assms(1)] c(2) show ?thesis by (simp add: keeps_ready_def)
  qed
  have 2: "keeps_ready s s'" if h: "sys_memmap v s pd r = Some (x, r', s')"
  proof -
    from h obtain c s1 where c: "find_caller s pd = Some (c, s1)" "sched s' = sched s1"
      by (auto simp: sys_memmap_def emit_def Let_def bind_eq_Some_conv split: if_splits)
    from find_caller_ready [OF c(1) assms(1)] c(2) show ?thesis by (simp add: keeps_ready_def)
  qed
  from assms(2) 1 2 keeps_ready_same [OF assms(1), of s'] show ?thesis
    by (auto simp: syscall_def sys_ni_syscall_def sys_listsyscall_def emit_def split: option.splits handler.splits)
qed

interpretation ready: sched_relation sched_ok keeps_ready
  by unfold_locales
     (blast intro: keeps_ready_same keeps_ready_trans syscall_ready | simp add: keeps_ready_def sched_ok_def)+

lemma run_waiting:
  assumes "run v junk s p = Some (r, s')" "procs s p = Some b" "wf_sched (sched s)"
  shows "wf_sched (sched s')" "waiting (sched s') = waiting (sched s)"
  using ready.run_rel [OF assms(1,2)] assms(3) by (auto simp: sched_ok_def keeps_ready_def)

section \<open>One step of a processor\<close>

lemma fetch_facts:
  assumes "fetch s = (q, s')" "wf_sched (sched (osys s))"
  shows "wf_sched (sched (osys s'))" "waiting (sched (osys s)) = waiting (sched (osys s')) + opt q"
    "procs (osys s') = procs (osys s)" "krnl (osys s') = krnl (osys s)" "exit_code s' = exit_code s" "ld_done s' = ld_done s"
proof -
  obtain sc where g: "get_proc (sched (osys s)) = (q, sc)" "s' = s\<lparr>osys := (osys s)\<lparr>sched := sc\<rparr>\<rparr>"
    using assms(1) by (auto simp: fetch_def Let_def case_prod_beta prod_eq_iff)
  with get_proc_waiting [OF assms(2) g(1)] show "wf_sched (sched (osys s'))"
    "waiting (sched (osys s)) = waiting (sched (osys s')) + opt q"
    "procs (osys s') = procs (osys s)" "krnl (osys s') = krnl (osys s)" "exit_code s' = exit_code s" "ld_done s' = ld_done s"
    by simp_all
qed

text \<open>What a step leaves: the processes in the levels and on the processor are among those
  that were there, and only the process the processor held can be freed.\<close>

definition cpu_keeps :: "cpu_t \<Rightarrow> os_t \<Rightarrow> cpu_t \<Rightarrow> os_t \<Rightarrow> bool" where
  "cpu_keeps c s c' s' \<longleftrightarrow>
     wf_sched (sched (osys s')) \<and>
     waiting (sched (osys s')) + opt (cproc c') \<subseteq># waiting (sched (osys s)) + opt (cproc c) \<and>
     (dom (procs (osys s)) \<subseteq> dom (procs (osys s')) \<or>
       (\<exists>p. cproc c = Some p \<and> cproc c' = None \<and> waiting (sched (osys s')) = waiting (sched (osys s)) \<and>
            dom (procs (osys s')) = dom (procs (osys s)) - {p})) \<and>
     (inert (krnl (osys s)) \<longrightarrow> inert (krnl (osys s'))) \<and> (mm (krnl (osys s)) = None \<longrightarrow> mm (krnl (osys s')) = None)"

lemma emit_simps [simp]: "krnl (emit es s) = krnl s" "sched (emit es s) = sched s" "procs (emit es s) = procs s"
  by (simp_all add: emit_def)

lemma cpu_top_keeps:
  assumes "cpu_top i c s = Some (c', s', g)" "wf_sched (sched (osys s))"
  shows "cpu_keeps c s c' s'"
proof (cases "cproc c")
  case None
  obtain q s1 where f: "fetch s = (q, s1)" by (cases "fetch s")
  with assms(1) None have "s' = s1" "cproc c' = q" by (auto simp: cpu_top_def split: if_splits)
  with fetch_facts [OF f assms(2)] None show ?thesis by (simp add: cpu_keeps_def)
next
  case (Some p)
  with assms(1) obtain b where b: "procs (osys s) p = Some b" by (auto simp: cpu_top_def bind_eq_Some_conv)
  consider "pc b = csize (code b)" | "pc b \<noteq> csize (code b)" "time_left c = 0" | "pc b \<noteq> csize (code b)" "time_left c \<noteq> 0" by blast
  then show ?thesis
  proof cases
    case 1
    with assms Some b show ?thesis by (auto simp: cpu_top_def cpu_keeps_def split: if_splits)
  next
    case 2
    with assms(1) Some b have "sched (osys s') = list_running p (sched (osys s))" "procs (osys s') = procs (osys s)"
      "krnl (osys s') = krnl (osys s)" "cproc c' = cproc c"
      by (auto simp: cpu_top_def bind_eq_Some_conv)
    with list_running_facts [OF assms(2)] show ?thesis by (simp add: cpu_keeps_def)
  next
    case 3
    with assms Some b show ?thesis by (auto simp: cpu_top_def cpu_keeps_def)
  qed
qed

lemma cpu_put_keeps:
  assumes "cpu_put c s = Some (c', s', g)" "wf_sched (sched (osys s))"
  shows "cpu_keeps c s c' s'"
proof -
  from assms(1) obtain p sc where put: "cproc c = Some p" "put_mlq_proc (procs (osys s)) p (sched (osys s)) = Some sc"
    "sched (osys s') = sc" "procs (osys s') = procs (osys s)" "krnl (osys s') = krnl (osys s)" "cproc c' = None"
    by (auto simp: cpu_put_def bind_eq_Some_conv)
  from put_mlq_waiting [OF assms(2) put(2)] put show ?thesis by (simp add: cpu_keeps_def)
qed

lemma cpu_get_keeps:
  assumes "cpu_get c s = Some (c', s', g)" "wf_sched (sched (osys s))"
  shows "cpu_keeps c s c' s'"
proof -
  obtain q s1 where f: "fetch s = (q, s1)" by (cases "fetch s")
  with assms(1) have "s' = s1" "cproc c' = q" by (auto simp: cpu_get_def)
  with fetch_facts [OF f assms(2)] show ?thesis by (simp add: cpu_keeps_def)
qed

lemma cpu_check_keeps:
  "cpu_check k i c s = Some (c', s', g) \<Longrightarrow> wf_sched (sched (osys s)) \<Longrightarrow> cpu_keeps c s c' s'"
  by (auto simp: cpu_check_def cpu_keeps_def bind_eq_Some_conv split: option.splits if_splits)

lemma run_alive: "run v junk s p = Some (r, s') \<Longrightarrow> \<exists>b. procs s p = Some b"
  by (auto simp: run_def bind_eq_Some_conv)

text \<open>An instruction that returns has not made an \<open>mm\<close> where there was none.\<close>

lemma lib_print_unset: "mm (krnl s) = None \<Longrightarrow> lib_print f s = None"
  by (simp add: lib_print_def print_pgtbl_def)

lemma syscall_unset:
  assumes "syscall v s pd nr r = Some (x, r', s')" "mm (krnl s) = None"
  shows "mm (krnl s') = None"
proof -
  have 1: "mm (krnl s') = None" if "sys_xxxhandler s pd r = Some (x, r', s')"
    using that assms(2) by (auto simp: sys_xxxhandler_def Let_def bind_eq_Some_conv dest!: find_caller_krnl split: if_splits)
  have 2: "mm (krnl s') = None" if "sys_memmap v s pd r = Some (x, r', s')"
    using that assms(2)
    by (auto simp: sys_memmap_def Let_def bind_eq_Some_conv vmap_pgd_memset_def inc_vma_limit_def get_vm_area_node_at_brk_def
        deref_vma_def mm_swap_page_def dest!: find_caller_krnl split: if_splits)
  from assms 1 2 show ?thesis
    by (auto simp: syscall_def sys_ni_syscall_def sys_listsyscall_def split: option.splits handler.splits)
qed

lemma run_unset:
  assumes "run v junk s p = Some (r, s')" "mm (krnl s) = None"
  shows "mm (krnl s') = None"
proof -
  from run_alive [OF assms(1)] obtain b where "procs s p = Some b" by blast
  from assms(1) this show ?thesis
  proof (cases rule: run_cases)
    case (alloc x i)
    then show ?thesis using assms(2)
      by (simp add: liballoc_def alloc_rg_def get_free_vmrg_area_def deref_vma_def)
  next
    case (free i)
    then show ?thesis using assms(2) by (auto simp: libfree_def free_rg_def bind_eq_Some_conv lib_print_unset split: if_splits)
  next
    case (read i off d)
    then show ?thesis using assms(2) by (auto simp: libread_def read_rg_def bind_eq_Some_conv lib_print_unset split: if_splits)
  next
    case (wr b i off)
    then show ?thesis using assms(2) by (auto simp: libwrite_def write_rg_def bind_eq_Some_conv lib_print_unset split: if_splits)
  next
    case (sys n x y z)
    then show ?thesis using assms(2) by (auto simp: libsyscall_def bind_eq_Some_conv dest: syscall_unset)
  qed (use assms(2) in simp_all)
qed

lemma cpu_exec_keeps:
  assumes "cpu_exec v junk c s = Some (c', s', g)" "wf_sched (sched (osys s))"
  shows "cpu_keeps c s c' s'"
proof -
  from assms(1) obtain p r y where p: "cproc c = Some p" and y: "run v junk (osys s) p = Some (r, y)"
    and eq: "osys s' = y" "cproc c' = cproc c"
    by (auto simp: cpu_exec_def bind_eq_Some_conv split: if_splits)
  obtain b where b: "procs (osys s) p = Some b" using run_alive [OF y] by blast
  have "dom (procs (osys s)) \<subseteq> dom (procs y)" using run_procs [OF y b] by (auto split: if_splits)
  with run_waiting [OF y b assms(2)] run_inert [OF y b] run_unset [OF y] eq show ?thesis by (simp add: cpu_keeps_def)
qed

lemma cpu_routine_keeps:
  "cpu_routine k v junk i c s = Some (c', s', g) \<Longrightarrow> wf_sched (sched (osys s)) \<Longrightarrow> cpu_keeps c s c' s'"
  by (cases "cpu_pc c")
     (auto simp: cpu_routine_def intro: cpu_top_keeps cpu_put_keeps cpu_get_keeps cpu_check_keeps cpu_exec_keeps)

section \<open>Ownership\<close>

definition owned_ok :: "pcb_heap \<Rightarrow> pref multiset \<Rightarrow> bool" where
  "owned_ok h M \<longleftrightarrow> (\<forall>p. count M p \<le> 1) \<and> (\<forall>p\<in>#M. h p \<noteq> None)"

lemma owned_ok_mono: "owned_ok h M \<Longrightarrow> M' \<subseteq># M \<Longrightarrow> dom h \<subseteq> dom h' \<Longrightarrow> owned_ok h' M'"
  unfolding owned_ok_def
  by (meson domD domIff mset_subset_eqD mset_subset_eq_count order_trans subset_iff)

lemma owned_ok_free:
  assumes "owned_ok h (M + {#p#})" "dom h' = dom h - {p}"
  shows "owned_ok h' M"
proof -
  have c: "count (M + {#p#}) q \<le> 1" for q using assms(1) by (simp add: owned_ok_def)
  have "p \<notin># M" using c [of p] by (simp add: not_in_iff)
  moreover have "count M q \<le> 1" for q using c [of q] by (simp split: if_splits)
  moreover have "h' q \<noteq> None" if "q \<in># M" for q
  proof -
    have "q \<in> dom h" using assms(1) that by (auto simp: owned_ok_def)
    then have "q \<in> dom h'" using assms(2) that \<open>p \<notin># M\<close> by auto
    then show ?thesis by auto
  qed
  ultimately show ?thesis by (simp add: owned_ok_def)
qed

lemma owned_ok_add:
  assumes "owned_ok h M" "h p = None"
  shows "owned_ok (h(p \<mapsto> b)) (M + {#p#})"
proof -
  have "p \<notin># M" using assms unfolding owned_ok_def by blast
  with assms(1) show ?thesis by (simp add: owned_ok_def not_in_iff)
qed

lemma cpu_keeps_owned:
  assumes "cpu_keeps c s c' s'" "owned_ok (procs (osys s)) (waiting (sched (osys s)) + opt (cproc c) + R)"
  shows "owned_ok (procs (osys s')) (waiting (sched (osys s')) + opt (cproc c') + R)"
proof -
  have sub: "waiting (sched (osys s')) + opt (cproc c') + R \<subseteq># waiting (sched (osys s)) + opt (cproc c) + R"
    using assms(1) by (simp add: cpu_keeps_def)
  from assms(1) consider "dom (procs (osys s)) \<subseteq> dom (procs (osys s'))"
    | p where "cproc c = Some p" "cproc c' = None" "waiting (sched (osys s')) = waiting (sched (osys s))"
        "dom (procs (osys s')) = dom (procs (osys s)) - {p}"
    unfolding cpu_keeps_def by blast
  then show ?thesis
  proof cases
    case 1
    from owned_ok_mono [OF assms(2) sub this] show ?thesis .
  next
    case 2
    with assms(2) have "owned_ok (procs (osys s)) (waiting (sched (osys s)) + R + {#p#})" by (simp add: ac_simps)
    from owned_ok_free [OF this 2(4)] 2 show ?thesis by simp
  qed
qed

section \<open>One step of the loader\<close>

text \<open>Loading adds a fresh process, adding it to the scheduler hands it over.\<close>

lemma ld_load_cases [consumes 1, case_names exits loads ends]:
  assumes "ld_load cfg fs p mem cell l s = Some (l', s', g)"
  obtains e where "l' = l" "s' = s\<lparr>exit_code := Some e\<rparr>" "g = Continue"
  | b n name c pr where "l' = l\<lparr>ld_pc := Ld_wait, ld_proc := Some p\<rparr>" "s' = s\<lparr>osys := set_pcb p b (osys s), avail := n\<rparr>" "g = Continue"
      "int (ld_i l) < num_processes cfg" "load fs mem cell (avail s) name = Some (Inr (c, n))" "b = c\<lparr>prio := ucast pr\<rparr>"
      "rd (ld_path cfg) (ld_i l) = Some name" "rd (ld_prio cfg) (ld_i l) = Some pr"
  | "l' = l\<lparr>ld_pc := Ld_end\<rparr>" "s' = s\<lparr>ld_done := True\<rparr>" "g = Detach" "\<not> int (ld_i l) < num_processes cfg"
proof (cases "int (ld_i l) < num_processes cfg")
  case False
  with assms that(3) show thesis by (simp add: ld_load_def)
next
  case True
  with assms obtain name pr r where r: "rd (ld_path cfg) (ld_i l) = Some name" "rd (ld_prio cfg) (ld_i l) = Some pr"
    "load fs mem cell (avail s) name = Some r"
    by (auto simp: ld_load_def bind_eq_Some_conv)
  show thesis
  proof (cases r)
    case (Inl e)
    with assms True r that(1) [of e] show thesis by (simp add: ld_load_def)
  next
    case (Inr bn)
    with assms True r that(2) [where b = "(fst bn)\<lparr>prio := ucast pr\<rparr>" and n = "snd bn" and c = "fst bn"
        and pr = pr and name = name] show thesis
      by (simp add: ld_load_def case_prod_beta)
  qed
qed

lemma ld_load_keeps:
  assumes "ld_load cfg fs p mem cell l s = Some (l', s', g)" "procs (osys s) p = None"
    and "owned_ok (procs (osys s)) (waiting (sched (osys s)) + R)" "ld_proc l = None"
  shows "sched (osys s') = sched (osys s) \<and> krnl (osys s') = krnl (osys s) \<and>
    owned_ok (procs (osys s')) (waiting (sched (osys s')) + R + opt (ld_proc l'))"
  using assms(1)
proof (cases rule: ld_load_cases)
  case (loads b n)
  with owned_ok_add [OF assms(3,2), of b] show ?thesis by simp
qed (use assms(3,4) in simp_all)

lemma ld_waiting_keeps:
  assumes "ld_waiting cfg now l s = Some (l', s', g)"
  shows "sched (osys s') = sched (osys s)" "procs (osys s') = procs (osys s)" "ld_proc l' = ld_proc l"
    "l' = l \<and> s' = s \<and> g = Next_slot \<or>
     l' = l\<lparr>ld_pc := Ld_init\<rparr> \<and> s' = s\<lparr>osys := (osys s)\<lparr>krnl := (krnl (osys s))\<lparr>mm := None\<rparr>\<rparr>\<rparr> \<and> g = Continue"
  using assms by (auto simp: ld_waiting_def bind_eq_Some_conv split: if_splits)

lemma init_mm_inert: "inert (snd (init_mm k False False rgs))"
  by (simp add: init_mm_def inert_def case_prod_beta Let_def)

lemma ld_memory_keeps:
  assumes "ld_memory cfg rgs l s = Some (l', s', g)"
  shows "sched (osys s') = sched (osys s)" "procs (osys s') = procs (osys s)" "ld_proc l' = ld_proc l"
    "krnl (osys s') = snd (init_mm (krnl (osys s)) False False rgs)" "inert (krnl (osys s'))"
proof -
  have k: "krnl (osys s') = snd (init_mm (krnl (osys s)) False False rgs)"
    using assms by (auto simp: ld_memory_def bind_eq_Some_conv case_prod_beta Let_def)
  with init_mm_inert show "krnl (osys s') = snd (init_mm (krnl (osys s)) False False rgs)" "inert (krnl (osys s'))" by simp_all
  show "sched (osys s') = sched (osys s)" "procs (osys s') = procs (osys s)" "ld_proc l' = ld_proc l"
    using assms by (auto simp: ld_memory_def bind_eq_Some_conv case_prod_beta Let_def)
qed

lemma ld_add_keeps:
  assumes "ld_add l s = Some (l', s', g)" "wf_sched (sched (osys s))"
  shows "wf_sched (sched (osys s'))" "procs (osys s') = procs (osys s)" "krnl (osys s') = krnl (osys s)"
    "ld_proc l' = ld_proc l" "ld_pc l' = Ld_queue" "waiting (sched (osys s')) = waiting (sched (osys s))"
  using assms list_running_facts [OF assms(2)] by (auto simp: ld_add_def bind_eq_Some_conv)

lemma ld_queue_keeps:
  assumes "ld_queue l s = Some (l', s', g)" "wf_sched (sched (osys s))"
  shows "wf_sched (sched (osys s'))" "procs (osys s') = procs (osys s)" "krnl (osys s') = krnl (osys s)"
    "ld_proc l' = None" "ld_pc l' = Ld_top"
    "waiting (sched (osys s')) \<subseteq># waiting (sched (osys s)) + opt (ld_proc l)"
proof -
  from assms(1) obtain p sc where p: "ld_proc l = Some p" "put_mlq_proc (procs (osys s)) p (sched (osys s)) = Some sc"
    and s': "s' = s\<lparr>osys := (osys s)\<lparr>sched := sc\<rparr>\<rparr>" "ld_proc l' = None" "ld_pc l' = Ld_top"
    by (auto simp: ld_queue_def add_is_put_mlq bind_eq_Some_conv)
  with put_mlq_waiting [OF assms(2) p(2)]
  show "wf_sched (sched (osys s'))" "procs (osys s') = procs (osys s)" "krnl (osys s') = krnl (osys s)"
    "ld_proc l' = None" "ld_pc l' = Ld_top"
    "waiting (sched (osys s')) \<subseteq># waiting (sched (osys s)) + opt (ld_proc l)"
    by simp_all
qed

section \<open>The invariant of the whole program\<close>

definition owners :: "world \<Rightarrow> pref multiset" where
  "owners w = waiting (sched (osys (wos w))) + on_cpus (wcpus w) + opt (ld_proc (wld w))"

definition owner_inv :: "world \<Rightarrow> bool" where
  "owner_inv w \<longleftrightarrow> wf_sched (sched (osys (wos w))) \<and> owned_ok (procs (osys (wos w))) (owners w) \<and>
     (ld_pc (wld w) = Ld_top \<longrightarrow> ld_proc (wld w) = None) \<and>
     (ld_pc (wld w) \<notin> {Ld_top, Ld_end} \<longrightarrow> ld_proc (wld w) \<noteq> None)"

text \<open>Once a process is in the scheduler's hands, the kernel has an address space without a mapping, except
  while the loader has not yet initialised a new one.\<close>

definition mem_inv :: "world \<Rightarrow> bool" where
  "mem_inv w \<longleftrightarrow> (if ld_pc (wld w) = Ld_init then mm (krnl (osys (wos w))) = None
     else waiting (sched (osys (wos w))) + on_cpus (wcpus w) \<noteq> {#} \<or> ld_pc (wld w) \<in> {Ld_add, Ld_queue} \<longrightarrow>
       inert (krnl (osys (wos w))))"

lemma cpu_wstep_inv:
  assumes "owner_inv w" "mem_inv w" "i < length (wcpus w)"
    and "cpu_routine k v junk i (wcpus w ! i) (wos w) = Some (c, s, g)"
  shows "owner_inv (w\<lparr>wos := s, wcpus := (wcpus w)[i := c], wtm := t\<rparr>) \<and>
    mem_inv (w\<lparr>wos := s, wcpus := (wcpus w)[i := c], wtm := t\<rparr>)"
proof -
  have wf: "wf_sched (sched (osys (wos w)))" using assms(1) by (simp add: owner_inv_def)
  note keep = cpu_routine_keeps [OF assms(4) wf]
  obtain R where R: "on_cpus (wcpus w) = opt (cproc (wcpus w ! i)) + R"
    "on_cpus ((wcpus w)[i := c]) = opt (cproc c) + R"
    using on_cpus_split [OF assms(3)] by blast
  have "owned_ok (procs (osys (wos w))) (waiting (sched (osys (wos w))) + opt (cproc (wcpus w ! i)) + (R + opt (ld_proc (wld w))))"
    using assms(1) R(1) by (simp add: owner_inv_def owners_def ac_simps)
  from cpu_keeps_owned [OF keep this] keep R(2) assms(1)
  have 1: "owner_inv (w\<lparr>wos := s, wcpus := (wcpus w)[i := c], wtm := t\<rparr>)"
    by (simp add: owner_inv_def owners_def cpu_keeps_def ac_simps)
  have "waiting (sched (osys s)) + on_cpus ((wcpus w)[i := c]) \<subseteq># waiting (sched (osys (wos w))) + on_cpus (wcpus w)"
    using keep R by (simp add: cpu_keeps_def ac_simps)
  then have "waiting (sched (osys s)) + on_cpus ((wcpus w)[i := c]) \<noteq> {#} \<Longrightarrow>
      waiting (sched (osys (wos w))) + on_cpus (wcpus w) \<noteq> {#}"
    by (metis subset_mset.le_zero_eq)
  with keep assms(2) have "mem_inv (w\<lparr>wos := s, wcpus := (wcpus w)[i := c], wtm := t\<rparr>)"
    by (auto simp: mem_inv_def cpu_keeps_def)
  with 1 show ?thesis by blast
qed

lemma ld_memory_pc: "ld_memory cfg rgs l s = Some (l', s', g) \<Longrightarrow> ld_pc l' = Ld_add"
  by (auto simp: ld_memory_def bind_eq_Some_conv case_prod_beta Let_def)

lemma ld_wstep_inv:
  assumes "owner_inv w" "mem_inv w" "procs (osys (wos w)) p = None"
    and "ld_routine cfg fs p mem cell rgs now (wld w) (wos w) = Some (l, s, g)"
  shows "owner_inv (w\<lparr>wos := s, wld := l, wtm := t\<rparr>) \<and> mem_inv (w\<lparr>wos := s, wld := l, wtm := t\<rparr>)"
proof -
  let ?s = "osys (wos w)"
  have wf: "wf_sched (sched ?s)" and own: "owned_ok (procs ?s) (waiting (sched ?s) + on_cpus (wcpus w) + opt (ld_proc (wld w)))"
    using assms(1) by (simp_all add: owner_inv_def owners_def)
  show ?thesis
  proof (cases "ld_pc (wld w)")
    case Ld_top
    with assms have load: "ld_load cfg fs p mem cell (wld w) (wos w) = Some (l, s, g)" and n: "ld_proc (wld w) = None"
      by (simp_all add: ld_routine_def owner_inv_def)
    from load have pc: "ld_pc l \<in> {Ld_top, Ld_end} \<and> ld_proc l = None \<or> ld_pc l = Ld_wait \<and> ld_proc l \<noteq> None"
      using n Ld_top by (cases rule: ld_load_cases) simp_all
    from assms(2) Ld_top have "waiting (sched ?s) + on_cpus (wcpus w) \<noteq> {#} \<longrightarrow> inert (krnl ?s)" by (simp add: mem_inv_def)
    with ld_load_keeps [OF load assms(3) _ n, of "on_cpus (wcpus w)"] own n wf pc show ?thesis
      by (elim disjE conjE) (auto simp: owner_inv_def mem_inv_def owners_def)
  next
    case Ld_wait
    with assms have "ld_waiting cfg now (wld w) (wos w) = Some (l, s, g)" by (simp add: ld_routine_def)
    note keep = ld_waiting_keeps [OF this]
    from assms(1) Ld_wait have "ld_proc (wld w) \<noteq> None" by (simp add: owner_inv_def)
    with keep(1-3) own wf Ld_wait assms(2) show ?thesis
      using keep(4) by (elim disjE conjE) (simp_all add: owner_inv_def mem_inv_def owners_def)
  next
    case Ld_init
    with assms have "ld_memory cfg rgs (wld w) (wos w) = Some (l, s, g)" by (simp add: ld_routine_def)
    moreover from assms(1) Ld_init have "ld_proc (wld w) \<noteq> None" by (simp add: owner_inv_def)
    ultimately show ?thesis using ld_memory_keeps [of cfg rgs "wld w" "wos w" l s g] ld_memory_pc [of cfg rgs "wld w" "wos w" l s g] wf own
      by (simp add: owner_inv_def mem_inv_def owners_def)
  next
  case Ld_add
    with assms have "ld_add (wld w) (wos w) = Some (l, s, g)" by (simp add: ld_routine_def)
    moreover from assms(1) Ld_add have "ld_proc (wld w) \<noteq> None" by (simp add: owner_inv_def)
    ultimately show ?thesis using ld_add_keeps [of "wld w" "wos w" l s g, OF _ wf] own assms(2) Ld_add
      by (simp add: owner_inv_def mem_inv_def owners_def)
  next
    case Ld_queue
    with assms have "ld_queue (wld w) (wos w) = Some (l, s, g)" by (simp add: ld_routine_def)
    note keep = ld_queue_keeps [OF this wf]
    have "waiting (sched (osys s)) + on_cpus (wcpus w) \<subseteq># waiting (sched ?s) + on_cpus (wcpus w) + opt (ld_proc (wld w))"
      using keep(6) by (metis (no_types) add.assoc add.commute subset_mset.add_right_mono)
    from owned_ok_mono [OF own this, of "procs ?s"] keep assms(2) Ld_queue show ?thesis
      by (simp add: owner_inv_def mem_inv_def owners_def)
  next
    case Ld_end
    with assms(4) show ?thesis by (simp add: ld_routine_def)
  qed
qed

definition winv :: "world \<Rightarrow> bool" where
  "winv w \<longleftrightarrow> owner_inv w \<and> mem_inv w \<and> tinv (wtm w)"

lemma tinv_notify: "tinv t \<Longrightarrow> dev_at t d Running \<Longrightarrow> tinv (notify g d t)"
  by (cases g) (auto intro: announce_inv detach_inv)

lemma waiting_init: "waiting (init_scheduler zero_sched) = {#}"
proof -
  have "sum_list (replicate n {#}) = {#}" for n by (induction n) simp_all
  then show ?thesis by (simp add: waiting_def init_scheduler_def zero_sched_def zero_queue_def contents_def)
qed

lemma on_cpus_start: "on_cpus (replicate n cpu_start) = {#}"
  by (induction n) (simp_all add: on_cpus_def cpu_start_def)

lemma boot_inv: "winv (boot cfg m0 j0 m1 j1)"
  using wf_sched_init
  by (simp add: winv_def boot_def owner_inv_def mem_inv_def owners_def waiting_init on_cpus_start ld_start_def
      owned_ok_def booted_inv Let_def del: replicate.simps)

lemma wstep_inv: "wstep cfg fs w a w' \<Longrightarrow> winv w \<Longrightarrow> winv w'"
proof (induction rule: wstep.induct)
  case (cpu w i v junk c s g)
  with cpu_wstep_inv [OF _ _ cpu(2,4)] show ?case by (simp add: winv_def tinv_notify)
next
  case (loader w p mem cell rgs l s g)
  with ld_wstep_inv [OF _ _ loader(3,4)] show ?case by (simp add: winv_def tinv_notify)
next
  case (clock w a t)
  with tstep_inv [OF clock(2)] show ?case by (simp add: winv_def owner_inv_def mem_inv_def owners_def)
next
  case (stop w t)
  with tstep_inv [OF stop(4)] show ?case by (simp add: winv_def owner_inv_def mem_inv_def owners_def)
qed

interpretation program: step_invariant "world_init cfg" "wstep cfg fs" winv
  by unfold_locales (auto simp: world_init_def boot_inv intro: wstep_inv)

end
