(* ===== verification/Custody.thy ===== *)
theory Custody
  imports Owners
begin

text \<open>
  No process gets lost: when the configuration has no more processes than a queue holds,
  no queue ever overflows, so the owners of \<open>Owners\<close> account for every process that is
  allocated, and only a process at the end of its program is freed.
\<close>

section \<open>Handing a process over\<close>

text \<open>A level with a place left takes the process.\<close>

lemma level_waiting: "i < length (mlq_ready_queue s) \<Longrightarrow> mset (contents (mlq_ready_queue s ! i)) \<subseteq># waiting s"
proof -
  assume "i < length (mlq_ready_queue s)"
  from waiting_update [OF this, of zero_queue] show ?thesis
    by (metis (no_types) add.commute add.right_neutral contents_zero_queue mset.simps(1) mset_subset_eq_add_left)
qed

lemma put_mlq_hands_over:
  assumes "wf_sched s" "put_mlq_proc h p s = Some s'" "size (waiting s) < MAX_QUEUE_SIZE"
  shows "waiting s' = waiting s + {#p#}"
proof -
  from assms(2) obtain b where "h p = Some b" and b: "unat (prio b) < length (mlq_ready_queue s)"
    and s': "s' = s\<lparr>mlq_ready_queue := (mlq_ready_queue s)
      [unat (prio b) := enqueue (mlq_ready_queue s ! unat (prio b)) (Some p)]\<rparr>"
    by (auto simp: put_mlq_proc_Some)
  let ?q = "mlq_ready_queue s ! unat (prio b)"
  have wf: "wf_queue ?q" using wf_level_queue [OF assms(1)] b assms(1) by (simp add: wf_sched_def)
  have "length (contents ?q) < MAX_QUEUE_SIZE"
    using size_mset_mono [OF level_waiting [OF b]] assms(3) by simp
  with wf have "contents (enqueue ?q (Some p)) = contents ?q @ [p]" by (simp add: contents_enqueue)
  moreover have "waiting s' + mset (contents ?q) = waiting s + mset (contents (enqueue ?q (Some p)))"
    using waiting_update [OF b, of "enqueue ?q (Some p)"] by (simp add: s')
  ultimately show ?thesis by simp
qed

text \<open>A step of a processor keeps what it and the levels have, or frees a finished process.\<close>

definition cpu_hands :: "cpu_t \<Rightarrow> os_t \<Rightarrow> cpu_t \<Rightarrow> os_t \<Rightarrow> bool" where
  "cpu_hands c s c' s' \<longleftrightarrow>
     waiting (sched (osys s')) + opt (cproc c') = waiting (sched (osys s)) + opt (cproc c) \<and>
     dom (procs (osys s')) = dom (procs (osys s)) \<or>
     (\<exists>p b. cproc c = Some p \<and> cproc c' = None \<and> waiting (sched (osys s')) = waiting (sched (osys s)) \<and>
        procs (osys s') = (procs (osys s))(p := None) \<and> procs (osys s) p = Some b \<and> pc b = csize (code b))"

lemma cpu_top_hands:
  assumes "cpu_top i c s = Some (c', s', g)" "wf_sched (sched (osys s))"
  shows "cpu_hands c s c' s'"
proof (cases "cproc c")
  case None
  obtain q s1 where f: "fetch s = (q, s1)" by (cases "fetch s")
  with assms(1) None have "s' = s1" "cproc c' = q" by (auto simp: cpu_top_def split: if_splits)
  with fetch_facts [OF f assms(2)] None show ?thesis by (simp add: cpu_hands_def)
next
  case (Some p)
  with assms(1) obtain b where b: "procs (osys s) p = Some b" by (auto simp: cpu_top_def bind_eq_Some_conv)
  consider "pc b = csize (code b)" | "pc b \<noteq> csize (code b)" "time_left c = 0" | "pc b \<noteq> csize (code b)" "time_left c \<noteq> 0" by blast
  then show ?thesis
  proof cases
    case 2
    with assms(1) Some b have "sched (osys s') = list_running p (sched (osys s))" "procs (osys s') = procs (osys s)"
      "cproc c' = cproc c"
      by (auto simp: cpu_top_def bind_eq_Some_conv)
    with list_running_facts [OF assms(2)] show ?thesis by (simp add: cpu_hands_def)
  qed (use assms(1) Some b in \<open>auto simp: cpu_top_def cpu_hands_def\<close>)
qed

lemma cpu_put_hands:
  assumes "cpu_put c s = Some (c', s', g)" "wf_sched (sched (osys s))"
    and "size (waiting (sched (osys s)) + opt (cproc c)) \<le> MAX_QUEUE_SIZE"
  shows "cpu_hands c s c' s'"
proof -
  from assms(1) obtain p sc where put: "cproc c = Some p" "put_mlq_proc (procs (osys s)) p (sched (osys s)) = Some sc"
    "sched (osys s') = sc" "procs (osys s') = procs (osys s)" "cproc c' = None"
    by (auto simp: cpu_put_def bind_eq_Some_conv)
  from put_mlq_hands_over [OF assms(2) put(2)] put assms(3) show ?thesis by (simp add: cpu_hands_def)
qed

lemma cpu_exec_hands:
  assumes "cpu_exec v junk c s = Some (c', s', g)" "wf_sched (sched (osys s))"
  shows "cpu_hands c s c' s'"
proof -
  from assms(1) obtain p r y where y: "run v junk (osys s) p = Some (r, y)" "osys s' = y" "cproc c' = cproc c"
    by (auto simp: cpu_exec_def bind_eq_Some_conv split: if_splits)
  obtain b where b: "procs (osys s) p = Some b" using run_alive [OF y(1)] by blast
  have "dom (procs y) = dom (procs (osys s))" using run_procs [OF y(1) b] b by (auto split: if_splits)
  with run_waiting [OF y(1) b assms(2)] y show ?thesis by (simp add: cpu_hands_def)
qed

lemma cpu_routine_hands:
  assumes "cpu_routine k v junk i c s = Some (c', s', g)" "wf_sched (sched (osys s))"
    and "size (waiting (sched (osys s)) + opt (cproc c)) \<le> MAX_QUEUE_SIZE" "cpu_pc c = At_get \<longrightarrow> cproc c = None"
  shows "cpu_hands c s c' s'"
proof (cases "cpu_pc c")
  case At_get
  obtain q s1 where f: "fetch s = (q, s1)" by (cases "fetch s")
  with assms(1) At_get have "s' = s1" "cproc c' = q" by (auto simp: cpu_routine_def cpu_get_def)
  with fetch_facts [OF f assms(2)] At_get assms(4) show ?thesis by (simp add: cpu_hands_def)
next
  case At_check
  with assms(1) show ?thesis
    by (auto simp: cpu_routine_def cpu_check_def cpu_hands_def bind_eq_Some_conv split: option.splits if_splits)
qed (use assms in \<open>auto simp: cpu_routine_def intro: cpu_top_hands cpu_put_hands cpu_exec_hands\<close>)

lemma cpu_routine_At_get:
  "cpu_routine k v junk i c s = Some (c', s', g) \<Longrightarrow> cpu_pc c' = At_get \<Longrightarrow> cproc c' = None"
  by (cases "cpu_pc c")
     (auto simp: cpu_step_defs bind_eq_Some_conv Let_def case_prod_beta
        split: option.splits if_splits)

section \<open>Process numbers\<close>

text \<open>The numbers given out so far are below the next one, and no two processes share one.\<close>

definition pids_ok :: "pcb_heap \<Rightarrow> u32 \<Rightarrow> bool" where
  "pids_ok h n \<longleftrightarrow> (\<forall>p b. h p = Some b \<longrightarrow> pid b < n) \<and>
     (\<forall>p q b c. h p = Some b \<and> h q = Some c \<and> pid b = pid c \<longrightarrow> p = q)"

definition same_pids :: "pcb_heap \<Rightarrow> pcb_heap \<Rightarrow> bool" where
  "same_pids h h' \<longleftrightarrow> (\<forall>p b'. h' p = Some b' \<longrightarrow> (\<exists>b. h p = Some b \<and> pid b = pid b'))"

lemma pids_ok_same: "pids_ok h n \<Longrightarrow> same_pids h h' \<Longrightarrow> pids_ok h' n"
  unfolding pids_ok_def same_pids_def by metis

lemma same_pids_simps [simp]: "same_pids h h" "same_pids h (h(p := None))"
  by (simp_all add: same_pids_def)

lemma pids_ok_load:
  assumes "pids_ok h n" "pid b = n" "n < n + 1"
  shows "pids_ok (h(p \<mapsto> b)) (n + 1)"
proof -
  have low: "pid c < n" if "h q = Some c" for q c using assms(1) that unfolding pids_ok_def by blast
  have inj: "q = r" if "h q = Some c" "h r = Some d" "pid c = pid d" for q r c d
    using assms(1) that unfolding pids_ok_def by blast
  have "pid c < n + 1" if "(h(p \<mapsto> b)) q = Some c" for q c
    using that low [of q c] assms(2,3) by (auto split: if_splits)
  moreover have "q = r" if "(h(p \<mapsto> b)) q = Some c" "(h(p \<mapsto> b)) r = Some d" "pid c = pid d" for q r c d
    using that low [of q c] low [of r d] inj [of q c r d] assms(2) by (auto split: if_splits)
  ultimately show ?thesis unfolding pids_ok_def by blast
qed

lemma cpu_routine_pids:
  assumes "cpu_routine k v junk i c s = Some (c', s', g)"
  shows "same_pids (procs (osys s)) (procs (osys s'))" "avail s' = avail s"
proof -
  have f: "procs (osys (snd (fetch s))) = procs (osys s)" "avail (snd (fetch s)) = avail s" for s
    by (simp_all add: fetch_def case_prod_beta Let_def)
  have r: "same_pids (procs y) (procs y')" if run: "run v junk y p = Some (r, y')" for y y' r p
  proof -
    obtain b where b: "procs y p = Some b" using run_alive [OF run] by blast
    from run_procs [OF run b] b show ?thesis by (simp add: same_pids_def)
  qed
  from assms show "same_pids (procs (osys s)) (procs (osys s'))" "avail s' = avail s"
    using f [of s]
    by (cases "cpu_pc c"; auto simp: cpu_step_defs bind_eq_Some_conv
        case_prod_beta split: option.splits if_splits dest: r)+
qed

text \<open>The search of the running list answers with a process of the number it looks for.\<close>

lemma find_loop_pid:
  "find_loop h pd n q = Some (r, q') \<Longrightarrow> r = None \<or> (\<exists>p c. r = Some p \<and> h p = Some c \<and> pid c = pd)"
proof (induction n arbitrary: q)
  case 0
  then show ?case by simp
next
  case (Suc n)
  obtain x q1 where "dequeue q = (x, q1)" by (cases "dequeue q")
  with Suc show ?case by (auto simp: bind_eq_Some_conv Let_def split: option.splits if_splits)
qed

section \<open>The invariant\<close>

text \<open>
  There are no more processes than the loader has loaded, which the configuration bounds; and
  when a queue has room for all of them, every allocated process has an owner.
\<close>

definition loaded :: "ld_t \<Rightarrow> nat" where
  "loaded l = ld_i l + size (opt (ld_proc l))"

definition pid_inv :: "config \<Rightarrow> world \<Rightarrow> bool" where
  "pid_inv cfg w \<longleftrightarrow> int (loaded (wld w)) \<le> max 0 (num_processes cfg) \<and>
     unat (avail (wos w)) = Suc (loaded (wld w)) \<and> pids_ok (procs (osys (wos w))) (avail (wos w))"

definition all_owned :: "world \<Rightarrow> bool" where
  "all_owned w \<longleftrightarrow> dom (procs (osys (wos w))) = set_mset (owners w) \<and> size (owners w) \<le> loaded (wld w) \<and>
     (\<forall>c\<in>set (wcpus w). cpu_pc c = At_get \<longrightarrow> cproc c = None)"

definition kept_inv :: "config \<Rightarrow> world \<Rightarrow> bool" where
  "kept_inv cfg w \<longleftrightarrow> winv w \<and> (num_processes cfg < 2 ^ 31 \<longrightarrow> pid_inv cfg w) \<and>
     (num_processes cfg \<le> int MAX_QUEUE_SIZE \<longrightarrow> all_owned w)"

lemma kept_small:
  assumes "pid_inv cfg w" "all_owned w" "num_processes cfg \<le> int MAX_QUEUE_SIZE"
  shows "size (owners w) \<le> MAX_QUEUE_SIZE"
  using assms unfolding pid_inv_def all_owned_def by linarith

lemma cpu_wstep_owned:
  assumes "winv w" "all_owned w" "size (owners w) \<le> MAX_QUEUE_SIZE" "i < length (wcpus w)"
    and "cpu_routine k v junk i (wcpus w ! i) (wos w) = Some (c, s, g)"
  shows "all_owned (w\<lparr>wos := s, wcpus := (wcpus w)[i := c], wtm := t\<rparr>)"
proof -
  have wf: "wf_sched (sched (osys (wos w)))" and own: "owned_ok (procs (osys (wos w))) (owners w)"
    using assms(1) by (simp_all add: winv_def owner_inv_def)
  obtain R where R: "on_cpus (wcpus w) = opt (cproc (wcpus w ! i)) + R" "on_cpus ((wcpus w)[i := c]) = opt (cproc c) + R"
    using on_cpus_split [OF assms(4)] by blast
  let ?W = "waiting (sched (osys (wos w)))" and ?L = "opt (ld_proc (wld w))"
  have o: "owners w = ?W + opt (cproc (wcpus w ! i)) + R + ?L" by (simp add: owners_def R(1) ac_simps)
  have d: "dom (procs (osys (wos w))) = set_mset (owners w)" using assms(2) by (simp add: all_owned_def)
  have small: "size (?W + opt (cproc (wcpus w ! i))) \<le> MAX_QUEUE_SIZE" using assms(3) unfolding o by simp
  have get: "cpu_pc (wcpus w ! i) = At_get \<longrightarrow> cproc (wcpus w ! i) = None"
    using assms(2) nth_mem [OF assms(4)] by (simp add: all_owned_def)
  from cpu_routine_hands [OF assms(5) wf small get]
  have "dom (procs (osys s)) = set_mset (waiting (sched (osys s)) + opt (cproc c) + R + ?L) \<and>
    size (waiting (sched (osys s)) + opt (cproc c) + R + ?L) \<le> size (owners w)"
    unfolding cpu_hands_def
  proof (elim disjE conjE exE)
    assume "waiting (sched (osys s)) + opt (cproc c) = ?W + opt (cproc (wcpus w ! i))"
      "dom (procs (osys s)) = dom (procs (osys (wos w)))"
    then show ?thesis by (simp only: d o) simp
  next
    fix p b
    assume f: "cproc (wcpus w ! i) = Some p" "cproc c = None" "waiting (sched (osys s)) = ?W"
      "procs (osys s) = (procs (osys (wos w)))(p := None)"
    have "count (owners w) p \<le> 1" using own by (simp only: owned_ok_def)
    then have "p \<notin># ?W + R + ?L" unfolding o f(1) by (simp add: not_in_iff)
    moreover have "set_mset (owners w) = insert p (set_mset (?W + R + ?L))" unfolding o f(1) by auto
    ultimately show ?thesis using f d by (auto simp: o)
  qed
  moreover have "\<forall>x\<in>set ((wcpus w)[i := c]). cpu_pc x = At_get \<longrightarrow> cproc x = None"
    using assms(2) cpu_routine_At_get [OF assms(5)]
    by (auto simp: all_owned_def dest!: subsetD [OF set_update_subset_insert])
  ultimately show ?thesis using assms(2) by (auto simp: all_owned_def owners_def R(2) ac_simps)
qed

text \<open>The loader takes the next number, and hands the process over once it is initialised.\<close>

lemma load_fresh: "load fs junk cell a name = Some (Inr (b, n)) \<Longrightarrow> pid b = a \<and> n = a + 1 \<and> pc b = 0"
proof -
  assume l: "load fs junk cell a name = Some (Inr (b, n))"
  then obtain t where f: "fs name = Some t" by (auto simp: load_def split: option.splits)
  obtain vs s where v: "scan_us 2 t = Some (vs :: u32 list, s)"
    using l f by (auto simp: load_def bind_eq_Some_conv)
  let ?sz = "if 1 < length vs then vs ! 1 else csize (code junk)"
  obtain r where r: "load_loop (unat ?sz) 0 None None (map cell [0..<unat ?sz]) s = Some r"
    using l f v by (auto simp: load_def bind_eq_Some_conv Let_def)
  show ?thesis using l f v r by (cases r) (auto simp: load_def Let_def)
qed

lemma ld_load_next:
  assumes "ld_load cfg fs p mem cell l s = Some (l', s', g)" "ld_proc l = None"
  shows "l' = l \<and> osys s' = osys s \<and> avail s' = avail s \<or>
    loaded l' = loaded l \<and> ld_proc l' = None \<and> osys s' = osys s \<and> avail s' = avail s \<or>
    (\<exists>b. int (ld_i l) < num_processes cfg \<and> loaded l' = Suc (loaded l) \<and> ld_proc l' = Some p \<and>
       osys s' = set_pcb p b (osys s) \<and> pid b = avail s \<and> avail s' = avail s + 1)"
  using assms(1)
proof (cases rule: ld_load_cases)
  case (loads b n)
  with load_fresh [OF loads(5)] assms(2) show ?thesis by (auto simp: loaded_def)
qed (use assms(2) in \<open>simp_all add: loaded_def\<close>)

text \<open>The steps of the loader that load nothing.\<close>

lemma ld_other_same:
  assumes "ld_routine cfg fs p mem cell rgs now l s = Some (l', s', g)" "ld_pc l \<noteq> Ld_top"
  shows "avail s' = avail s" "procs (osys s') = procs (osys s)" "loaded l' = loaded l"
  using assms
  by (cases "ld_pc l"; auto simp: ld_step_defs loaded_def bind_eq_Some_conv
      case_prod_beta Let_def split: if_splits)+

lemma ld_wstep_pids:
  assumes "winv w" "pid_inv cfg w" "num_processes cfg < 2 ^ 31"
    and "ld_routine cfg fs p mem cell rgs now (wld w) (wos w) = Some (l, s, g)"
  shows "pid_inv cfg (w\<lparr>wos := s, wld := l, wtm := t\<rparr>)"
proof (cases "ld_pc (wld w) = Ld_top")
  case False
  with ld_other_same [OF assms(4)] assms(2) show ?thesis by (simp add: pid_inv_def)
next
  case True
  with assms have load: "ld_load cfg fs p mem cell (wld w) (wos w) = Some (l, s, g)" and n: "ld_proc (wld w) = None"
    by (simp_all add: ld_routine_def winv_def owner_inv_def)
  have inv: "unat (avail (wos w)) = Suc (loaded (wld w))" "pids_ok (procs (osys (wos w))) (avail (wos w))"
    "int (loaded (wld w)) \<le> max 0 (num_processes cfg)" using assms(2) by (simp_all add: pid_inv_def)
  from ld_load_next [OF load n] show ?thesis
  proof (elim disjE exE conjE)
    fix b
    assume b: "int (ld_i (wld w)) < num_processes cfg" "loaded l = Suc (loaded (wld w))"
      "osys s = set_pcb p b (osys (wos w))" "pid b = avail (wos w)" "avail s = avail (wos w) + 1"
    have "loaded (wld w) = ld_i (wld w)" using n by (simp add: loaded_def)
    then have lt: "unat (avail (wos w)) < 2 ^ 32 - 1" using inv(1) b(1) assms(3) by simp
    have "unat (avail (wos w) + 1) = Suc (unat (avail (wos w)))"
      by (rule unat_u32_Suc [OF lt])
    moreover from this have "avail (wos w) < avail (wos w) + 1" by (simp add: word_less_nat_alt)
    ultimately show ?thesis
      using b inv pids_ok_load [OF inv(2) b(4)] \<open>loaded (wld w) = ld_i (wld w)\<close> by (simp add: pid_inv_def set_pcb_def)
  qed (use assms(2) in \<open>simp_all add: pid_inv_def\<close>)
qed

lemma ld_wstep_owned:
  assumes "winv w" "all_owned w" "size (owners w) \<le> MAX_QUEUE_SIZE" "procs (osys (wos w)) p = None"
    and "ld_routine cfg fs p mem cell rgs now (wld w) (wos w) = Some (l, s, g)"
  shows "all_owned (w\<lparr>wos := s, wld := l, wtm := t\<rparr>)"
proof (cases "ld_pc (wld w)")
  case Ld_top
  with assms have load: "ld_load cfg fs p mem cell (wld w) (wos w) = Some (l, s, g)" and n: "ld_proc (wld w) = None"
    by (simp_all add: ld_routine_def winv_def owner_inv_def)
  from ld_load_next [OF load n] show ?thesis
    by (elim disjE exE conjE; use n assms(2) in \<open>simp add: all_owned_def owners_def set_pcb_def\<close>)
next
  case Ld_wait
  with assms(2,5) ld_waiting_keeps [of cfg now "wld w" "wos w" l s g] ld_other_same(3) [OF assms(5)] show ?thesis
    by (simp add: ld_routine_def all_owned_def owners_def)
next
  case Ld_init
  with assms(2,5) ld_memory_keeps [of cfg rgs "wld w" "wos w" l s g] ld_other_same(3) [OF assms(5)] show ?thesis
    by (simp add: ld_routine_def all_owned_def owners_def)
next
  case Ld_add
  with assms(1,2,5) ld_add_keeps [of "wld w" "wos w" l s g] ld_other_same(3) [OF assms(5)] show ?thesis
    by (simp add: ld_routine_def all_owned_def owners_def winv_def owner_inv_def)
next
  case Ld_queue
  with assms(5) obtain q sc where q: "ld_proc (wld w) = Some q" "put_mlq_proc (procs (osys (wos w))) q (sched (osys (wos w))) = Some sc"
    "sched (osys s) = sc" "ld_proc l = None"
    by (auto simp: ld_routine_def ld_queue_def add_is_put_mlq bind_eq_Some_conv)
  have "size (waiting (sched (osys (wos w)))) < MAX_QUEUE_SIZE" using assms(3) q(1) by (simp add: owners_def)
  from put_mlq_hands_over [OF _ q(2) this] assms(1) have "waiting sc = waiting (sched (osys (wos w))) + {#q#}"
    by (simp add: winv_def owner_inv_def)
  with ld_other_same [OF assms(5)] Ld_queue q assms(2) show ?thesis by (simp add: all_owned_def owners_def)
next
  case Ld_end
  with assms(5) show ?thesis by (simp add: ld_routine_def)
qed

lemma wstep_kept: "wstep cfg fs w a w' \<Longrightarrow> kept_inv cfg w \<Longrightarrow> kept_inv cfg w'"
proof -
  assume step: "wstep cfg fs w a w'" and inv: "kept_inv cfg w"
  have w: "winv w" "winv w'" using inv wstep_inv [OF step] by (simp_all add: kept_inv_def)
  have small: "size (owners w) \<le> MAX_QUEUE_SIZE" if "num_processes cfg \<le> int MAX_QUEUE_SIZE"
    using inv that kept_small [of cfg w] by (simp add: kept_inv_def MAX_QUEUE_SIZE_def)
  from step show ?thesis
  proof (cases rule: wstep.cases)
    case (cpu i v junk c s g)
    with cpu_wstep_owned [OF w(1) _ small cpu(4,6)] cpu_routine_pids [OF cpu(6)] inv w(2) show ?thesis
      by (auto simp: kept_inv_def pid_inv_def intro: pids_ok_same)
  next
    case (loader p mem cell rgs l s g)
    with ld_wstep_owned [OF w(1) _ small loader(5,6)] ld_wstep_pids [OF w(1) _ _ loader(6)] inv w(2) show ?thesis
      by (auto simp: kept_inv_def)
  qed (use inv w(2) in \<open>auto simp: kept_inv_def pid_inv_def all_owned_def owners_def\<close>)
qed

lemma boot_kept: "kept_inv cfg (boot cfg m0 j0 m1 j1)"
proof -
  have "cpu_pc cpu_start = At_top" by (simp add: cpu_start_def)
  then show ?thesis
    using boot_inv [of cfg m0 j0 m1 j1]
    by (simp add: kept_inv_def pid_inv_def all_owned_def owners_def boot_def loaded_def ld_start_def waiting_init on_cpus_start
        pids_ok_def Let_def del: replicate.simps)
qed

interpretation kept: step_invariant "world_init cfg" "wstep cfg fs" "kept_inv cfg"
  by unfold_locales (auto simp: world_init_def boot_kept intro: wstep_kept)

end
