(* ===== verification/Simulation.thy ===== *)
theory Simulation
  imports Custody
begin

text \<open>
  The whole program running: the threads of \<open>src/os.c\<close> against the barrier of
  \<open>src/timer.c\<close>, the time slice, a concrete run for the witnesses, and the properties of
  every state the program can reach.
\<close>

section \<open>The threads and the barrier\<close>

lemma cpu_routine_signal: "cpu_routine k v junk i c s = Some (c', s', g) \<Longrightarrow> g = Continue \<or> cpu_pc c' = At_top \<or> cpu_pc c' = At_end"
  by (cases "cpu_pc c")
     (auto simp: cpu_step_defs bind_eq_Some_conv Let_def case_prod_beta
        split: option.splits if_splits)

lemma ld_routine_signal:
  assumes "ld_routine cfg fs p mem cell rgs now l s = Some (l', s', g)"
  shows "g = Continue \<or> ld_pc l' \<in> {Ld_top, Ld_wait, Ld_end}"
proof (cases "ld_pc l")
  case Ld_top
  with assms have "ld_load cfg fs p mem cell l s = Some (l', s', g)" by (simp add: ld_routine_def)
  then show ?thesis by (cases rule: ld_load_cases) simp_all
qed (use assms in \<open>auto simp: ld_step_defs bind_eq_Some_conv case_prod_beta Let_def
       split: if_splits\<close>)

text \<open>The timer and the waiting loops never take a device out of its slot.\<close>

lemma clock_step_running:
  assumes "tstep t a t'" "a = Timer_thread \<or> a = Spurious \<or> (\<exists>d. a = Dev d \<and> dev_at t d Arrived)"
  shows "length (dev_list t') = length (dev_list t) \<and>
    (\<forall>d < length (dev_list t). at (dev_list t ! d) = Running \<longrightarrow> at (dev_list t' ! d) = Running)"
  using assms(1)
proof (cases rule: tstep.cases)
  case timer
  from timer(2) show ?thesis
    by (cases rule: timer_routine_cases) (auto simp: nth_list_update signal_timer_def)
next
  case (announce i)
  with assms(2) show ?thesis by (simp add: dev_at_def)
next
  case (detach i)
  with assms(2) show ?thesis by (simp add: dev_at_def)
next
  case (wait_turn i)
  then show ?thesis by (auto simp: next_slot_wait_def dev_at_def nth_list_update Let_def)
next
  case (wake_dev i)
  then show ?thesis by (auto simp: spurious_dev_def dev_at_def nth_list_update signal_timer_def)
qed (use assms(2) in \<open>auto simp: spurious_timer_def\<close>)

lemma wstep_clock:
  assumes "wstep cfg fs w a w'" "clock (wtm w') \<noteq> clock (wtm w)"
  shows "\<exists>t. w' = w\<lparr>wtm := t\<rparr> \<and> timer_routine (wtm w) = Some t"
proof -
  have n: "clock (notify g d t) = clock t" for g d t
    by (cases g) (simp_all add: next_slot_announce_def detach_event_def)
  from assms show ?thesis by (cases rule: wstep.cases) (auto simp: n dest: tstep_clock)
qed

text \<open>A thread whose device is not in its slot is between two iterations of its loop.\<close>

definition barrier_inv :: "world \<Rightarrow> bool" where
  "barrier_inv w \<longleftrightarrow>
     (length (dev_list (wtm w)) = Suc (length (wcpus w)) \<or> dev_list (wtm w) = [] \<and> phase (wtm w) = Exited) \<and>
     (dev_list (wtm w) \<noteq> [] \<longrightarrow>
       (\<forall>i < length (wcpus w). at (dev_list (wtm w) ! dev_of w i) \<noteq> Running \<longrightarrow> cpu_pc (wcpus w ! i) \<in> {At_top, At_end}) \<and>
       (at (dev_list (wtm w) ! 0) \<noteq> Running \<longrightarrow> ld_pc (wld w) \<in> {Ld_top, Ld_wait, Ld_end}))"

lemma notify_dev_list:
  "dev_list (notify g d t) = (dev_list t)[d := (case g of Continue \<Rightarrow> dev_list t ! d
     | Next_slot \<Rightarrow> (dev_list t ! d)\<lparr>ev_done := True, at := Arrived\<rparr>
     | Detach \<Rightarrow> (dev_list t ! d)\<lparr>ev_fsh := True, at := Detached\<rparr>)]"
  by (cases g) (simp_all add: next_slot_announce_def detach_event_def)

lemma cpu_barrier:
  assumes "barrier_inv w" "i < length (wcpus w)" "dev_at (wtm w) (dev_of w i) Running"
    and "g = Continue \<or> cpu_pc c = At_top \<or> cpu_pc c = At_end"
  shows "barrier_inv (w\<lparr>wos := s, wcpus := (wcpus w)[i := c], wtm := notify g (dev_of w i) (wtm w)\<rparr>)"
proof -
  let ?w = "w\<lparr>wos := s, wcpus := (wcpus w)[i := c], wtm := notify g (dev_of w i) (wtm w)\<rparr>"
  have len: "length (dev_list (wtm w)) = Suc (length (wcpus w))"
    using assms(1,3) by (auto simp: barrier_inv_def dev_at_def)
  have other: "dev_of w j \<noteq> dev_of w i" "dev_of w i \<noteq> 0" if "j < length (wcpus w)" "j \<noteq> i" for j
    using that assms(2) by (auto simp: dev_of_def)
  have i0: "dev_of w i \<noteq> 0" using assms(2) by (simp add: dev_of_def)
  have "cpu_pc (wcpus ?w ! j) \<in> {At_top, At_end}"
    if "j < length (wcpus w)" "at (dev_list (wtm ?w) ! dev_of w j) \<noteq> Running" for j
  proof (cases "j = i")
    case True
    with that assms(2-4) len show ?thesis
      by (auto simp: notify_dev_list dev_at_def split: signal.splits)
  next
    case False
    with that other [OF that(1) False] assms(1) len show ?thesis
      by (auto simp: barrier_inv_def notify_dev_list)
  qed
  with assms(1) len i0 show ?thesis
    by (auto simp: barrier_inv_def notify_dev_list dev_of_def)
qed

lemma loader_barrier:
  assumes "barrier_inv w" "dev_at (wtm w) 0 Running" "g = Continue \<or> ld_pc l \<in> {Ld_top, Ld_wait, Ld_end}"
  shows "barrier_inv (w\<lparr>wos := s, wld := l, wtm := notify g 0 (wtm w)\<rparr>)"
proof -
  have len: "length (dev_list (wtm w)) = Suc (length (wcpus w))"
    using assms(1,2) by (auto simp: barrier_inv_def dev_at_def)
  have "dev_of w j \<noteq> 0" if "j < length (wcpus w)" for j using that by (simp add: dev_of_def)
  with assms len show ?thesis
    by (auto simp: barrier_inv_def notify_dev_list dev_at_def dev_of_def nth_list_update split: signal.splits)
qed

lemma wstep_barrier: "wstep cfg fs w a w' \<Longrightarrow> barrier_inv w \<Longrightarrow> barrier_inv w'"
proof (induction rule: wstep.induct)
  case (cpu w i v junk c s g)
  with cpu_barrier [OF _ cpu(2,3) cpu_routine_signal [OF cpu(4)]] show ?case by simp
next
  case (loader w p mem cell rgs l s g)
  with loader_barrier [OF _ loader(2) ld_routine_signal [OF loader(4)]] show ?case by simp
next
  case (clock w a t)
  have e: "phase t = Exited" if "phase (wtm w) = Exited" "dev_list (wtm w) = []"
    using clock(2,3) that
    by (cases rule: tstep.cases)
       (auto simp: timer_routine_def dev_at_def spurious_timer_def)
  note same = clock_step_running [OF clock(2,3)]
  show ?case
  proof (cases "dev_list (wtm w) = []")
    case True
    with same have "dev_list t = []" by simp
    with True clock(4) e show ?thesis by (simp add: barrier_inv_def)
  next
    case False
    with clock(4) have len: "length (dev_list (wtm w)) = Suc (length (wcpus w))" by (simp add: barrier_inv_def)
    have run: "at (dev_list (wtm w) ! d) \<noteq> Running" if "at (dev_list t ! d) \<noteq> Running" "d \<le> length (wcpus w)" for d
      using same that len by auto
    from clock(4) False have old: "\<forall>i<length (wcpus w). at (dev_list (wtm w) ! dev_of w i) \<noteq> Running \<longrightarrow> cpu_pc (wcpus w ! i) \<in> {At_top, At_end}"
      "at (dev_list (wtm w) ! 0) \<noteq> Running \<longrightarrow> ld_pc (wld w) \<in> {Ld_top, Ld_wait, Ld_end}"
      by (simp_all add: barrier_inv_def)
    have "cpu_pc (wcpus w ! i) \<in> {At_top, At_end}"
      if "i < length (wcpus w)" "at (dev_list t ! dev_of w i) \<noteq> Running" for i
      using old(1) run [OF that(2)] that(1) by (simp add: dev_of_def)
    moreover have "at (dev_list t ! 0) \<noteq> Running \<longrightarrow> ld_pc (wld w) \<in> {Ld_top, Ld_wait, Ld_end}"
      using old(2) run [of 0] by simp
    ultimately show ?thesis using same len by (simp add: barrier_inv_def dev_of_def)
  qed
next
  case (stop w t)
  from stop(4) show ?case using stop(5)
    by (auto simp: main_simps stop_request_def stop_release_def barrier_inv_def dev_of_def)
qed

lemma boot_barrier: "barrier_inv (boot cfg m0 j0 m1 j1)"
  by (simp add: barrier_inv_def boot_def booted_eq cpu_start_def ld_start_def Let_def del: replicate.simps)

interpretation slots: step_invariant "world_init cfg" "wstep cfg fs" barrier_inv
  by unfold_locales (auto simp: world_init_def boot_barrier intro: wstep_barrier)

section \<open>The time slice\<close>

definition slice_inv :: "config \<Rightarrow> world \<Rightarrow> bool" where
  "slice_inv cfg w \<longleftrightarrow> 0 < time_slot cfg \<longrightarrow> (\<forall>c\<in>set (wcpus w). 0 \<le> time_left c \<and> time_left c \<le> time_slot cfg \<and>
     (cpu_pc c = At_run \<longrightarrow> 1 \<le> time_left c))"

lemma cpu_routine_slice:
  assumes "cpu_routine k v junk i c s = Some (c', s', g)" "0 < k"
    and "0 \<le> time_left c \<and> time_left c \<le> k \<and> (cpu_pc c = At_run \<longrightarrow> 1 \<le> time_left c)"
  shows "0 \<le> time_left c' \<and> time_left c' \<le> k \<and> (cpu_pc c' = At_run \<longrightarrow> 1 \<le> time_left c')"
  using assms
  by (cases "cpu_pc c")
     (auto simp: cpu_step_defs bind_eq_Some_conv Let_def case_prod_beta
        split: option.splits if_splits)

lemma wstep_slice: "wstep cfg fs w a w' \<Longrightarrow> slice_inv cfg w \<Longrightarrow> slice_inv cfg w'"
proof (induction rule: wstep.induct)
  case (cpu w i v junk c s g)
  then have "0 < time_slot cfg \<Longrightarrow> 0 \<le> time_left c \<and> time_left c \<le> time_slot cfg \<and> (cpu_pc c = At_run \<longrightarrow> 1 \<le> time_left c)"
    using cpu_routine_slice [OF cpu(4)] nth_mem [OF cpu(2)] by (simp add: slice_inv_def)
  with cpu(5) show ?case
    by (auto simp: slice_inv_def dest!: subsetD [OF set_update_subset_insert])
qed (simp_all add: slice_inv_def)

lemma boot_slice: "slice_inv cfg (boot cfg m0 j0 m1 j1)"
  by (simp add: slice_inv_def boot_def cpu_start_def Let_def)

interpretation slices: step_invariant "world_init cfg" "wstep cfg fs" "slice_inv cfg"
  by unfold_locales (auto simp: world_init_def boot_slice intro: wstep_slice)

text \<open>
  The instructions that processor \<open>i\<close> has executed since it last reported a dispatch, counted from outside:
  the steps in which it is at \<open>run\<close>.
\<close>

definition slice_count :: "nat \<Rightarrow> nat \<Rightarrow> world \<Rightarrow> wact \<Rightarrow> world \<Rightarrow> nat" where
  "slice_count i n w a w' =
     (if a \<noteq> Cpu i then n
      else if cpu_pc (wcpus w ! i) = At_run then Suc n
      else if cpu_pc (wcpus w ! i) = At_check \<and> (\<exists>d. out (osys (wos w')) = out (osys (wos w)) @ [Dispatched (int i) d]) then 0
      else n)"

inductive slice_run :: "config \<Rightarrow> (string \<Rightarrow> string option) \<Rightarrow> nat \<Rightarrow> nat \<Rightarrow> world \<Rightarrow> bool"
  for cfg :: config and fs :: "string \<Rightarrow> string option" and i :: nat where
  slice_start: "world_init cfg w \<Longrightarrow> slice_run cfg fs i 0 w"
| slice_step: "slice_run cfg fs i n w \<Longrightarrow> wstep cfg fs w a w' \<Longrightarrow> slice_run cfg fs i (slice_count i n w a w') w'"

lemma slice_from_boot: "reach (world_init cfg) (wstep cfg fs) w \<Longrightarrow> \<exists>n. slice_run cfg fs i n w"
  by (induction rule: reach.induct) (blast intro: slice_run.intros)+

text \<open>While a processor holds a process, the counter is what is left of the slice.\<close>

definition slice_ok :: "int \<Rightarrow> nat \<Rightarrow> cpu_t \<Rightarrow> bool" where
  "slice_ok k n c \<longleftrightarrow> 0 \<le> time_left c \<and> int n + time_left c \<le> k \<and> (case cpu_pc c of
     At_top \<Rightarrow> if cproc c = None then time_left c = 0 else int n + time_left c = k
   | At_put \<Rightarrow> time_left c = 0 \<and> int n = k
   | At_get \<Rightarrow> time_left c = 0
   | At_check \<Rightarrow> time_left c = 0 \<or> cproc c \<noteq> None \<and> int n + time_left c = k
   | At_run \<Rightarrow> 0 < time_left c \<and> int n + time_left c = k
   | At_end \<Rightarrow> True)"

lemma cpu_slice_ok:
  assumes "cpu_routine k v junk i c s = Some (c', s', g)" "slice_ok k n c" "0 < k"
  shows "slice_ok k (if cpu_pc c = At_run then Suc n
    else if cpu_pc c = At_check \<and> (\<exists>d. out (osys s') = out (osys s) @ [Dispatched (int i) d]) then 0 else n) c'"
  using assms
  by (cases "cpu_pc c")
     (auto simp: cpu_step_defs slice_ok_def bind_eq_Some_conv Let_def case_prod_beta emit_def
        split: option.splits if_splits)

lemma slice_run_ok:
  "slice_run cfg fs i n w \<Longrightarrow> 0 < time_slot cfg \<Longrightarrow> i < length (wcpus w) \<Longrightarrow> slice_ok (time_slot cfg) n (wcpus w ! i)"
proof (induction rule: slice_run.induct)
  case (slice_start w)
  then show ?case by (auto simp: world_init_def boot_def cpu_start_def slice_ok_def Let_def)
next
  case (slice_step n w a w')
  from slice_step.hyps(2) show ?case
  proof (cases rule: wstep.cases)
    case (cpu j v junk c s g)
    with slice_step.prems slice_step.IH cpu_slice_ok [of "time_slot cfg" v junk i "wcpus w ! i" "wos w" c s g n] show ?thesis
      by (cases "j = i") (auto simp: slice_count_def)
  qed (use slice_step.prems slice_step.IH in \<open>simp_all add: slice_count_def\<close>)
qed

section \<open>A run of the program\<close>

text \<open>One processor, no process; and one process of priority 0 that starts at once.\<close>

definition demo_cfg :: "nat \<Rightarrow> config" where
  "demo_cfg n = \<lparr>time_slot = 2, num_cpus = 1, num_processes = int n, memramsz = 1024, memswpsz = [1024, 0, 0, 0],
     ld_path = replicate n ''p'', ld_start_time = replicate n 0, ld_prio = replicate n 0\<rparr>"

definition demo_fs :: "string \<Rightarrow> string option" where
  "demo_fs = (\<lambda>_. Some (show_prog 1 demo_prog))"

definition demo_boot :: "nat \<Rightarrow> world" where
  "demo_boot n = boot (demo_cfg n) demo_mem [] demo_mem []"

lemma reach_demo_boot: "reach (world_init (demo_cfg n)) (wstep (demo_cfg n) demo_fs) (demo_boot n)"
  by (rule reach.reach_init) (auto simp: world_init_def demo_boot_def)

lemma demo_boot_simps [simp]: "wcpus (demo_boot n) = [cpu_start]" "wld (demo_boot n) = ld_start"
  "exit_code (wos (demo_boot n)) = None" "ld_done (wos (demo_boot n)) = False"
  "procs (osys (wos (demo_boot n))) = Map.empty" "sched (osys (wos (demo_boot n))) = init_scheduler zero_sched"
  "avail (wos (demo_boot n)) = 1" "wtm (demo_boot n) = booted 2" "current_time (booted 2) = 0"
  by (simp_all add: demo_boot_def boot_def demo_cfg_def Let_def current_time_def booted_eq numeral_2_eq_2)

lemma demo_dev [simp]: "dev_at (booted 2) 0 Running" "dev_at (booted 2) (Suc 0) Running"
  by (simp_all add: dev_at_def booted_eq fresh_dev_def numeral_2_eq_2)

text \<open>Without processes the loader ends at once.\<close>

definition demo_ended :: world where
  "demo_ended = (demo_boot 0)\<lparr>wos := (wos (demo_boot 0))\<lparr>ld_done := True\<rparr>, wld := ld_start\<lparr>ld_pc := Ld_end\<rparr>,
     wtm := detach_event 0 (booted 2)\<rparr>"

lemma reach_demo_ended: "reach (world_init (demo_cfg 0)) (wstep (demo_cfg 0) demo_fs) demo_ended"
proof -
  have "ld_routine (demo_cfg 0) demo_fs 0 legacy_pcb (\<lambda>_. hd demo_prog) [] (current_time (wtm (demo_boot 0)))
      (wld (demo_boot 0)) (wos (demo_boot 0)) =
      Some (ld_start\<lparr>ld_pc := Ld_end\<rparr>, (wos (demo_boot 0))\<lparr>ld_done := True\<rparr>, Detach)"
    by (simp add: ld_routine_def ld_load_def ld_start_def demo_cfg_def)
  from wstep.loader [OF _ _ _ this]
  have "wstep (demo_cfg 0) demo_fs (demo_boot 0) Loader_thread demo_ended"
    by (simp add: demo_ended_def)
  from reach_step [OF reach_demo_boot this] show ?thesis .
qed

text \<open>With one process: it is loaded, gets its memory, is added, and the processor fetches it.\<close>

lemma get_proc_None: "wf_sched s \<Longrightarrow> get_proc s = (None, s') \<Longrightarrow> i < MAX_PRIO \<Longrightarrow> level s i = []"
proof -
  assume a: "wf_sched s" "get_proc s = (None, s')" "i < MAX_PRIO"
  from a(1) show ?thesis
  proof (cases rule: get_mlq_cases)
    case (budget h)
    with a serve_result(1) [OF a(1), of h "Suc (used_budget s h)"] show ?thesis by (simp add: get_proc_def)
  next
    case (turn h n)
    with a serve_result(1) [OF a(1), of n 1] show ?thesis by (simp add: get_proc_def)
  qed (use a in simp)
qed

lemma demo_load: "\<exists>b. load demo_fs legacy_pcb (\<lambda>_. hd demo_prog) 1 ''p'' = Some (Inr (b, 2))"
  using load_show_prog [of demo_fs "''p''" 1 demo_prog legacy_pcb "\<lambda>_. hd demo_prog" 1]
  by (auto simp: demo_fs_def demo_prog_def)

text \<open>The loader's three steps that do not end its slot, from a state where nothing is loaded.\<close>

lemma loader_continues:
  assumes "reach (world_init cfg) (wstep cfg fs) w" "exit_code (wos w) = None" "dev_at (wtm w) 0 Running"
    "procs (osys (wos w)) p = None"
    "ld_routine cfg fs p mem cell rgs (current_time (wtm w)) (wld w) (wos w) = Some (l, s, Continue)"
  shows "reach (world_init cfg) (wstep cfg fs) (w\<lparr>wos := s, wld := l\<rparr>)"
  using reach_step [OF assms(1) wstep.loader [OF assms(2-5)]] by simp

lemma demo_loaded:
  obtains w b where "reach (world_init (demo_cfg 1)) (wstep (demo_cfg 1) demo_fs) w" "wcpus w = [cpu_start]"
    "wtm w = booted 2" "exit_code (wos w) = None" "sched (osys (wos w)) = init_scheduler zero_sched"
    "procs (osys (wos w)) = [0 \<mapsto> b]" "prio b = 0" "wld w = \<lparr>ld_pc = Ld_add, ld_i = 0, ld_proc = Some 0\<rparr>"
    "out (osys (wos w)) = [Loaded ''p'' (pid b) 0]"
    "krnl (osys (wos w)) = snd (init_mm (krnl (osys (wos (demo_boot 1)))) False False [])"
proof -
  obtain b where b: "load demo_fs legacy_pcb (\<lambda>_. hd demo_prog) 1 ''p'' = Some (Inr (b, 2))" using demo_load by blast
  let ?b = "b\<lparr>prio := 0\<rparr>"
  define s1 where "s1 = (wos (demo_boot 1))\<lparr>osys := set_pcb 0 ?b (osys (wos (demo_boot 1))), avail := 2\<rparr>"
  define l1 where "l1 = \<lparr>ld_pc = Ld_wait, ld_i = 0, ld_proc = Some (0 :: pref)\<rparr>"
  have "ld_routine (demo_cfg 1) demo_fs 0 legacy_pcb (\<lambda>_. hd demo_prog) [] (current_time (wtm (demo_boot 1)))
      (wld (demo_boot 1)) (wos (demo_boot 1)) = Some (l1, s1, Continue)"
    by (simp add: ld_routine_def ld_load_def ld_start_def demo_cfg_def rd_def b l1_def s1_def)
  from loader_continues [OF reach_demo_boot _ _ _ this]
  have 1: "reach (world_init (demo_cfg 1)) (wstep (demo_cfg 1) demo_fs) ((demo_boot 1)\<lparr>wos := s1, wld := l1\<rparr>)" (is "reach _ _ ?w1")
    by simp
  define l2 where "l2 = l1\<lparr>ld_pc := Ld_init\<rparr>"
  have s1: "exit_code s1 = None" "procs (osys s1) = [0 \<mapsto> ?b]" "sched (osys s1) = init_scheduler zero_sched"
    "krnl (osys s1) = krnl (osys (wos (demo_boot 1)))" "out (osys s1) = []"
    by (simp_all add: s1_def set_pcb_def demo_boot_def boot_def Let_def)
  have "mm (krnl (osys s1)) = None" by (simp add: s1_def set_pcb_def demo_boot_def boot_def Let_def)
  then have "s1\<lparr>osys := (osys s1)\<lparr>krnl := (krnl (osys s1))\<lparr>mm := None\<rparr>\<rparr>\<rparr> = s1"
    by (intro os_t.equality sys_t.equality krnl_t.equality) simp_all
  then have "ld_routine (demo_cfg 1) demo_fs 1 legacy_pcb (\<lambda>_. hd demo_prog) [] (current_time (wtm ?w1)) (wld ?w1) (wos ?w1) =
      Some (l2, s1, Continue)"
    by (simp add: ld_routine_def ld_waiting_def demo_cfg_def rd_def l1_def l2_def)
  from loader_continues [OF 1 _ _ _ this]
  have 2: "reach (world_init (demo_cfg 1)) (wstep (demo_cfg 1) demo_fs) ((demo_boot 1)\<lparr>wos := s1, wld := l2\<rparr>)" (is "reach _ _ ?w2")
    by (simp add: s1)
  define s3 where "s3 = s1\<lparr>osys := emit [Loaded ''p'' (pid b) 0] ((osys s1)\<lparr>krnl := snd (init_mm (krnl (osys s1)) False False [])\<rparr>)\<rparr>"
  define l3 where "l3 = l1\<lparr>ld_pc := Ld_add\<rparr>"
  have "ld_routine (demo_cfg 1) demo_fs 1 legacy_pcb (\<lambda>_. hd demo_prog) [] (current_time (wtm ?w2)) (wld ?w2) (wos ?w2) =
      Some (l3, s3, Continue)"
    by (simp add: ld_routine_def ld_memory_def demo_cfg_def rd_def l1_def l2_def l3_def s3_def s1 case_prod_beta Let_def)
  from loader_continues [OF 2 _ _ _ this]
  have "reach (world_init (demo_cfg 1)) (wstep (demo_cfg 1) demo_fs) ((demo_boot 1)\<lparr>wos := s3, wld := l3\<rparr>)"
    by (simp add: s1)
  then show thesis by (rule that [where b = ?b]) (simp_all add: s3_def s1 l3_def l1_def emit_def)
qed

lemma demo_added:
  obtains w b where "reach (world_init (demo_cfg 1)) (wstep (demo_cfg 1) demo_fs) w" "wcpus w = [cpu_start]"
    "wtm w = next_slot_announce 0 (booted 2)" "exit_code (wos w) = None" "procs (osys (wos w)) = [0 \<mapsto> b]"
    "wf_sched (sched (osys (wos w)))" "level (sched (osys (wos w))) 0 = [0]"
    "contents (running_list (sched (osys (wos w)))) = [0]" "wld w = \<lparr>ld_pc = Ld_top, ld_i = 1, ld_proc = None\<rparr>"
    "out (osys (wos w)) = [Loaded ''p'' (pid b) 0]"
    "krnl (osys (wos w)) = snd (init_mm (krnl (osys (wos (demo_boot 1)))) False False [])"
proof -
  obtain w b where w: "reach (world_init (demo_cfg 1)) (wstep (demo_cfg 1) demo_fs) w" "wcpus w = [cpu_start]"
    "wtm w = booted 2" "exit_code (wos w) = None" "sched (osys (wos w)) = init_scheduler zero_sched"
    "procs (osys (wos w)) = [0 \<mapsto> b]" "prio b = 0" "wld w = \<lparr>ld_pc = Ld_add, ld_i = 0, ld_proc = Some 0\<rparr>"
    "out (osys (wos w)) = [Loaded ''p'' (pid b) 0]"
    "krnl (osys (wos w)) = snd (init_mm (krnl (osys (wos (demo_boot 1)))) False False [])"
    by (rule demo_loaded) (rule that; assumption)
  have h: "[0 \<mapsto> b] 0 = Some b" "unat (prio b) < MAX_PRIO" using w(7) by (simp_all add: MAX_PRIO_def)
  obtain sc where sc: "put_proc [0 \<mapsto> b] 0 (init_scheduler zero_sched) = Some sc" "wf_sched sc"
    "\<And>j. level sc j = (if j = unat (prio b) \<and> length (level (init_scheduler zero_sched) j) < MAX_QUEUE_SIZE
       then level (init_scheduler zero_sched) j @ [0] else level (init_scheduler zero_sched) j)"
    "contents (running_list sc) = contents (enqueue (running_list (init_scheduler zero_sched)) (Some 0))"
    by (rule put_proc_Some [of "init_scheduler zero_sched" "[0 \<mapsto> b]" 0 b, OF wf_sched_init h]) (rule that; assumption)
  have lev: "level sc 0 = [0]" using sc(3) [of 0] w(7) by (simp add: level_init MAX_PRIO_def MAX_QUEUE_SIZE_def)
  have rl: "contents (running_list sc) = [0]"
  proof -
    have "running_list (init_scheduler zero_sched) = (zero_queue :: pref queue_t)"
      by (simp add: init_scheduler_def zero_sched_def zero_queue_def)
    then show ?thesis by (simp add: sc(4) contents_enqueue MAX_QUEUE_SIZE_def)
  qed
  let ?l1 = "(wld w)\<lparr>ld_pc := Ld_queue\<rparr>" and ?l = "\<lparr>ld_pc = Ld_top, ld_i = 1, ld_proc = None\<rparr>"
  let ?s1 = "(wos w)\<lparr>osys := (osys (wos w))\<lparr>sched := list_running 0 (sched (osys (wos w)))\<rparr>\<rparr>"
  let ?s = "(wos w)\<lparr>osys := (osys (wos w))\<lparr>sched := sc\<rparr>\<rparr>"
  have "ld_routine (demo_cfg 1) demo_fs 1 legacy_pcb (\<lambda>_. hd demo_prog) [] (current_time (wtm w)) (wld w) (wos w) =
      Some (?l1, ?s1, Continue)"
    using w(8) by (simp add: ld_routine_def ld_add_def)
  from loader_continues [OF w(1,4) _ _ this] w(3,6)
  have 1: "reach (world_init (demo_cfg 1)) (wstep (demo_cfg 1) demo_fs) (w\<lparr>wos := ?s1, wld := ?l1\<rparr>)" by simp
  have "ld_routine (demo_cfg 1) demo_fs 1 legacy_pcb (\<lambda>_. hd demo_prog) [] (current_time (wtm w)) ?l1 ?s1 = Some (?l, ?s, Next_slot)"
    using w sc(1) by (simp add: ld_routine_def ld_queue_def add_is_put_mlq put_proc_def)
  then have "wstep (demo_cfg 1) demo_fs (w\<lparr>wos := ?s1, wld := ?l1\<rparr>) Loader_thread
      (w\<lparr>wos := ?s, wld := ?l, wtm := next_slot_announce 0 (booted 2)\<rparr>)"
    using wstep.loader [of "w\<lparr>wos := ?s1, wld := ?l1\<rparr>" 1] w(3,4,6) by fastforce
  from reach_step [OF 1 this] have "reach (world_init (demo_cfg 1)) (wstep (demo_cfg 1) demo_fs)
      (w\<lparr>wos := ?s, wld := ?l, wtm := next_slot_announce 0 (booted 2)\<rparr>)" .
  then show thesis by (rule that [where b = b]) (simp_all add: w(2,4,6,9,10) sc(2) lev rl)
qed

lemma demo_dispatched:
  obtains w p where "reach (world_init (demo_cfg 1)) (wstep (demo_cfg 1) demo_fs) w"
    "wcpus w = [cpu_start\<lparr>cproc := Some p, cpu_pc := At_check\<rparr>]" "ld_pc (wld w) = Ld_top" "exit_code (wos w) = None"
    "dev_at (wtm w) (dev_of w 0) Running"
proof -
  obtain w b where w: "reach (world_init (demo_cfg 1)) (wstep (demo_cfg 1) demo_fs) w" "wcpus w = [cpu_start]"
    "wtm w = next_slot_announce 0 (booted 2)" "exit_code (wos w) = None" "procs (osys (wos w)) = [0 \<mapsto> b]"
    "wf_sched (sched (osys (wos w)))" "level (sched (osys (wos w))) 0 = [0]" "wld w = \<lparr>ld_pc = Ld_top, ld_i = 1, ld_proc = None\<rparr>"
    by (rule demo_added)
  obtain q sc' where g: "get_proc (sched (osys (wos w))) = (q, sc')" by (cases "get_proc (sched (osys (wos w)))")
  from get_proc_None [OF w(6), of sc' 0] g w(7) obtain p where q: "q = Some p" by (cases q) (auto simp: MAX_PRIO_def)
  let ?s = "(wos w)\<lparr>osys := (osys (wos w))\<lparr>sched := sc'\<rparr>\<rparr>" and ?c = "cpu_start\<lparr>cproc := Some p, cpu_pc := At_check\<rparr>"
  have f: "fetch (wos w) = (Some p, ?s)" using g q by (simp add: fetch_def)
  have d: "dev_at (wtm w) (dev_of w 0) Running"
    using w(2,3) by (simp add: dev_at_def dev_of_def next_slot_announce_def booted_eq fresh_dev_def numeral_2_eq_2)
  have "cpu_routine (time_slot (demo_cfg 1)) undefined undefined 0 (wcpus w ! 0) (wos w) = Some (?c, ?s, Continue)"
    using w(2) f by (simp add: cpu_routine_def cpu_top_def cpu_start_def)
  from wstep.cpu [OF w(4) _ d this] w(2)
  have "wstep (demo_cfg 1) demo_fs w (Cpu 0) (w\<lparr>wos := ?s, wcpus := (wcpus w)[0 := ?c]\<rparr>)" by simp
  from reach_step [OF w(1) this] show thesis
    by (rule that) (use w(2,4,8) d in \<open>simp_all add: dev_of_def\<close>)
qed

lemma demo_dispatch_reachable:
  "\<exists>w p. reach (world_init (demo_cfg 1)) (wstep (demo_cfg 1) demo_fs) w \<and> wcpus w \<noteq> [] \<and> cproc (wcpus w ! 0) = Some p \<and>
     ld_pc (wld w) = Ld_top"
  by (rule demo_dispatched) fastforce

section \<open>Properties\<close>

lemma winv_one_owner:
  assumes "winv w" "i < length (wcpus w)" "cproc (wcpus w ! i) = Some p"
  shows "procs (osys (wos w)) p \<noteq> None \<and> p \<notin># waiting (sched (osys (wos w))) \<and> ld_proc (wld w) \<noteq> Some p \<and>
    (\<forall>j < length (wcpus w). j \<noteq> i \<longrightarrow> cproc (wcpus w ! j) \<noteq> Some p)"
proof -
  from assms(1) have ok: "owned_ok (procs (osys (wos w))) (owners w)" by (simp add: winv_def owner_inv_def)
  obtain R where R: "on_cpus (wcpus w) = {#p#} + R" "\<forall>c. on_cpus ((wcpus w)[i := c]) = opt (cproc c) + R"
    using on_cpus_split [OF assms(2)] assms(3) by auto
  have "p \<in># owners w" using R(1) by (simp add: owners_def)
  with ok have alive: "procs (osys (wos w)) p \<noteq> None" unfolding owned_ok_def by blast
  have "count (owners w) p \<le> 1" using ok by (simp only: owned_ok_def)
  then have out: "p \<notin># waiting (sched (osys (wos w)))" "p \<notin># R" "p \<notin># opt (ld_proc (wld w))"
    using R(1) by (simp_all add: owners_def not_in_iff)
  have "cproc (wcpus w ! j) \<noteq> Some p" if j: "j < length (wcpus w)" "j \<noteq> i" for j
  proof
    assume "cproc (wcpus w ! j) = Some p"
    then have "on_cpus ((wcpus w)[i := cpu_start, j := cpu_start]) + {#p#} = on_cpus ((wcpus w)[i := cpu_start])"
      using on_cpus_update [of j "(wcpus w)[i := cpu_start]" cpu_start] j by (simp add: cpu_start_def)
    then have "p \<in># on_cpus ((wcpus w)[i := cpu_start])" by (metis union_single_eq_member add_mset_add_single)
    with R(2) out(2) show False by (simp add: cpu_start_def)
  qed
  with out alive show ?thesis by auto
qed

text \<open>
  C3: a process belongs to one thread at a time. In every state the program can reach,
  however its threads interleave, the process a processor holds is allocated, is in no
  ready queue, is held by no other processor and is not the one the loader is preparing: no
  process runs on two processors, none runs while it is queued, and none is dispatched or
  put back after it was freed.
\<close>
theorem process_has_one_owner:
  assumes "reach (world_init cfg) (wstep cfg fs) w" "i < length (wcpus w)" "cproc (wcpus w ! i) = Some p"
  shows "procs (osys (wos w)) p \<noteq> None \<and> p \<notin># waiting (sched (osys (wos w))) \<and> ld_proc (wld w) \<noteq> Some p \<and>
    (\<forall>j < length (wcpus w). j \<noteq> i \<longrightarrow> cproc (wcpus w ! j) \<noteq> Some p)"
  by (rule winv_one_owner [OF program.reach_inv [OF assms(1)] assms(2,3)])

theorem process_has_one_owner_witness:
  "\<exists>(w :: world) p. cproc (wcpus w ! 0) = Some p \<and> procs (osys (wos w)) p \<noteq> None \<and> p \<notin># waiting (sched (osys (wos w)))"
proof -
  obtain w p where w: "reach (world_init (demo_cfg 1)) (wstep (demo_cfg 1) demo_fs) w" "wcpus w \<noteq> []" "cproc (wcpus w ! 0) = Some p"
    using demo_dispatch_reachable by blast
  then have "0 < length (wcpus w)" by simp
  from process_has_one_owner [OF w(1) this w(3)] w(3) show ?thesis by blast
qed

text \<open>Only a processor frees a process, the one it holds, at the end of its program.\<close>

lemma freed_by_cpu:
  assumes "cpu_routine k v junk i c s = Some (c', s', g)" "procs (osys s) p = Some b" "procs (osys s') p = None"
  shows "cproc c = Some p \<and> pc b = csize (code b)"
proof -
  have f: "procs (osys (snd (fetch s))) = procs (osys s)" by (simp add: fetch_def case_prod_beta Let_def)
  have r: "procs y p \<noteq> None" if run: "run v junk (osys s) q = Some (r, y)" for r q y
  proof -
    obtain d where d: "procs (osys s) q = Some d" using run_alive [OF run] by blast
    from run_procs [OF run d] assms(2) show ?thesis by (auto split: if_splits)
  qed
  from assms f show ?thesis
    by (cases "cpu_pc c")
       (auto simp: cpu_step_defs bind_eq_Some_conv case_prod_beta
          split: option.splits if_splits dest: r)
qed

lemma freed_by_step:
  assumes "wstep cfg fs w a w'" "procs (osys (wos w)) p = Some b" "procs (osys (wos w')) p = None"
  shows "pc b = csize (code b) \<and> (\<exists>i < length (wcpus w). a = Cpu i \<and> cproc (wcpus w ! i) = Some p)"
  using assms(1)
proof (cases rule: wstep.cases)
  case (cpu i v junk c s g)
  with freed_by_cpu [OF cpu(6) assms(2)] assms(3) show ?thesis by auto
next
  case (loader q mem cell rgs l s g)
  have "procs (osys s) p \<noteq> None"
  proof (cases "ld_pc (wld w) = Ld_top")
    case True
    with loader(6) have "ld_load cfg fs q mem cell (wld w) (wos w) = Some (l, s, g)" by (simp add: ld_routine_def)
    then show ?thesis by (cases rule: ld_load_cases) (use assms(2) in \<open>simp_all add: set_pcb_def\<close>)
  qed (use ld_other_same [OF loader(6)] assms(2) in simp)
  with loader(2) assms(3) show ?thesis by simp
qed (use assms in simp_all)

text \<open>
  C4: no process is lost. With at most 50 processes (the length of a queue), in every
  reachable state a process that is allocated is in exactly one place: a ready queue, a
  processor, or the loader. A step leaves it allocated and in exactly one place, except the
  step by which the processor that holds it frees it, and that processor has executed its
  program to the end.
\<close>
theorem no_process_lost:
  assumes "reach (world_init cfg) (wstep cfg fs) w" "num_processes cfg \<le> int MAX_QUEUE_SIZE"
    and "procs (osys (wos w)) p = Some b" "wstep cfg fs w a w'"
  shows "count (owners w) p = 1 \<and>
    (procs (osys (wos w')) p \<noteq> None \<and> count (owners w') p = 1 \<or>
     procs (osys (wos w')) p = None \<and> count (owners w') p = 0 \<and> pc b = csize (code b) \<and>
       (\<exists>i < length (wcpus w). a = Cpu i \<and> cproc (wcpus w ! i) = Some p))"
proof -
  have once: "count (owners u) p = (if procs (osys (wos u)) p = None then 0 else 1)"
    if u: "reach (world_init cfg) (wstep cfg fs) u" for u
  proof -
    have inv: "kept_inv cfg u" by (rule kept.reach_inv [OF u])
    then have d: "dom (procs (osys (wos u))) = set_mset (owners u)" using assms(2) by (simp add: kept_inv_def all_owned_def)
    have "count (owners u) p \<le> 1" using inv unfolding kept_inv_def winv_def owner_inv_def owned_ok_def by blast
    moreover have "count (owners u) p = 0 \<longleftrightarrow> procs (osys (wos u)) p = None"
      using d by (metis count_eq_zero_iff domIff)
    ultimately show ?thesis by (metis One_nat_def le_SucE le_zero_eq)
  qed
  from once [OF assms(1)] once [OF reach_step [OF assms(1,4)]] freed_by_step [OF assms(4,3)] assms(3)
  show ?thesis by (cases "procs (osys (wos w')) p") auto
qed

theorem no_process_lost_witness:
  "\<exists>w :: world. procs (osys (wos w)) 0 \<noteq> None \<and> count (owners w) 0 = 1"
proof -
  obtain w b where w: "reach (world_init (demo_cfg 1)) (wstep (demo_cfg 1) demo_fs) w" "wcpus w = [cpu_start]"
    "wtm w = next_slot_announce 0 (booted 2)" "exit_code (wos w) = None" "procs (osys (wos w)) = [0 \<mapsto> b]"
    by (rule demo_added)
  have "wstep (demo_cfg 1) demo_fs w (Clock Spurious) (w\<lparr>wtm := spurious_timer (wtm w)\<rparr>)"
    by (rule wstep.clock [OF w(4) tstep.wake_timer]) simp
  from no_process_lost [OF w(1) _ _ this, of 0 b] w(5) show ?thesis
    by (intro exI [of _ w]) (simp add: demo_cfg_def MAX_QUEUE_SIZE_def)
qed

text \<open>A number stays with its process.\<close>

definition owns_pid :: "pref \<Rightarrow> u32 \<Rightarrow> world \<Rightarrow> bool" where
  "owns_pid p n w \<longleftrightarrow> (\<forall>q c. procs (osys (wos w)) q = Some c \<and> pid c = n \<longrightarrow> q = p) \<and> n < avail (wos w)"

lemma wstep_owns_pid:
  assumes "wstep cfg fs w a w'" "owns_pid p n w" "kept_inv cfg w'" "num_processes cfg < 2 ^ 31"
  shows "owns_pid p n w'"
  using assms(1)
proof (cases rule: wstep.cases)
  case (cpu i v junk c s g)
  from cpu_routine_pids [OF cpu(6)] assms(2) cpu(2) show ?thesis by (fastforce simp: owns_pid_def same_pids_def)
next
  case (loader q mem cell rgs l s g)
  show ?thesis
  proof (cases "ld_pc (wld w) = Ld_top")
    case False
    with ld_other_same [OF loader(6)] assms(2) loader(2) show ?thesis by (simp add: owns_pid_def)
  next
    case True
    with loader(6) have "ld_load cfg fs q mem cell (wld w) (wos w) = Some (l, s, g)" by (simp add: ld_routine_def)
    then show ?thesis
    proof (cases rule: ld_load_cases)
      case (loads b k)
      note f = load_fresh [OF loads(5)]
      have "pids_ok (procs (osys s)) (avail s)" using assms(3,4) loader(2) by (simp add: kept_inv_def pid_inv_def)
      moreover have "procs (osys s) q = Some b" using loads(2) by (simp add: set_pcb_def)
      ultimately have "pid b < avail s" unfolding pids_ok_def by blast
      then have "avail (wos w) < avail (wos w) + 1" using f loads(2,6) by simp
      with assms(2) loads(2,6) f loader(2) show ?thesis by (auto simp: owns_pid_def set_pcb_def)
    qed (use assms(2) loader(2) in \<open>simp_all add: owns_pid_def\<close>)
  qed
qed (use assms(2) in \<open>simp_all add: owns_pid_def\<close>)

lemma find_caller_pid:
  assumes "find_caller y n = Some (r, y')"
  shows "r = None \<or> (\<exists>q c. r = Some q \<and> procs y q = Some c \<and> pid c = n)"
proof -
  from assms obtain q' k where "find_loop (procs y) n k (running_list (sched y)) = Some (r, q')" by (auto simp: find_caller_rl)
  then show ?thesis by (rule find_loop_pid)
qed

text \<open>
  C27: a system call acts on its caller or on nobody. The search of the running list compares the number of
  its caller with those of the processes it takes from the list, one after the other, while other threads load, free and
  queue processes. From a reachable state in which process p has number n, whatever steps follow, no other
  process that is allocated then has number n: each of these comparisons, whenever it is made and whatever the list
  holds by then, succeeds for p only. So a search of the list as it is at any such moment returns p or none (the list
  may have dropped p). With less than \<open>2^31\<close> processes the counter of the loader does not wrap.
\<close>
theorem syscall_finds_its_caller:
  assumes "reach (world_init cfg) (wstep cfg fs) w" "num_processes cfg < 2 ^ 31"
    and "procs (osys (wos w)) p = Some b" "run_of (wstep cfg fs) w as w'"
  shows "(\<forall>q c. procs (osys (wos w')) q = Some c \<and> pid c = pid b \<longrightarrow> q = p) \<and>
    (\<forall>r y. find_caller (osys (wos w')) (pid b) = Some (r, y) \<longrightarrow> r = None \<or> r = Some p)"
proof -
  have kept: "kept_inv cfg w" by (rule kept.reach_inv [OF assms(1)])
  then have "pids_ok (procs (osys (wos w))) (avail (wos w))" using assms(2) by (simp add: kept_inv_def pid_inv_def)
  with assms(3) have "owns_pid p (pid b) w" unfolding pids_ok_def owns_pid_def by blast
  with assms(4) kept have "owns_pid p (pid b) w'"
  proof (induction rule: run_of.induct)
    case (run_Cons w a w1 as w')
    from wstep_kept [OF run_Cons.hyps(1) run_Cons.prems(1)] wstep_owns_pid [OF run_Cons.hyps(1) run_Cons.prems(2) _ assms(2)]
    show ?case by (intro run_Cons.IH) simp_all
  qed
  then have only: "\<forall>q c. procs (osys (wos w')) q = Some c \<and> pid c = pid b \<longrightarrow> q = p" by (simp add: owns_pid_def)
  with find_caller_pid show ?thesis by blast
qed

theorem syscall_finds_its_caller_witness:
  "\<exists>(w :: world) b y. procs (osys (wos w)) 0 = Some b \<and> find_caller (osys (wos w)) (pid b) = Some (Some 0, y) \<and>
     \<not> (\<exists>q c. procs (osys (wos w)) q = Some c \<and> pid c = pid b \<and> q \<noteq> 0)"
proof -
  obtain w b where w: "reach (world_init (demo_cfg 1)) (wstep (demo_cfg 1) demo_fs) w" "procs (osys (wos w)) = [0 \<mapsto> b]"
    "wf_sched (sched (osys (wos w)))" "contents (running_list (sched (osys (wos w)))) = [0]"
    by (rule demo_added) (rule that; assumption)
  have "wf_queue (running_list (sched (osys (wos w))))" using w(3) by (simp add: wf_sched_def)
  moreover have "has_pid (procs (osys (wos w))) (pid b) 0" using w(2) by (simp add: has_pid_def)
  ultimately obtain rl where f: "find_caller (osys (wos w)) (pid b) = Some (Some 0, with_rl (osys (wos w)) rl)"
    using find_caller_found [of "osys (wos w)" "[]" 0 "[]" "pid b"] w(4) by (auto simp: all_alive_def)
  have "num_processes (demo_cfg 1) < 2 ^ 31" "procs (osys (wos w)) 0 = Some b" using w(2) by (simp_all add: demo_cfg_def)
  with syscall_finds_its_caller [OF w(1) this run_Nil] f show ?thesis by (intro exI [of _ w] exI [of _ b]) blast
qed

text \<open>
  C10: no page of an initialised address space is ever present. In every state the program can reach, whatever the loaded programs do,
  and whatever process is on a processor: if the loader has allocated a new address space and not yet initialised it,
  looking up a page is undefined; and otherwise the address space has no last table and no page on its list, so that the
  lookup of every page fails and a store through the access path stores nothing. (READ and WRITE use this path; the
  system calls for input and output address the RAM directly.)
\<close>
theorem no_page_is_ever_present:
  assumes "reach (world_init cfg) (wstep cfg fs) w" "i < length (wcpus w)" "cproc (wcpus w ! i) = Some p"
  shows "if ld_pc (wld w) = Ld_init then pg_getpage (krnl (osys (wos w))) pgn fpn = None
    else inert (krnl (osys (wos w))) \<and> pg_getpage (krnl (osys (wos w))) pgn fpn = Some (- 1, fpn, krnl (osys (wos w))) \<and>
      pg_setval (krnl (osys (wos w))) addr b = Some (- 1, krnl (osys (wos w)))"
proof -
  have "winv w" by (rule program.reach_inv [OF assms(1)])
  moreover have "on_cpus (wcpus w) \<noteq> {#}" using on_cpus_split [OF assms(2)] assms(3) by auto
  ultimately have "if ld_pc (wld w) = Ld_init then mm (krnl (osys (wos w))) = None else inert (krnl (osys (wos w)))"
    by (auto simp: winv_def mem_inv_def split: if_splits)
  moreover have "pg_getpage k pgn fpn = None" if "mm k = None" for k
    using that by (simp add: pg_getpage_def pte_get_entry_def)
  ultimately show ?thesis by (auto simp: pg_getpage_inert pg_setval_def)
qed

theorem no_page_is_ever_present_witness:
  "\<exists>w :: world. wcpus w \<noteq> [] \<and> pg_getpage (krnl (osys (wos w))) 5 7 = Some (- 1, 7, krnl (osys (wos w)))"
proof -
  obtain w p where w: "reach (world_init (demo_cfg 1)) (wstep (demo_cfg 1) demo_fs) w" "wcpus w \<noteq> []" "cproc (wcpus w ! 0) = Some p"
    "ld_pc (wld w) = Ld_top"
    using demo_dispatch_reachable by blast
  then have "0 < length (wcpus w)" by simp
  from no_page_is_ever_present [OF w(1) this w(3), of 5 7] w(2,4) show ?thesis by auto
qed

text \<open>
  C30: the clock advances between two iterations. When a step of the program changes the
  time, every processor is at the top of its loop or has stopped, and the loader is at the
  top of one of its loops or has ended: no dispatch and no instruction straddles two slots.
  The processes, the queues and the memory are as they were.
\<close>
theorem clock_between_iterations:
  assumes "reach (world_init cfg) (wstep cfg fs) w" "wstep cfg fs w a w'" "clock (wtm w') \<noteq> clock (wtm w)"
  shows "(\<forall>c\<in>set (wcpus w). cpu_pc c \<in> {At_top, At_end}) \<and> ld_pc (wld w) \<in> {Ld_top, Ld_wait, Ld_end} \<and>
    clock (wtm w') = clock (wtm w) + 1 \<and> wos w' = wos w \<and> wcpus w' = wcpus w"
proof -
  have "winv w" by (rule program.reach_inv [OF assms(1)])
  then have inv: "tinv (wtm w)" by (simp add: winv_def)
  have bar: "barrier_inv w" by (rule slots.reach_inv [OF assms(1)])
  from wstep_clock [OF assms(2,3)] obtain t where t: "w' = w\<lparr>wtm := t\<rparr>" and r: "timer_routine (wtm w) = Some t" by blast
  from assms(3) t have ne: "clock t \<noteq> clock (wtm w)" by simp
  from r ne obtain i f e where adv: "phase (wtm w) = Scan i f e" "\<not> i < length (dev_list (wtm w))"
    "t = (wtm w)\<lparr>clock := clock (wtm w) + 1, phase := Wake 0 f e\<rparr>"
    by (cases rule: timer_routine_cases) auto
  from inv adv(1) have sc: "scanned (dev_list (wtm w)) i f e" by (simp add: tinv_def phase_ok_def)
  have idle: "at (dev_list (wtm w) ! d) \<noteq> Running" if "d < length (dev_list (wtm w))" for d
    using scanned_all(2) [OF sc adv(2)] tinv_flags(1,2) [OF inv nth_mem [OF that]] that by auto
  from bar adv(1) have len: "length (dev_list (wtm w)) = Suc (length (wcpus w))" by (simp add: barrier_inv_def)
  have "cpu_pc c \<in> {At_top, At_end}" if "c \<in> set (wcpus w)" for c
  proof -
    from that obtain j where j: "j < length (wcpus w)" "c = wcpus w ! j" by (auto simp: in_set_conv_nth)
    then have "at (dev_list (wtm w) ! dev_of w j) \<noteq> Running" using idle len by (simp add: dev_of_def)
    with bar len j show ?thesis by (auto simp: barrier_inv_def)
  qed
  moreover have "ld_pc (wld w) \<in> {Ld_top, Ld_wait, Ld_end}"
    using bar len idle [of 0] by (auto simp: barrier_inv_def)
  ultimately show ?thesis using t adv(3) by simp
qed

text \<open>An idle slot of the program without processes: the processor announces, the timer visits both devices.\<close>

lemma reach_clock:
  assumes "reach (world_init cfg) (wstep cfg fs) w" "exit_code (wos w) = None" "timer_n n (wtm w) = Some t"
  shows "reach (world_init cfg) (wstep cfg fs) (w\<lparr>wtm := t\<rparr>)"
  using assms
proof (induction n arbitrary: w)
  case 0
  then have same: "w\<lparr>wtm := t\<rparr> = w" by (cases w) simp
  from 0(1) show ?case unfolding same .
next
  case (Suc n)
  from Suc.prems(3) obtain t1 where t1: "timer_routine (wtm w) = Some t1" "timer_n n t1 = Some t"
    by (auto simp: bind_eq_Some_conv)
  have "reach (world_init cfg) (wstep cfg fs) (w\<lparr>wtm := t1\<rparr>)"
    by (rule reach_step [OF Suc.prems(1) wstep.clock [OF Suc.prems(2) tstep.timer [OF t1(1)]]]) simp
  from Suc.IH [OF this] Suc.prems(2) t1(2) show ?case by simp
qed

lemma fetch_nothing:
  assumes "wf_sched (sched (osys s))" "waiting (sched (osys s)) = {#}"
  shows "fetch s = (None, s)"
proof -
  obtain q sc where g: "get_proc (sched (osys s)) = (q, sc)" by (cases "get_proc (sched (osys s))")
  from get_proc_waiting(2) [OF assms(1) g] assms(2) have "q = None" by (cases q) simp_all
  have "sc = sched (osys s)"
    using assms(1)
  proof (cases rule: get_mlq_cases)
    case (budget h)
    have "fst (get_proc (sched (osys s))) \<noteq> None"
      using serve_result(1) [OF assms(1) budget(1,2)] by (simp add: get_proc_def budget(5))
    with g \<open>q = None\<close> show ?thesis by simp
  next
    case (turn h n)
    have "fst (get_proc (sched (osys s))) \<noteq> None"
      using serve_result(1) [OF assms(1) turn(6,7)] by (simp add: get_proc_def turn(8))
    with g \<open>q = None\<close> show ?thesis by simp
  qed (use g in \<open>simp add: get_proc_def\<close>)
  with g \<open>q = None\<close> show ?thesis by (simp add: fetch_def)
qed

lemma idle_routine:
  assumes "wf_sched (sched (osys s))" "waiting (sched (osys s)) = {#}" "cpu_pc c = At_top" "cproc c = None"
  shows "cpu_routine k v junk i c s = Some (c, s, Next_slot)"
  using fetch_nothing [OF assms(1,2)] assms(3,4) by (simp add: cpu_routine_def cpu_top_def)

definition demo_scan :: timer_t where
  "demo_scan = \<lparr>dev_list = [fresh_dev\<lparr>ev_fsh := True, at := Detached\<rparr>, fresh_dev\<lparr>ev_done := True, at := Arrived\<rparr>],
     clock = 0, timer_started = True, timer_stop = False, phase = Scan 2 1 2\<rparr>"

lemma reach_demo_scan: "reach (world_init (demo_cfg 0)) (wstep (demo_cfg 0) demo_fs) (demo_ended\<lparr>wtm := demo_scan\<rparr>)"
proof -
  have "dev_of demo_ended 0 = 1" by (simp add: dev_of_def demo_ended_def)
  moreover have "wcpus demo_ended = [cpu_start]" by (simp add: demo_ended_def)
  moreover have "cpu_routine 2 v junk 0 cpu_start (wos demo_ended) = Some (cpu_start, wos demo_ended, Next_slot)" for v junk
    by (rule idle_routine) (simp_all add: demo_ended_def wf_sched_init waiting_init cpu_start_def)
  moreover have "dev_at (wtm demo_ended) 1 Running"
    by (simp add: demo_ended_def detach_event_def dev_at_def booted_eq fresh_dev_def numeral_2_eq_2)
  moreover have "exit_code (wos demo_ended) = None" by (simp add: demo_ended_def)
  moreover have "time_slot (demo_cfg 0) = 2" by (simp add: demo_cfg_def)
  ultimately have "wstep (demo_cfg 0) demo_fs demo_ended (Cpu 0) (demo_ended\<lparr>wos := wos demo_ended,
      wcpus := (wcpus demo_ended)[0 := cpu_start], wtm := notify Next_slot (dev_of demo_ended 0) (wtm demo_ended)\<rparr>)"
    by (intro wstep.cpu) simp_all
  moreover have "demo_ended\<lparr>wos := wos demo_ended, wcpus := (wcpus demo_ended)[0 := cpu_start],
      wtm := notify Next_slot (dev_of demo_ended 0) (wtm demo_ended)\<rparr> = demo_ended\<lparr>wtm := next_slot_announce 1 (wtm demo_ended)\<rparr>"
    using \<open>dev_of demo_ended 0 = 1\<close> \<open>wcpus demo_ended = [cpu_start]\<close> by (intro world.equality) simp_all
  ultimately have "wstep (demo_cfg 0) demo_fs demo_ended (Cpu 0) (demo_ended\<lparr>wtm := next_slot_announce 1 (wtm demo_ended)\<rparr>)"
    by simp
  from reach_step [OF reach_demo_ended this]
  have 1: "reach (world_init (demo_cfg 0)) (wstep (demo_cfg 0) demo_fs) (demo_ended\<lparr>wtm := next_slot_announce 1 (wtm demo_ended)\<rparr>)" .
  have "timer_n 3 (next_slot_announce 1 (wtm demo_ended)) = Some demo_scan"
    by (simp add: demo_ended_def demo_scan_def timer_routine_def next_slot_announce_def detach_event_def booted_eq
        fresh_dev_def numeral_2_eq_2 numeral_3_eq_3 Let_def)
  with reach_clock [OF 1, of 3 demo_scan] show ?thesis by (simp add: demo_ended_def)
qed

theorem clock_between_iterations_witness:
  "cpu_pc (hd (wcpus demo_ended)) \<in> {At_top, At_end} \<and> wcpus demo_ended \<noteq> []"
proof -
  let ?t = "demo_scan\<lparr>clock := 1, phase := Wake 0 1 2\<rparr>"
  have "tstep demo_scan Timer_thread ?t"
    by (rule tstep.timer) (simp add: timer_routine_def demo_scan_def)
  then have "wstep (demo_cfg 0) demo_fs (demo_ended\<lparr>wtm := demo_scan\<rparr>) (Clock Timer_thread) (demo_ended\<lparr>wtm := ?t\<rparr>)"
    using wstep.clock [of "demo_ended\<lparr>wtm := demo_scan\<rparr>" Timer_thread ?t] by (simp add: demo_ended_def)
  from clock_between_iterations [OF reach_demo_scan this]
  have "\<forall>c\<in>set (wcpus demo_ended). cpu_pc c \<in> {At_top, At_end}" by (simp add: demo_scan_def)
  moreover have "wcpus demo_ended \<noteq> []" by (simp add: demo_ended_def)
  ultimately show ?thesis by simp
qed



text \<open>No step disturbs an idle processor when no process is left.\<close>

lemma idle_kept:
  assumes "wstep cfg fs w a w1" "winv w" "ld_pc (wld w) = Ld_end" "owners w = {#}"
    and i: "i < length (wcpus w)" "cproc (wcpus w ! i) = None" "cpu_pc (wcpus w ! i) = At_top"
  shows "winv w1 \<and> ld_pc (wld w1) = Ld_end \<and> owners w1 = {#} \<and> length (wcpus w1) = length (wcpus w) \<and>
    wcpus w1 ! i = wcpus w ! i"
proof -
  have "winv w1" by (rule wstep_inv [OF assms(1,2)])
  moreover have "ld_pc (wld w1) = Ld_end \<and> owners w1 = {#} \<and> length (wcpus w1) = length (wcpus w) \<and>
    wcpus w1 ! i = wcpus w ! i"
    using assms(1)
  proof (cases rule: wstep.cases)
    case (cpu j v junk c s g)
    have wf: "wf_sched (sched (osys (wos w)))" using assms(2) by (simp add: winv_def owner_inv_def)
    have none: "waiting (sched (osys (wos w))) = {#}" "on_cpus (wcpus w) = {#}" "opt (ld_proc (wld w)) = {#}"
      using assms(4) by (simp_all add: owners_def)
    obtain R where R: "on_cpus (wcpus w) = opt (cproc (wcpus w ! j)) + R" "on_cpus ((wcpus w)[j := c]) = opt (cproc c) + R"
      using on_cpus_split [OF cpu(4)] by blast
    have "waiting (sched (osys s)) + opt (cproc c) = {#}"
      using cpu_routine_keeps [OF cpu(6) wf] none R(1) by (simp add: cpu_keeps_def)
    then have own: "owners w1 = {#}" using cpu(2) R none by (simp add: owners_def)
    have "c = wcpus w ! i" if "j = i"
      using idle_routine [OF wf none(1) i(3,2)] cpu(6) that by simp
    then have "(wcpus w)[j := c] ! i = wcpus w ! i" using i(1) by (cases "j = i") simp_all
    with own cpu(2) assms(3) show ?thesis by simp
  next
    case (loader p mem cell rgs l s g)
    with assms(3) show ?thesis by (simp add: ld_routine_def)
  qed (use assms(3,4) in \<open>auto simp: owners_def\<close>)
  ultimately show ?thesis by blast
qed

text \<open>
  C32: an idle processor never stops. Once the loader has ended and no process is left, a
  processor that is idle at the top of its loop stays there for ever, whatever the other
  threads do: the test of \<open>done\<close> is only made by a processor that has just given up a
  process. Its thread never ends, so \<open>main\<close> never returns from joining it.
\<close>
theorem idle_cpu_never_stops:
  assumes "reach (world_init cfg) (wstep cfg fs) w" "ld_pc (wld w) = Ld_end" "owners w = {#}"
    and "i < length (wcpus w)" "cpu_pc (wcpus w ! i) = At_top"
    and "run_of (wstep cfg fs) w as w'"
  shows "wcpus w' ! i = wcpus w ! i \<and> cpu_pc (wcpus w' ! i) \<noteq> At_end \<and> owners w' = {#} \<and>
    \<not> (\<exists>w''. wstep cfg fs w' Stop w'')"
proof -
  have none: "cproc (wcpus w ! i) = None"
    using on_cpus_split [OF assms(4)] assms(3) by (cases "cproc (wcpus w ! i)") (auto simp: owners_def)
  have "winv w" by (rule program.reach_inv [OF assms(1)])
  with assms(6,2-5) none have kept: "owners w' = {#} \<and> length (wcpus w') = length (wcpus w) \<and> wcpus w' ! i = wcpus w ! i"
  proof (induction rule: run_of.induct)
    case (run_Nil w)
    then show ?case by simp
  next
    case (run_Cons w a w1 as w')
    note idle = idle_kept [OF run_Cons.hyps(1) run_Cons.prems(6,1-3,5,4)]
    from run_Cons.IH idle run_Cons.prems show ?case by simp
  qed
  then have "wcpus w ! i \<in> set (wcpus w')" using assms(4) nth_mem [of i "wcpus w'"] by simp
  then have "\<not> wstep cfg fs w' Stop w''" for w'' using assms(5) by (auto elim!: wstep.cases)
  with kept assms(5) show ?thesis by simp
qed

theorem idle_cpu_never_stops_witness:
  "run_of (wstep (demo_cfg 0) demo_fs) demo_ended [] demo_ended \<and> cpu_pc (wcpus demo_ended ! 0) \<noteq> At_end \<and>
     \<not> (\<exists>w''. wstep (demo_cfg 0) demo_fs demo_ended Stop w'')"
proof -
  have "owners demo_ended = {#}"
    using on_cpus_start [of 1] by (simp add: owners_def demo_ended_def waiting_init ld_start_def)
  with idle_cpu_never_stops [OF reach_demo_ended, of 0 "[]" demo_ended] show ?thesis
    by (simp add: demo_ended_def cpu_start_def)
qed

text \<open>A whole iteration of the loop, undisturbed: the steps up to a signal, at most \<open>n\<close> of them.\<close>

primrec cpu_iter :: "nat \<Rightarrow> int \<Rightarrow> byte \<Rightarrow> vm_rg_struct \<Rightarrow> nat \<Rightarrow> cpu_t \<Rightarrow> os_t \<Rightarrow> (cpu_t \<times> os_t \<times> signal) option" where
  "cpu_iter 0 k v junk i c s = Some (c, s, Continue)"
| "cpu_iter (Suc n) k v junk i c s = do {
     (c, s, g) \<leftarrow> cpu_routine k v junk i c s;
     if g = Continue then cpu_iter n k v junk i c s else Some (c, s, g) }"

lemma iter_Continue:
  "cpu_routine k v junk i c s = Some (c1, s1, Continue) \<Longrightarrow> cpu_iter (Suc n) k v junk i c s = cpu_iter n k v junk i c1 s1"
  by simp

definition iteration_end :: "byte \<Rightarrow> vm_rg_struct \<Rightarrow> bool \<Rightarrow> cpu_t \<Rightarrow> os_t \<Rightarrow> signal \<Rightarrow> bool" where
  "iteration_end v junk d c s g \<longleftrightarrow>
     g = Detach \<and> cpu_pc c = At_end \<and> cproc c = None \<and> d \<or>
     g = Next_slot \<and> cpu_pc c = At_top \<and> (cproc c = None \<or>
       (\<exists>p s1 r. cproc c = Some p \<and> run v junk s1 p = Some (r, osys s)))"

lemma iter_run:
  assumes "cpu_iter (Suc n) k v junk i c s = Some (c', s', g)" "cpu_pc c = At_run"
  shows "iteration_end v junk d c' s' g"
  using assms by (auto simp: cpu_routine_def cpu_exec_def iteration_end_def bind_eq_Some_conv split: if_splits)

lemma iter_check:
  assumes "cpu_iter (Suc (Suc n)) k v junk i c s = Some (c', s', g)" "cpu_pc c = At_check"
  shows "iteration_end v junk (ld_done s) c' s' g"
proof (cases "cproc c")
  case None
  with assms show ?thesis
    by (auto simp: cpu_routine_def cpu_check_def iteration_end_def split: if_splits)
next
  case (Some p)
  with assms obtain c1 s1 where 1: "cpu_routine k v junk i c s = Some (c1, s1, Continue)" "cpu_pc c1 = At_run"
    by (auto simp: cpu_routine_def [of _ _ _ _ c] cpu_check_def bind_eq_Some_conv split: if_splits)
  from iter_run [OF _ 1(2)] assms(1) show ?thesis unfolding iter_Continue [OF 1(1)] by blast
qed

lemma fetch_done [simp]: "ld_done (snd (fetch s)) = ld_done s"
  by (simp add: fetch_def Let_def case_prod_beta)

lemma iter_get:
  assumes "cpu_iter (Suc (Suc (Suc n))) k v junk i c s = Some (c', s', g)" "cpu_pc c = At_get"
  shows "iteration_end v junk (ld_done s) c' s' g"
proof -
  obtain q s1 where f: "fetch s = (q, s1)" by (cases "fetch s")
  then have 1: "cpu_routine k v junk i c s = Some (c\<lparr>cproc := q, cpu_pc := At_check\<rparr>, s1, Continue)"
    using assms(2) by (simp add: cpu_routine_def cpu_get_def)
  have "iteration_end v junk (ld_done s1) c' s' g"
    by (rule iter_check) (use assms(1) in \<open>unfold iter_Continue [OF 1]\<close>, assumption, simp)
  with fetch_done [of s] f show ?thesis by simp
qed

lemma iter_put:
  assumes "cpu_iter (Suc (Suc (Suc (Suc n)))) k v junk i c s = Some (c', s', g)" "cpu_pc c = At_put"
  shows "iteration_end v junk (ld_done s) c' s' g"
proof -
  from assms obtain c1 s1 where 1: "cpu_routine k v junk i c s = Some (c1, s1, Continue)" "cpu_pc c1 = At_get"
    "ld_done s1 = ld_done s"
    by (auto simp: cpu_routine_def [of _ _ _ _ c] cpu_put_def bind_eq_Some_conv split: if_splits)
  from iter_get [OF assms(1) [unfolded iter_Continue [OF 1(1)]] 1(2)] 1(3) show ?thesis by simp
qed

lemma top_continues:
  assumes "cpu_top i c s = Some (c1, s1, g)" "cpu_pc c = At_top"
  shows "g = Next_slot \<and> cpu_pc c1 = At_top \<and> cproc c1 = None \<or>
    g = Continue \<and> (cpu_pc c1 = At_put \<or> cpu_pc c1 = At_get \<or> cpu_pc c1 = At_check) \<and> ld_done s1 = ld_done s"
  using assms
  by (auto simp: cpu_top_def bind_eq_Some_conv case_prod_beta Let_def
      split: option.splits if_splits)

text \<open>
  An iteration of a processor's loop always ends, within five steps, and executes at
  most one instruction: it skips the slot without a process, or runs the process it holds
  once and calls \<open>next_slot\<close>, or stops; and it stops only without a process and after
  the loader has ended.
\<close>
lemma cpu_iteration_ends:
  assumes "cpu_pc c = At_top" "cpu_iter 5 k v junk i c s = Some (c', s', g)"
  shows "iteration_end v junk (ld_done s) c' s' g"
proof -
  have n: "5 = Suc (Suc (Suc (Suc (Suc 0))))" by simp
  from assms obtain c1 s1 g1 where top: "cpu_top i c s = Some (c1, s1, g1)"
    by (auto simp: n cpu_routine_def [of _ _ _ _ c] bind_eq_Some_conv split: if_splits)
  then have r: "cpu_routine k v junk i c s = Some (c1, s1, g1)" using assms(1) by (simp add: cpu_routine_def)
  from top_continues [OF top assms(1)] show ?thesis
  proof (elim disjE conjE)
    assume "g1 = Next_slot" "cpu_pc c1 = At_top" "cproc c1 = None"
    with assms(2) r show ?thesis by (simp add: n iteration_end_def)
  next
    assume g: "g1 = Continue" "cpu_pc c1 = At_put" "ld_done s1 = ld_done s"
    from r g(1) assms(2) have "cpu_iter (Suc (Suc (Suc (Suc 0)))) k v junk i c1 s1 = Some (c', s', g)"
      unfolding n using iter_Continue by metis
    from iter_put [OF this g(2)] g(3) show ?thesis by simp
  next
    assume g: "g1 = Continue" "cpu_pc c1 = At_get" "ld_done s1 = ld_done s"
    from r g(1) assms(2) have "cpu_iter (Suc (Suc (Suc (Suc 0)))) k v junk i c1 s1 = Some (c', s', g)"
      unfolding n using iter_Continue by metis
    from iter_get [OF this g(2)] g(3) show ?thesis by simp
  next
    assume g: "g1 = Continue" "cpu_pc c1 = At_check" "ld_done s1 = ld_done s"
    from r g(1) assms(2) have "cpu_iter (Suc (Suc (Suc (Suc 0)))) k v junk i c1 s1 = Some (c', s', g)"
      unfolding n using iter_Continue by metis
    from iter_check [OF this g(2)] g(3) show ?thesis by simp
  qed
qed

lemma cpu_iteration_ends_witness:
  "\<exists>c' s' g. cpu_iter 5 2 0 \<lparr>rg_start = 0, rg_end = 0\<rparr> 0 cpu_start (wos demo_ended) = Some (c', s', g) \<and>
     iteration_end 0 \<lparr>rg_start = 0, rg_end = 0\<rparr> True c' s' g"
proof -
  have "cpu_routine 2 0 \<lparr>rg_start = 0, rg_end = 0\<rparr> 0 cpu_start (wos demo_ended) = Some (cpu_start, wos demo_ended, Next_slot)"
    by (rule idle_routine) (simp_all add: demo_ended_def wf_sched_init waiting_init cpu_start_def)
  then have it: "cpu_iter 5 2 0 \<lparr>rg_start = 0, rg_end = 0\<rparr> 0 cpu_start (wos demo_ended) = Some (cpu_start, wos demo_ended, Next_slot)"
    by (simp add: eval_nat_numeral)
  from cpu_iteration_ends [OF _ it] it show ?thesis by (simp add: cpu_start_def demo_ended_def)
qed

text \<open>
  Loading a process replaces the memory of all. The loader gives the one kernel
  structure a new address space when it prepares a process: whatever was there before, all
  region entries are then empty and no page is listed, while the devices keep their frames
  as they were, so the regions of the processes that are already running are forgotten and
  the frames behind them are never given back.
\<close>
lemma loading_replaces_memory:
  assumes "ld_memory cfg rgs l s = Some (l', s', g)"
  shows "\<exists>m. mm (krnl (osys s')) = Some m \<and> symrgtbl m = replicate 30 zero_rg \<and> fifo_pgn m = [] \<and> pt m = 0 \<and>
    mram (krnl (osys s')) = mram (krnl (osys s)) \<and> active_mswp (krnl (osys s')) = active_mswp (krnl (osys s)) \<and>
    procs (osys s') = procs (osys s) \<and> sched (osys s') = sched (osys s)"
  using ld_memory_keeps [OF assms] by (simp add: init_mm_def zero_rg_def case_prod_beta Let_def)

lemma loading_replaces_memory_witness:
  "\<exists>l' s' g. ld_memory (demo_cfg 1) [] \<lparr>ld_pc = Ld_init, ld_i = 0, ld_proc = Some 0\<rparr>
      ((wos (demo_boot 1))\<lparr>osys := demo_sys\<rparr>) = Some (l', s', g) \<and>
    (\<exists>m. mm (krnl (osys s')) = Some m \<and> symrgtbl m = replicate 30 zero_rg)"
proof -
  obtain l' s' g where *: "ld_memory (demo_cfg 1) [] \<lparr>ld_pc = Ld_init, ld_i = 0, ld_proc = Some 0\<rparr>
      ((wos (demo_boot 1))\<lparr>osys := demo_sys\<rparr>) = Some (l', s', g)"
    by (auto simp: ld_memory_def demo_cfg_def rd_def demo_heap_def case_prod_beta Let_def)
  with loading_replaces_memory [OF *] show ?thesis by blast
qed

text \<open>
  C31: a finished process poisons the search of the system calls. The iteration that finds
  its process finished frees it and leaves it in the running list, so afterwards every
  search that passes it, for a process number none of the processes before it has, reads
  the freed block.
\<close>
theorem finished_process_stays_listed:
  assumes "cpu_pc c = At_top" "cproc c = Some p" "procs (osys s) p = Some b" "pc b = csize (code b)"
    and "wf_queue (running_list (sched (osys s)))" "contents (running_list (sched (osys s))) = xs @ p # ys"
    and "all_alive (procs (osys s)) xs" "p \<notin> set xs" "\<forall>x\<in>set xs. \<not> has_pid (procs (osys s)) pd x"
    and "cpu_routine k v junk i c s = Some (c', s', g)"
  shows "contents (running_list (sched (osys s'))) = xs @ p # ys \<and> procs (osys s') p = None \<and>
    find_caller (osys s') pd = None"
proof -
  from assms(1-4,10) have s': "procs (osys s') = (procs (osys s))(p := None)" "sched (osys s') = sched (osys s)"
    by (auto simp: cpu_routine_def cpu_top_def)
  have al: "all_alive (procs (osys s')) xs" "\<forall>x\<in>set xs. \<not> has_pid (procs (osys s')) pd x"
    using assms(7-9) s'(1) by (auto simp: all_alive_def has_pid_def)
  have l: "length xs < qsize (running_list (sched (osys s)))"
    using length_contents [OF assms(5)] assms(6) by simp
  have "find_loop (procs (osys s')) pd (qsize (running_list (sched (osys s)))) (running_list (sched (osys s))) = None"
    by (rule find_loop_stale [OF assms(5,6) l al]) (simp add: s')
  then show ?thesis using s' assms(6) by (simp add: find_caller_rl)
qed

theorem finished_process_stays_listed_witness:
  "\<exists>s' :: os_t. procs (osys s') 0 = None \<and> contents (running_list (sched (osys s'))) = [0, 1] \<and> find_caller (osys s') 2 = None"
proof -
  let ?s = "(wos (demo_boot 0))\<lparr>osys := demo_sys\<rparr>" and ?c = "cpu_start\<lparr>cproc := Some 0\<rparr>"
  have b: "procs (osys ?s) 0 = Some (demo_pcb 1 138)" by (simp add: demo_heap_def)
  obtain c' s' g where r: "cpu_routine 2 0 \<lparr>rg_start = 0, rg_end = 0\<rparr> 0 ?c ?s = Some (c', s', g)"
    using b by (auto simp: cpu_routine_def cpu_top_def cpu_start_def demo_pcb_def)
  have "pc (demo_pcb 1 138) = csize (code (demo_pcb 1 138))" by (simp add: demo_pcb_def)
  from finished_process_stays_listed [OF _ _ b this, of ?c "[]" "[1]" 2, OF _ _ _ _ _ _ _ r]
  have "contents (running_list (sched (osys s'))) = [0, 1] \<and> procs (osys s') 0 = None \<and> find_caller (osys s') 2 = None"
    by (simp add: all_alive_def cpu_start_def)
  then show ?thesis by blast
qed

end
