(* ===== verification/Pace.thy ===== *)
theory Pace
  imports Simulation
begin

text \<open>
  How fast the programs run: a time slot lets every process execute at most one instruction,
  on whichever of the processors it is and however often it is put back and dispatched again.
\<close>

section \<open>Processes that have used their slot\<close>

text \<open>Device \<open>d\<close> has announced the end of its slot, and the clock has not counted it yet.\<close>

definition done_dev :: "timer_t \<Rightarrow> nat \<Rightarrow> bool" where
  "done_dev t d \<longleftrightarrow> d < length (dev_list t) \<and> ev_done (dev_list t ! d) \<and> \<not> pending t d"

text \<open>A processor that holds \<open>p\<close> has done so.\<close>

definition spent :: "world \<Rightarrow> pref \<Rightarrow> bool" where
  "spent w p \<longleftrightarrow> (\<exists>i < length (wcpus w). cproc (wcpus w ! i) = Some p \<and> done_dev (wtm w) (dev_of w i))"

lemma running_not_done: "tinv t \<Longrightarrow> dev_at t d Running \<Longrightarrow> \<not> done_dev t d"
  by (auto simp: tinv_def dev_ok_def dev_at_def done_dev_def)

lemma pending_notify [simp]: "pending (notify g d t) j = pending t j"
  by (cases g) (simp_all add: next_slot_announce_def detach_event_def pending_def split: tphase.splits)

lemma done_notify_other: "j \<noteq> d \<Longrightarrow> done_dev (notify g d t) j = done_dev t j"
  by (simp add: done_dev_def notify_dev_list)

lemma done_announced: "tinv t \<Longrightarrow> dev_at t d Running \<Longrightarrow> done_dev (notify Next_slot d t) d"
  by (auto simp: tinv_def dev_ok_def dev_at_def done_dev_def next_slot_announce_def)

text \<open>Until the clock advances a device that is done stays so.\<close>

lemma done_clock_step:
  assumes "tstep t a t'" "a = Timer_thread \<or> a = Spurious \<or> (\<exists>d. a = Dev d \<and> dev_at t d Arrived)"
    and "clock t' = clock t" "done_dev t d"
  shows "done_dev t' d"
  using assms(1)
proof (cases rule: tstep.cases)
  case timer
  from timer(2) show ?thesis using assms(3,4)
    by (cases rule: timer_routine_cases)
       (auto simp: done_dev_def pending_def nth_list_update signal_timer_def split: if_splits)
next
  case (announce i)
  with assms(2) show ?thesis by (simp add: dev_at_def)
next
  case (detach i)
  with assms(2) show ?thesis by (simp add: dev_at_def)
next
  case (wait_turn i)
  then show ?thesis using assms(4)
    by (auto simp: next_slot_wait_def dev_at_def nth_list_update Let_def done_dev_def pending_def)
next
  case (wake_dev i)
  then show ?thesis using assms(4)
    by (auto simp: spurious_dev_def dev_at_def nth_list_update signal_timer_def done_dev_def pending_def)
next
  case wake_timer
  then show ?thesis using assms(4)
    by (auto simp: spurious_timer_def done_dev_def pending_def split: tphase.splits)
qed (use assms(2) in auto)

section \<open>What the threads do to the program counters\<close>

lemma cpu_routine_pcs:
  assumes "cpu_routine k v junk i c s = Some (c', s', g)" "procs (osys s') p = Some b'"
  obtains b where "procs (osys s) p = Some b" "pc b' = pc b \<or>
    pc b' = pc b + 1 \<and> cproc c = Some p \<and> cproc c' = Some p \<and> g = Next_slot"
proof -
  have f: "procs (osys (snd (fetch s))) = procs (osys s)" by (simp add: fetch_def case_prod_beta Let_def)
  have r: "\<exists>b. procs (osys s) p = Some b \<and> (pc b' = pc b \<or> pc b' = pc b + 1 \<and> q = p)"
    if run: "run v junk (osys s) q = Some (r, y)" "procs y p = Some b'" for r q y
  proof -
    obtain d where d: "procs (osys s) q = Some d" using run_alive [OF run(1)] by blast
    from run_procs [OF run(1) d] run(2) d show ?thesis by (auto split: if_splits)
  qed
  from assms f have "\<exists>b. procs (osys s) p = Some b \<and> (pc b' = pc b \<or>
    pc b' = pc b + 1 \<and> cproc c = Some p \<and> cproc c' = Some p \<and> g = Next_slot)"
    by (cases "cpu_pc c")
       (auto simp: cpu_step_defs bind_eq_Some_conv case_prod_beta
          split: option.splits if_splits dest: r)
  with that show thesis by blast
qed

lemma ld_routine_pcs:
  assumes "ld_routine cfg fs q mem cell rgs now l s = Some (l', s', g)" "procs (osys s') p = Some b'"
  shows "procs (osys s) p = Some b' \<or> pc b' = 0"
proof (cases "ld_pc l = Ld_top")
  case True
  with assms(1) have "ld_load cfg fs q mem cell l s = Some (l', s', g)" by (simp add: ld_routine_def)
  then show ?thesis
  proof (cases rule: ld_load_cases)
    case (loads b n)
    with load_fresh [OF loads(5)] assms(2) show ?thesis by (auto simp: set_pcb_def split: if_splits)
  qed (use assms(2) in simp_all)
next
  case False
  from ld_other_same(2) [OF assms(1) False] assms(2) show ?thesis by simp
qed

text \<open>A processor that has stopped holds no process.\<close>

definition stopped_idle :: "world \<Rightarrow> bool" where
  "stopped_idle w \<longleftrightarrow> (\<forall>c\<in>set (wcpus w). cpu_pc c = At_end \<longrightarrow> cproc c = None)"

lemma cpu_routine_end: "cpu_routine k v junk i c s = Some (c', s', g) \<Longrightarrow> cpu_pc c' = At_end \<Longrightarrow> cproc c' = None"
  by (cases "cpu_pc c")
     (auto simp: cpu_step_defs bind_eq_Some_conv Let_def case_prod_beta
        split: option.splits if_splits)

interpretation stopped: step_invariant "world_init cfg" "wstep cfg fs" stopped_idle
proof
  show "world_init cfg w \<Longrightarrow> stopped_idle w" for w
    by (auto simp: world_init_def stopped_idle_def boot_def cpu_start_def Let_def)
  show "wstep cfg fs w a w' \<Longrightarrow> stopped_idle w \<Longrightarrow> stopped_idle w'" for w a w'
    by (cases rule: wstep.cases)
       (auto simp: stopped_idle_def dest: cpu_routine_end dest!: subsetD [OF set_update_subset_insert])
qed

section \<open>The pace\<close>

text \<open>\<open>C p\<close> bounds the program counter of \<open>p\<close>, but for the slot that \<open>p\<close> has used.\<close>

definition paced :: "(pref \<Rightarrow> nat) \<Rightarrow> world \<Rightarrow> bool" where
  "paced C w \<longleftrightarrow> (\<forall>p b. procs (osys (wos w)) p = Some b \<longrightarrow> unat (pc b) \<le> C p + (if spent w p then 1 else 0))"

lemma unat_Suc_le: "unat (x + 1 :: u32) \<le> Suc (unat x)"
  by (simp add: unat_word_ariths(1))

lemma pacedD: "paced C w \<Longrightarrow> procs (osys (wos w)) p = Some b \<Longrightarrow> unat (pc b) \<le> C p + (if spent w p then 1 else 0)"
  by (simp add: paced_def)

lemma paced_same:
  assumes "paced C w" "wos w' = wos w" "\<And>p. spent w p \<Longrightarrow> spent w' p"
  shows "paced C w'"
  unfolding paced_def
proof (intro allI impI)
  fix p b assume "procs (osys (wos w')) p = Some b"
  with pacedD [OF assms(1), of p b] assms(2) assms(3) [of p] show "unat (pc b) \<le> C p + (if spent w' p then 1 else 0)"
    by (auto split: if_splits)
qed

lemma wstep_paced:
  assumes "wstep cfg fs w a w'" "winv w" "stopped_idle w" "paced C w"
  shows "paced (if clock (wtm w') = clock (wtm w) then C else (\<lambda>p. Suc (C p))) w'"
  using assms(1)
proof (cases rule: wstep.cases)
  case (cpu i v junk c s g)
  let ?d = "dev_of w i"
  have t: "tinv (wtm w)" using assms(2) by (simp add: winv_def)
  have clk: "clock (wtm w') = clock (wtm w)" by (cases g) (simp_all add: cpu(2) next_slot_announce_def detach_event_def)
  have idle: "\<not> done_dev (wtm w) ?d" by (rule running_not_done [OF t cpu(5)])
  have other: "dev_of w j \<noteq> ?d" if "j < length (wcpus w)" "j \<noteq> i" for j using that cpu(4) by (auto simp: dev_of_def)
  have mine: "spent w' p" if "cproc c = Some p" "g = Next_slot" for p
    using that cpu(2,4) done_announced [OF t cpu(5)] by (auto simp: spent_def dev_of_def intro!: exI [of _ i])
  have keep: "spent w' p" if "spent w p" for p
  proof -
    from that idle obtain j where j: "j < length (wcpus w)" "j \<noteq> i" "cproc (wcpus w ! j) = Some p" "done_dev (wtm w) (dev_of w j)"
      by (auto simp: spent_def)
    with cpu(2) other [OF j(1,2)] show ?thesis
      by (auto simp: spent_def dev_of_def done_notify_other intro!: exI [of _ j])
  qed
  have "unat (pc b') \<le> C p + (if spent w' p then 1 else 0)" if p: "procs (osys s) p = Some b'" for p b'
  proof (rule cpu_routine_pcs [OF cpu(6) p])
    fix b assume b: "procs (osys (wos w)) p = Some b" "pc b' = pc b \<or> pc b' = pc b + 1 \<and>
      cproc (wcpus w ! i) = Some p \<and> cproc c = Some p \<and> g = Next_slot"
    note old = pacedD [OF assms(4) b(1)]
    from b(2) show ?thesis
    proof (elim disjE conjE)
      assume "pc b' = pc b"
      with old keep [of p] show ?thesis by (auto split: if_splits)
    next
      assume run: "pc b' = pc b + 1" "cproc (wcpus w ! i) = Some p" "cproc c = Some p" "g = Next_slot"
      from winv_one_owner [OF assms(2) cpu(4) run(2)] idle have "\<not> spent w p" by (auto simp: spent_def)
      with old run(1) mine [OF run(3,4)] unat_Suc_le [of "pc b"] show ?thesis by simp
    qed
  qed
  then show ?thesis using clk cpu(2) by (simp add: paced_def)
next
  case (loader p mem cell rgs l s g)
  have t: "tinv (wtm w)" using assms(2) by (simp add: winv_def)
  have clk: "clock (wtm w') = clock (wtm w)" by (cases g) (simp_all add: loader(2) next_slot_announce_def detach_event_def)
  have keep: "spent w' q = spent w q" for q
    using loader(2) by (auto simp: spent_def dev_of_def done_notify_other)
  have "unat (pc b') \<le> C q + (if spent w q then 1 else 0)" if "procs (osys s) q = Some b'" for q b'
    using ld_routine_pcs [OF loader(6) that] pacedD [OF assms(4), of q b'] by auto
  then show ?thesis using clk loader(2) keep by (simp add: paced_def)
next
  case (clock a t)
  show ?thesis
  proof (cases "timer_t.clock t = timer_t.clock (wtm w)")
    case True
    then have "spent w p \<Longrightarrow> spent w' p" for p
      using clock(2) done_clock_step [OF clock(4,5)] by (auto simp: spent_def dev_of_def)
    with paced_same [OF assms(4), of w'] True clock(2) show ?thesis by simp
  next
    case False
    with assms(4) clock(2) show ?thesis by (fastforce simp: paced_def split: if_splits)
  qed
next
  case (stop t)
  have "cproc (wcpus w ! i) = None" if "i < length (wcpus w)" for i
    using assms(3) stop(4) nth_mem [OF that] by (simp add: stopped_idle_def)
  then have "\<not> spent w p" for p by (auto simp: spent_def)
  moreover have "clock (wtm w') = clock (wtm w)" using stop(2,6) by (auto simp: main_simps stop_request_def stop_release_def)
  ultimately show ?thesis using paced_same [OF assms(4), of w'] stop(2) by simp
qed

text \<open>A run that is followed for \<open>n\<close> ticks of the clock.\<close>

inductive slots_run :: "config \<Rightarrow> (string \<Rightarrow> string option) \<Rightarrow> world \<Rightarrow> nat \<Rightarrow> world \<Rightarrow> bool"
  for cfg :: config and fs :: "string \<Rightarrow> string option" and w0 :: world where
  slots_start: "slots_run cfg fs w0 0 w0"
| slots_step: "slots_run cfg fs w0 n w \<Longrightarrow> wstep cfg fs w a w' \<Longrightarrow>
     slots_run cfg fs w0 (if clock (wtm w') = clock (wtm w) then n else Suc n) w'"

text \<open>Where process \<open>p\<close> is in its program; a process that is yet to be loaded is at the start.\<close>

definition position :: "world \<Rightarrow> pref \<Rightarrow> nat" where
  "position w p = (case procs (osys (wos w)) p of None \<Rightarrow> 0 | Some b \<Rightarrow> unat (pc b))"

lemma slots_from_boot: "reach (world_init cfg) (wstep cfg fs) w \<Longrightarrow> \<exists>w0 n. world_init cfg w0 \<and> slots_run cfg fs w0 n w"
  by (induction rule: reach.induct) (blast intro: slots_run.intros)+

lemma position_boot: "world_init cfg w \<Longrightarrow> position w p = 0"
  by (auto simp: world_init_def boot_def position_def Let_def)

text \<open>
  C16: no process runs faster than the clock. Over any part of a run of the program in which the clock
  ticks n times, a process executes at most n + 1 instructions, whatever the number of processors and
  however often the process is put back and dispatched elsewhere in between; within one slot it
  executes at most one. A process that is loaded on the way counts from the start of its program.
\<close>
theorem one_instruction_per_slot:
  assumes "reach (world_init cfg) (wstep cfg fs) w" "slots_run cfg fs w n w'"
  shows "position w' p \<le> position w p + n + 1"
proof -
  have "paced (position w) w" by (simp add: paced_def position_def)
  have "winv w' \<and> stopped_idle w' \<and> paced (\<lambda>p. position w p + n) w'"
    using assms(2)
  proof (induction rule: slots_run.induct)
    case slots_start
    show ?case using program.reach_inv [OF assms(1)] stopped.reach_inv [OF assms(1)]
      by (simp add: paced_def position_def)
  next
    case (slots_step n w1 a w2)
    then have "winv w2" "stopped_idle w2" using wstep_inv stopped.inv_step by blast+
    moreover have "paced (\<lambda>p. position w p + (if clock (wtm w2) = clock (wtm w1) then n else Suc n)) w2"
      using wstep_paced [OF slots_step(2), of "\<lambda>p. position w p + n"] slots_step(3) by (auto split: if_splits)
    ultimately show ?case by simp
  qed
  then show ?thesis
    by (cases "procs (osys (wos w')) p") (auto simp: position_def dest: pacedD split: if_splits)
qed

theorem one_instruction_per_slot_witness:
  "\<exists>w0 n w p. slots_run (demo_cfg 1) demo_fs w0 n w \<and> cproc (wcpus w ! 0) = Some p \<and>
     position w0 p = 0 \<and> position w p \<le> n + 1"
proof -
  obtain w p where w: "reach (world_init (demo_cfg 1)) (wstep (demo_cfg 1) demo_fs) w" "cproc (wcpus w ! 0) = Some p"
    using demo_dispatch_reachable by blast
  from slots_from_boot [OF w(1)] obtain w0 n where b: "world_init (demo_cfg 1) w0" "slots_run (demo_cfg 1) demo_fs w0 n w"
    by blast
  from one_instruction_per_slot [OF reach_init [of "world_init (demo_cfg 1)", OF b(1)] b(2), of p] position_boot [OF b(1), of p] b(2) w(2) show ?thesis
    by auto
qed

end
