(* ===== verification/Liveness.thy ===== *)
theory Liveness
  imports Pace
begin

text \<open>
  A time slot ends: between two ticks of the clock the threads take a bounded number of steps,
  however they are scheduled.
\<close>

section \<open>A measure of what is left of a slot\<close>

text \<open>The steps a thread has before it ends its iteration.\<close>

definition cpu_rank :: "cpc \<Rightarrow> nat" where
  "cpu_rank x = (case x of At_top \<Rightarrow> 5 | At_put \<Rightarrow> 4 | At_get \<Rightarrow> 3 | At_check \<Rightarrow> 2 | At_run \<Rightarrow> 1 | At_end \<Rightarrow> 0)"

definition ld_rank :: "lpc \<Rightarrow> nat" where
  "ld_rank x = (case x of Ld_top \<Rightarrow> 5 | Ld_wait \<Rightarrow> 4 | Ld_init \<Rightarrow> 3 | Ld_add \<Rightarrow> 2 | Ld_queue \<Rightarrow> 1 | Ld_end \<Rightarrow> 0)"

lemma cpu_routine_rank:
  "cpu_routine k v junk i c s = Some (c', s', g) \<Longrightarrow> exit_code s' = exit_code s \<and> (g = Continue \<longrightarrow> cpu_rank (cpu_pc c') < cpu_rank (cpu_pc c))"
  by (cases "cpu_pc c")
     (auto simp: cpu_step_defs cpu_rank_def fetch_def bind_eq_Some_conv Let_def case_prod_beta
        split: option.splits if_splits)


lemma ld_routine_rank:
  assumes "ld_routine cfg fs p mem cell rgs now l s = Some (l', s', g)"
  shows "g = Continue \<longrightarrow> ld_rank (ld_pc l') < ld_rank (ld_pc l) \<and> exit_code s' = exit_code s \<or> l' = l \<and> exit_code s' \<noteq> None"
    and "g \<noteq> Continue \<longrightarrow> exit_code s' = exit_code s"
proof -
  have "(g = Continue \<longrightarrow> ld_rank (ld_pc l') < ld_rank (ld_pc l) \<and> exit_code s' = exit_code s \<or> l' = l \<and> exit_code s' \<noteq> None) \<and>
    (g \<noteq> Continue \<longrightarrow> exit_code s' = exit_code s)"
  proof (cases "ld_pc l")
    case Ld_top
    with assms have "ld_load cfg fs p mem cell l s = Some (l', s', g)" by (simp add: ld_routine_def)
    then show ?thesis by (cases rule: ld_load_cases) (simp_all add: Ld_top ld_rank_def)
  qed (use assms in \<open>auto simp: ld_step_defs ld_rank_def bind_eq_Some_conv case_prod_beta Let_def split: if_splits\<close>)
  then show "g = Continue \<longrightarrow> ld_rank (ld_pc l') < ld_rank (ld_pc l) \<and> exit_code s' = exit_code s \<or> l' = l \<and> exit_code s' \<noteq> None"
    and "g \<noteq> Continue \<longrightarrow> exit_code s' = exit_code s" by blast+
qed

text \<open>
  What device \<open>d\<close> costs until the clock advances: \<open>r\<close> is the rank of its thread, and \<open>p\<close> says that the
  timer is about to release it into the slot that has begun.
\<close>

definition dev_cost :: "nat \<Rightarrow> bool \<Rightarrow> timer_id_t \<Rightarrow> nat" where
  "dev_cost r p d = (case at d of
     Detached \<Rightarrow> 0
   | Running \<Rightarrow> 2 + r
   | Arrived \<Rightarrow> if ev_done d then (if p then 9 else 1) else 8
   | Blocked \<Rightarrow> if p then 8 else 0)"

definition phase_cost :: "nat \<Rightarrow> tphase \<Rightarrow> nat" where
  "phase_cost n x = (case x of
     Scan i f e \<Rightarrow> 2 * (n - i) + 1
   | Sleep i f e \<Rightarrow> 2 * (n - i)
   | Wake i f e \<Rightarrow> 2 * n + 3 + (n - i)
   | Top \<Rightarrow> 2 * n + 2
   | Idle \<Rightarrow> 0
   | Exited \<Rightarrow> 0)"

definition thread_rank :: "world \<Rightarrow> nat \<Rightarrow> nat" where
  "thread_rank w d = (if d = 0 then ld_rank (ld_pc (wld w)) else cpu_rank (cpu_pc (wcpus w ! (length (wcpus w) - d))))"

definition devs_cost :: "(nat \<Rightarrow> nat) \<Rightarrow> timer_t \<Rightarrow> nat" where
  "devs_cost r t = (\<Sum>d<length (dev_list t). dev_cost (r d) (pending t d) (dev_list t ! d))"

definition slot_cost :: "world \<Rightarrow> nat" where
  "slot_cost w = devs_cost (thread_rank w) (wtm w) + phase_cost (length (dev_list (wtm w))) (phase (wtm w)) +
     (if exit_code (wos w) = None then 1 else 0)"

lemma rank_bounds: "cpu_rank x \<le> 5" "ld_rank y \<le> 5" "thread_rank w d \<le> 5"
proof -
  show c: "cpu_rank x \<le> 5" for x by (simp add: cpu_rank_def split: cpc.splits)
  show l: "ld_rank y \<le> 5" for y by (simp add: ld_rank_def split: lpc.splits)
  show "thread_rank w d \<le> 5" using c l by (simp add: thread_rank_def)
qed

lemma dev_cost_bound: "r \<le> 5 \<Longrightarrow> dev_cost r p d \<le> 9"
  by (auto simp: dev_cost_def split: where_t.splits)

lemma slot_cost_bound: "slot_cost w \<le> 12 * length (dev_list (wtm w)) + 4"
proof -
  have "devs_cost (thread_rank w) (wtm w) \<le> 9 * length (dev_list (wtm w))"
    unfolding devs_cost_def
    by (rule order_trans [OF sum_bounded_above [where K = 9]]) (simp_all add: dev_cost_bound rank_bounds)
  moreover have "phase_cost n x \<le> 3 * n + 3" for n x by (cases x; simp add: phase_cost_def; arith)
  note this [of "length (dev_list (wtm w))" "phase (wtm w)"]
  ultimately show ?thesis by (simp add: slot_cost_def)
qed

lemma signal_cost: "phase_cost n (signal_event i x) \<le> Suc (phase_cost n x)"
  by (cases x) (auto simp: phase_cost_def)

text \<open>A change of one device.\<close>

lemma devs_cost_update:
  assumes "i < length (dev_list t)" "length (dev_list t') = length (dev_list t)"
    and "\<And>d. d < length (dev_list t) \<Longrightarrow> d \<noteq> i \<Longrightarrow>
      dev_cost (r' d) (pending t' d) (dev_list t' ! d) = dev_cost (r d) (pending t d) (dev_list t ! d)"
  shows "devs_cost r' t' + dev_cost (r i) (pending t i) (dev_list t ! i) =
    devs_cost r t + dev_cost (r' i) (pending t' i) (dev_list t' ! i)"
proof -
  let ?n = "length (dev_list t)" and ?f = "\<lambda>d. dev_cost (r d) (pending t d) (dev_list t ! d)"
    and ?g = "\<lambda>d. dev_cost (r' d) (pending t' d) (dev_list t' ! d)"
  have "sum ?f {..<?n} = ?f i + sum ?f ({..<?n} - {i})" "sum ?g {..<?n} = ?g i + sum ?g ({..<?n} - {i})"
    using assms(1) by (simp_all add: sum.remove)
  moreover have "sum ?g ({..<?n} - {i}) = sum ?f ({..<?n} - {i})" by (rule sum.cong) (use assms(3) in auto)
  ultimately show ?thesis by (simp add: devs_cost_def assms(2))
qed


text \<open>A thread goes on with its iteration, or ends it.\<close>

lemma running_dev_cost: "dev_at t d Running \<Longrightarrow> dev_cost k p (dev_list t ! d) = 2 + k"
  by (simp add: dev_cost_def dev_at_def)

lemma thread_continues:
  assumes "dev_at t d Running" "\<And>j. j < length (dev_list t) \<Longrightarrow> j \<noteq> d \<Longrightarrow> r' j = r j"
  shows "devs_cost r' t + r d = devs_cost r t + r' d"
  using devs_cost_update [of d t t r' r] assms by (simp add: running_dev_cost dev_at_def)

lemma thread_ends:
  assumes "tinv t" "dev_at t d Running" "\<And>j. j < length (dev_list t) \<Longrightarrow> j \<noteq> d \<Longrightarrow> r' j = r j" "g \<noteq> Continue" "0 < r d"
  shows "devs_cost r' (notify g d t) + phase_cost n (phase (notify g d t)) < devs_cost r t + phase_cost n (phase t)"
proof -
  let ?t = "notify g d t"
  have d: "d < length (dev_list t)" using assms(2) by (simp add: dev_at_def)
  have "\<not> pending t d" using assms(1,2) by (auto simp: tinv_def dev_ok_def dev_at_def)
  then have "dev_cost (r' d) (pending ?t d) (dev_list ?t ! d) \<le> 1"
    using assms(4) d by (cases g) (simp_all add: notify_dev_list dev_cost_def del: notify.simps)
  moreover have "devs_cost r' ?t + (2 + r d) = devs_cost r t + dev_cost (r' d) (pending ?t d) (dev_list ?t ! d)"
    using devs_cost_update [of d t ?t r' r] d assms(3) by (simp add: running_dev_cost [OF assms(2)] notify_dev_list)
  moreover have "phase_cost n (phase ?t) \<le> Suc (phase_cost n (phase t))"
    using assms(4) signal_cost [of n d "phase t"] by (cases g) (simp_all add: next_slot_announce_def detach_event_def)
  ultimately show ?thesis using assms(5) by linarith
qed

lemma thread_rank_cpu:
  assumes "i < length (wcpus w)" "j \<le> length (wcpus w)" "j \<noteq> dev_of w i"
  shows "thread_rank (w\<lparr>wos := s, wcpus := (wcpus w)[i := c], wtm := t\<rparr>) j = thread_rank w j"
  using assms by (auto simp: thread_rank_def dev_of_def nth_list_update)

lemma cpu_step_cost:
  assumes "winv w" "barrier_inv w" "i < length (wcpus w)" "dev_at (wtm w) (dev_of w i) Running"
    and "cpu_routine k v junk i (wcpus w ! i) (wos w) = Some (c, s, g)"
  shows "slot_cost (w\<lparr>wos := s, wcpus := (wcpus w)[i := c], wtm := notify g (dev_of w i) (wtm w)\<rparr>) < slot_cost w"
    (is "slot_cost ?w < _")
proof -
  let ?d = "dev_of w i"
  have len: "length (dev_list (wtm w)) = Suc (length (wcpus w))"
    using assms(2,4) by (auto simp: barrier_inv_def dev_at_def)
  have other: "thread_rank ?w j = thread_rank w j" if "j < length (dev_list (wtm w))" "j \<noteq> ?d" for j
    using that len thread_rank_cpu [OF assms(3)] by simp
  have mine: "thread_rank w ?d = cpu_rank (cpu_pc (wcpus w ! i))" "thread_rank ?w ?d = cpu_rank (cpu_pc c)"
    using assms(3) by (simp_all add: thread_rank_def dev_of_def)
  note r = cpu_routine_rank [OF assms(5)]
  show ?thesis
  proof (cases "g = Continue")
    case True
    with thread_continues [OF assms(4), of "thread_rank ?w" "thread_rank w"] other mine r show ?thesis
      by (simp add: slot_cost_def)
  next
    case False
    have "0 < thread_rank w ?d"
      using assms(5) by (cases "cpu_pc (wcpus w ! i)") (simp_all add: mine cpu_rank_def cpu_routine_def)
    with thread_ends [OF _ assms(4) other False] assms(1) r show ?thesis
      by (simp add: slot_cost_def winv_def notify_dev_list)
  qed
qed

lemma ld_step_cost:
  assumes "winv w" "barrier_inv w" "exit_code (wos w) = None" "dev_at (wtm w) 0 Running"
    and "ld_routine cfg fs p mem cell rgs now (wld w) (wos w) = Some (l, s, g)"
  shows "slot_cost (w\<lparr>wos := s, wld := l, wtm := notify g 0 (wtm w)\<rparr>) < slot_cost w"
    (is "slot_cost ?w < _")
proof -
  have other: "thread_rank ?w j = thread_rank w j" if "j < length (dev_list (wtm w))" "j \<noteq> 0" for j
    using that by (simp add: thread_rank_def)
  have mine: "thread_rank w 0 = ld_rank (ld_pc (wld w))" "thread_rank ?w 0 = ld_rank (ld_pc l)"
    by (simp_all add: thread_rank_def)
  note r = ld_routine_rank [OF assms(5)]
  show ?thesis
  proof (cases "g = Continue")
    case True
    with thread_continues [OF assms(4), of "thread_rank ?w" "thread_rank w"] other mine r(1) assms(3) show ?thesis
      by (auto simp: slot_cost_def)
  next
    case False
    have "0 < thread_rank w 0"
      using assms(5) by (cases "ld_pc (wld w)") (simp_all add: mine ld_rank_def ld_routine_def)
    with thread_ends [OF _ assms(4) other False] assms(1) r(2) False show ?thesis
      by (simp add: slot_cost_def winv_def notify_dev_list)
  qed
qed


text \<open>The timer thread and the waiting loops.\<close>

lemma devs_cost_same:
  "dev_list t' = dev_list t \<Longrightarrow> (\<And>d. d < length (dev_list t) \<Longrightarrow> pending t' d = pending t d) \<Longrightarrow> devs_cost r t' = devs_cost r t"
  by (simp add: devs_cost_def)

abbreviation timer_cost :: "(nat \<Rightarrow> nat) \<Rightarrow> timer_t \<Rightarrow> nat" where
  "timer_cost r t \<equiv> devs_cost r t + phase_cost (length (dev_list t)) (phase t)"

lemma timer_routine_cost:
  assumes "timer_routine t = Some t'" "tinv t" "clock t' = clock t"
  shows "timer_cost r t' < timer_cost r t"
  using assms(1)
proof (cases rule: timer_routine_cases)
  case (wakeup i f e)
  let ?d = "dev_list t ! i" and ?n = "length (dev_list t)"
  have "dev_ok t i ?d" "pending t i" using assms(2) wakeup(1,2) by (simp_all add: tinv_def)
  then have "dev_cost (r i) (pending t' i) (dev_list t' ! i) \<le> dev_cost (r i) (pending t i) ?d"
    using wakeup by (cases "at ?d") (auto simp: dev_cost_def dev_ok_def signal_timer_def)
  moreover have "devs_cost r t' + dev_cost (r i) (pending t i) ?d = devs_cost r t + dev_cost (r i) (pending t' i) (dev_list t' ! i)"
  proof (rule devs_cost_update)
    fix d assume "d < ?n" "d \<noteq> i"
    then have "pending t' d = pending t d" using wakeup by auto
    then show "dev_cost (r d) (pending t' d) (dev_list t' ! d) = dev_cost (r d) (pending t d) (dev_list t ! d)"
      using \<open>d \<noteq> i\<close> wakeup(3) by simp
  qed (use wakeup in simp_all)
  moreover have "phase_cost ?n (phase t') < phase_cost ?n (phase t)" using wakeup by (simp add: phase_cost_def)
  moreover have "length (dev_list t') = ?n" using wakeup(3) by simp
  ultimately show ?thesis by simp
next
  case (leave i f e)
  then have "devs_cost r t' = devs_cost r t" by (intro devs_cost_same) (auto simp: pending_def)
  with leave show ?thesis by (simp add: phase_cost_def)
next
  case (visit i f e)
  then have "devs_cost r t' = devs_cost r t" by (intro devs_cost_same) (auto simp: pending_def)
  with visit show ?thesis by (auto simp: phase_cost_def)
next
  case (sleep i f e)
  then have "devs_cost r t' = devs_cost r t" by (intro devs_cost_same) (auto simp: pending_def)
  with sleep show ?thesis by (simp add: phase_cost_def)
next
  case start
  then have "devs_cost r t' = devs_cost r t" by (intro devs_cost_same) (auto simp: pending_def)
  with start show ?thesis by (simp add: phase_cost_def)
next
  case stop
  then have "devs_cost r t' = devs_cost r t" by (intro devs_cost_same) (auto simp: pending_def)
  with stop show ?thesis by (simp add: phase_cost_def)
qed (use assms(3) in simp)

lemma wait_cost:
  assumes "dev_at t d Arrived" "r d \<le> 5"
  shows "timer_cost r (next_slot_wait d t) < timer_cost r t"
proof -
  let ?t = "next_slot_wait d t"
  have d: "d < length (dev_list t)" "at (dev_list t ! d) = Arrived" using assms(1) by (simp_all add: dev_at_def)
  have p: "pending ?t j = pending t j" for j by (simp add: next_slot_wait_def pending_def Let_def)
  have "devs_cost r ?t + dev_cost (r d) (pending t d) (dev_list t ! d) = devs_cost r t + dev_cost (r d) (pending ?t d) (dev_list ?t ! d)"
    by (rule devs_cost_update) (use d p in \<open>simp_all add: next_slot_wait_def Let_def\<close>)
  moreover have "dev_cost (r d) (pending ?t d) (dev_list ?t ! d) < dev_cost (r d) (pending t d) (dev_list t ! d)"
    using d assms(2) p [of d] by (auto simp: dev_cost_def next_slot_wait_def Let_def)
  ultimately show ?thesis by (simp add: next_slot_wait_def Let_def)
qed

lemma spurious_cost:
  assumes "tstep t Spurious t'" "tinv t"
  shows "timer_cost r t' \<le> Suc (timer_cost r t)"
  using assms(1)
proof (cases rule: tstep.cases)
  case (wake_dev d)
  then have d: "d < length (dev_list t)" "at (dev_list t ! d) = Blocked" by (simp_all add: dev_at_def)
  have p: "pending t' j = pending t j" for j using wake_dev by (simp add: spurious_dev_def pending_def)
  have "ev_done (dev_list t ! d)" using assms(2) d by (simp add: tinv_def dev_ok_def)
  then have "dev_cost (r d) (pending t' d) (dev_list t' ! d) \<le> Suc (dev_cost (r d) (pending t d) (dev_list t ! d))"
    using wake_dev d p [of d] by (auto simp: dev_cost_def spurious_dev_def signal_timer_def)
  moreover have "devs_cost r t' + dev_cost (r d) (pending t d) (dev_list t ! d) = devs_cost r t + dev_cost (r d) (pending t' d) (dev_list t' ! d)"
    by (rule devs_cost_update) (use d p wake_dev in \<open>simp_all add: spurious_dev_def\<close>)
  ultimately show ?thesis using wake_dev by (simp add: spurious_dev_def)
next
  case wake_timer
  then have "devs_cost r t' = devs_cost r t" by (intro devs_cost_same) (auto simp: spurious_timer_def pending_def split: tphase.splits)
  with wake_timer show ?thesis by (cases "phase t") (simp_all add: spurious_timer_def phase_cost_def)
qed

lemma main_cost: "tstep t Main t' \<Longrightarrow> timer_cost r t' \<le> timer_cost r t"
proof -
  assume "tstep t Main t'"
  then consider "t' = stop_request t" | "t' = stop_release t" by (auto simp: main_simps)
  then show ?thesis
  proof cases
    case 1
    then have "devs_cost r t' = devs_cost r t" by (intro devs_cost_same) (simp_all add: stop_request_def pending_def)
    with 1 show ?thesis by (simp add: stop_request_def)
  next
    case 2
    have "phase_cost 0 (phase t) \<le> phase_cost (length (dev_list t)) (phase t)"
      by (cases "phase t") (simp_all add: phase_cost_def)
    with 2 show ?thesis by (simp add: stop_release_def devs_cost_def trans_le_add2)
  qed
qed

section \<open>A slot ends\<close>

text \<open>The steps that threads take, and not the machine by a spurious wake-up or \<open>main\<close> at the end.\<close>

definition thread_step :: "wact \<Rightarrow> bool" where
  "thread_step a \<longleftrightarrow> a \<noteq> Clock Spurious \<and> a \<noteq> Stop"

lemma thread_rank_clock [simp]: "thread_rank (w\<lparr>wtm := t\<rparr>) = thread_rank w"
  by (rule ext) (simp add: thread_rank_def)

lemma wstep_cost:
  assumes "wstep cfg fs w a w'" "clock (wtm w') = clock (wtm w)" "winv w" "barrier_inv w"
  shows "if thread_step a then slot_cost w' < slot_cost w else slot_cost w' \<le> Suc (slot_cost w)"
  using assms(1)
proof (cases rule: wstep.cases)
  case (cpu i v junk c s g)
  with cpu_step_cost [OF assms(3,4) cpu(4-6)] show ?thesis by (simp add: thread_step_def)
next
  case (loader p mem cell rgs l s g)
  with ld_step_cost [OF assms(3,4) loader(3,4,6)] show ?thesis by (simp add: thread_step_def)
next
  case (clock b t)
  have t: "tinv (wtm w)" "timer_t.clock t = timer_t.clock (wtm w)" using assms(2,3) clock(2) by (simp_all add: winv_def)
  from clock(5) show ?thesis
  proof (elim disjE exE conjE)
    assume "b = Timer_thread"
    with clock(4) have "timer_routine (wtm w) = Some t" by (auto elim: timer_thread_cases)
    from timer_routine_cost [OF this t(1) t(2), of "thread_rank w"] clock(1,2) \<open>b = _\<close> show ?thesis
      by (simp add: slot_cost_def thread_step_def)
  next
    assume "b = Spurious"
    with spurious_cost [OF _ t(1), of t "thread_rank w"] clock show ?thesis by (simp add: slot_cost_def thread_step_def)
  next
    fix d assume d: "b = Dev d" "dev_at (wtm w) d Arrived"
    with clock(4) have "t = next_slot_wait d (wtm w)" by (auto elim!: dev_cases simp: dev_at_def)
    with wait_cost [OF d(2), of "thread_rank w"] rank_bounds(3) clock(1,2) d(1) show ?thesis
      by (simp add: slot_cost_def thread_step_def)
  qed
next
  case (stop t)
  from main_cost [OF stop(6), of "thread_rank w"] stop(1,2) show ?thesis by (simp add: slot_cost_def thread_step_def)
qed

definition within_slot :: "config \<Rightarrow> (string \<Rightarrow> string option) \<Rightarrow> world \<Rightarrow> wact \<Rightarrow> world \<Rightarrow> bool" where
  "within_slot cfg fs w a w' \<longleftrightarrow> wstep cfg fs w a w' \<and> clock (wtm w') = clock (wtm w)"

lemma run_cost:
  "run_of (within_slot cfg fs) w as w' \<Longrightarrow> winv w \<Longrightarrow> barrier_inv w \<Longrightarrow>
     length (filter thread_step as) + slot_cost w' \<le> slot_cost w + length (filter (\<lambda>a. \<not> thread_step a) as)"
proof (induction rule: run_of.induct)
  case (run_Cons w a w1 as w')
  then have s: "wstep cfg fs w a w1" "clock (wtm w1) = clock (wtm w)" by (simp_all add: within_slot_def)
  from run_Cons wstep_inv [OF s(1)] wstep_barrier [OF s(1)] wstep_cost [OF s] show ?case
    by (auto split: if_splits)
qed simp

text \<open>
  C14: a time slot ends, whatever the scheduling. In every reachable state of the program, a run of its
  threads in which the clock does not advance has at most 12 n + 16 steps for n processors, and one more for
  each spurious wake-up: no thread can keep the others from the end of the slot by running, there is no
  livelock in the waiting loops of next_slot and of the timer, and with a fair or an unfair
  scheduler the clock advances unless the threads cannot move.
\<close>
theorem slot_ends:
  assumes "reach (world_init cfg) (wstep cfg fs) w" "run_of (within_slot cfg fs) w as w'"
  shows "length (filter thread_step as) \<le> 12 * length (wcpus w) + 16 + length (filter (\<lambda>a. \<not> thread_step a) as)"
proof -
  have inv: "winv w" "barrier_inv w" by (rule program.reach_inv [OF assms(1)], rule slots.reach_inv [OF assms(1)])
  have "length (dev_list (wtm w)) \<le> Suc (length (wcpus w))" using inv(2) by (auto simp: barrier_inv_def)
  with run_cost [OF assms(2) inv] slot_cost_bound [of w] show ?thesis by linarith
qed


text \<open>The first step of the timer.\<close>

theorem slot_ends_witness:
  "\<exists>w'. run_of (within_slot (demo_cfg 1) demo_fs) (demo_boot 1) [Clock Timer_thread] w' \<and>
     length (filter thread_step [Clock Timer_thread]) \<le> 12 * length (wcpus (demo_boot 1)) + 16"
proof -
  let ?w = "(demo_boot 1)\<lparr>wtm := (booted 2)\<lparr>phase := Scan 0 0 0\<rparr>\<rparr>"
  have t: "timer_routine (wtm (demo_boot 1)) = Some ((booted 2)\<lparr>phase := Scan 0 0 0\<rparr>)"
    by (simp add: timer_routine_def booted_eq)
  then have "wstep (demo_cfg 1) demo_fs (demo_boot 1) (Clock Timer_thread) ?w"
    by (intro wstep.clock tstep.timer) simp_all
  then have r: "run_of (within_slot (demo_cfg 1) demo_fs) (demo_boot 1) [Clock Timer_thread] ?w"
    by (simp add: within_slot_def)
  from slot_ends [OF reach_demo_boot r] r show ?thesis by (intro exI [of _ ?w]) (simp add: thread_step_def)
qed

section \<open>Threads that have ended\<close>

definition all_ended :: "world \<Rightarrow> bool" where
  "all_ended w \<longleftrightarrow> (\<forall>c\<in>set (wcpus w). cpu_pc c = At_end) \<and> ld_pc (wld w) = Ld_end"

text \<open>Exactly the threads that have ended are detached, and \<open>main\<close> waits for them.\<close>

definition ended_inv :: "world \<Rightarrow> bool" where
  "ended_inv w \<longleftrightarrow>
     (dev_list (wtm w) \<noteq> [] \<longrightarrow>
       (\<forall>i < length (wcpus w). at (dev_list (wtm w) ! dev_of w i) = Detached \<longleftrightarrow> cpu_pc (wcpus w ! i) = At_end) \<and>
       (at (dev_list (wtm w) ! 0) = Detached \<longleftrightarrow> ld_pc (wld w) = Ld_end)) \<and>
     (timer_stop (wtm w) \<or> dev_list (wtm w) = [] \<longrightarrow> all_ended w)"

lemma cpu_routine_detach:
  "cpu_routine k v junk i c s = Some (c', s', g) \<Longrightarrow> cpu_pc c \<noteq> At_end \<and> (g = Detach \<longleftrightarrow> cpu_pc c' = At_end)"
  by (cases "cpu_pc c")
     (auto simp: cpu_step_defs bind_eq_Some_conv Let_def case_prod_beta
        split: option.splits if_splits)

lemma ld_routine_detach:
  assumes "ld_routine cfg fs p mem cell rgs now l s = Some (l', s', g)"
  shows "ld_pc l \<noteq> Ld_end \<and> (g = Detach \<longleftrightarrow> ld_pc l' = Ld_end)"
proof (cases "ld_pc l")
  case Ld_top
  with assms have "ld_load cfg fs p mem cell l s = Some (l', s', g)" by (simp add: ld_routine_def)
  then show ?thesis by (cases rule: ld_load_cases) (simp_all add: Ld_top)
qed (use assms in \<open>auto simp: ld_step_defs bind_eq_Some_conv case_prod_beta Let_def split: if_splits\<close>)

lemma clock_step_detached:
  assumes "tstep t a t'" "a = Timer_thread \<or> a = Spurious \<or> (\<exists>d. a = Dev d \<and> dev_at t d Arrived)"
  shows "length (dev_list t') = length (dev_list t) \<and> timer_stop t' = timer_stop t \<and>
    (\<forall>d < length (dev_list t). at (dev_list t' ! d) = Detached \<longleftrightarrow> at (dev_list t ! d) = Detached)"
  using assms(1)
proof (cases rule: tstep.cases)
  case timer
  from timer(2) show ?thesis
    by (cases rule: timer_routine_cases) (auto simp: nth_list_update signal_timer_def)
next
  case (announce i)
  with assms(2) show ?thesis by (simp add: dev_at_def)
next
  case (detach i)
  with assms(2) show ?thesis by (simp add: dev_at_def)
next
  case (wait_turn i)
  then show ?thesis by (auto simp: next_slot_wait_def dev_at_def nth_list_update Let_def)
next
  case (wake_dev i)
  then show ?thesis by (auto simp: spurious_dev_def dev_at_def nth_list_update signal_timer_def)
qed (use assms(2) in \<open>auto simp: spurious_timer_def\<close>)

lemma notify_detached:
  assumes "dev_at t d Running" "j < length (dev_list t)"
  shows "at (dev_list (notify g d t) ! j) = Detached \<longleftrightarrow> (if j = d then g = Detach else at (dev_list t ! j) = Detached)"
    "timer_stop (notify g d t) = timer_stop t"
  using assms by (cases g; simp add: dev_at_def next_slot_announce_def detach_event_def nth_list_update)+

lemma wstep_ended:
  assumes "wstep cfg fs w a w'" "ended_inv w" "barrier_inv w"
  shows "ended_inv w'"
  using assms(1)
proof (cases rule: wstep.cases)
  case (cpu i v junk c s g)
  have len: "length (dev_list (wtm w)) = Suc (length (wcpus w))"
    using assms(3) cpu(5) by (auto simp: barrier_inv_def dev_at_def)
  note d = cpu_routine_detach [OF cpu(6)]
  from d nth_mem [OF cpu(4)] have live: "\<not> all_ended w" by (auto simp: all_ended_def)
  have other: "dev_of w j \<noteq> dev_of w i" if "j < length (wcpus w)" "j \<noteq> i" for j using that cpu(4) by (auto simp: dev_of_def)
  have "at (dev_list (wtm w') ! dev_of w' j) = Detached \<longleftrightarrow> cpu_pc (wcpus w' ! j) = At_end" if "j < length (wcpus w')" for j
    using that cpu(2,4) assms(2) d len other [of j] notify_detached(1) [OF cpu(5), of "dev_of w j" g]
    by (cases "j = i") (auto simp: ended_inv_def dev_of_def)
  moreover have "at (dev_list (wtm w') ! 0) = Detached \<longleftrightarrow> ld_pc (wld w') = Ld_end"
    using cpu(2,4) assms(2) len notify_detached(1) [OF cpu(5), of 0 g] by (auto simp: ended_inv_def dev_of_def)
  moreover have "\<not> timer_stop (wtm w')" "dev_list (wtm w') \<noteq> []"
    using live assms(2) cpu(2) len notify_detached(2) [OF cpu(5), of 0 g]
    by (auto simp: ended_inv_def notify_dev_list)
  ultimately show ?thesis by (simp add: ended_inv_def)
next
  case (loader p mem cell rgs l s g)
  have len: "length (dev_list (wtm w)) = Suc (length (wcpus w))"
    using assms(3) loader(4) by (auto simp: barrier_inv_def dev_at_def)
  note d = ld_routine_detach [OF loader(6)]
  then have live: "\<not> all_ended w" by (simp add: all_ended_def)
  have "at (dev_list (wtm w') ! dev_of w' j) = Detached \<longleftrightarrow> cpu_pc (wcpus w' ! j) = At_end" if "j < length (wcpus w')" for j
    using that loader(2) assms(2) len notify_detached(1) [OF loader(4), of "dev_of w j" g]
    by (auto simp: ended_inv_def dev_of_def)
  moreover have "at (dev_list (wtm w') ! 0) = Detached \<longleftrightarrow> ld_pc (wld w') = Ld_end"
    using loader(2) d len notify_detached(1) [OF loader(4), of 0 g] by auto
  moreover have "\<not> timer_stop (wtm w')" "dev_list (wtm w') \<noteq> []"
    using live assms(2) loader(2) len notify_detached(2) [OF loader(4), of 0 g]
    by (auto simp: ended_inv_def notify_dev_list)
  ultimately show ?thesis by (simp add: ended_inv_def)
next
  case (clock b t)
  note same = clock_step_detached [OF clock(4,5)]
  with assms(2,3) clock(2) show ?thesis
    by (auto simp: ended_inv_def barrier_inv_def all_ended_def dev_of_def)
next
  case (stop t)
  then have "all_ended w'" by (simp add: all_ended_def)
  moreover have "dev_list t = dev_list (wtm w) \<or> dev_list t = []" using stop(6) by (auto simp: main_simps stop_request_def stop_release_def)
  ultimately show ?thesis using stop(2) assms(2) by (auto simp: ended_inv_def dev_of_def)
qed

lemma boot_ended: "ended_inv (boot cfg m0 j0 m1 j1)"
  by (auto simp: ended_inv_def boot_def booted_eq cpu_start_def ld_start_def fresh_dev_def dev_of_def Let_def nth_Cons')

interpretation ended: step_invariant "world_init cfg" "wstep cfg fs" "\<lambda>w. ended_inv w \<and> barrier_inv w"
  by unfold_locales (auto simp: world_init_def boot_ended boot_barrier intro: wstep_ended wstep_barrier)

end
