(* ===== verification/Growth.thy ===== *)
theory Growth
  imports Cpu
begin

text \<open>
  What instructions only add to: the tables that were allocated and the text that was printed,
  none of which is a line of a processor or of the loader.
\<close>

text \<open>What the library and the system calls print.\<close>

fun lib_event :: "event \<Rightarrow> bool" where
  "lib_event (Dispatched _ _) = False"
| "lib_event (Put_back _ _) = False"
| "lib_event (Finished _ _) = False"
| "lib_event (Cpu_stopped _) = False"
| "lib_event (Loaded _ _ _) = False"
| "lib_event _ = True"

definition later :: "(event \<Rightarrow> bool) \<Rightarrow> sys_t \<Rightarrow> sys_t \<Rightarrow> bool" where
  "later P s s' \<longleftrightarrow> (\<exists>es. out s' = out s @ es \<and> list_all P es) \<and> length (tables (krnl s)) \<le> length (tables (krnl s'))"

lemma later_refl [simp]: "later P s s"
  by (simp add: later_def)

lemma later_trans: "later P s s1 \<Longrightarrow> later P s1 s' \<Longrightarrow> later P s s'"
  by (fastforce simp: later_def)

lemma later_mono: "later P s s' \<Longrightarrow> (\<And>e. P e \<Longrightarrow> Q e) \<Longrightarrow> later Q s s'"
  by (auto simp: later_def list_all_iff)

lemma calloc_grows: "length h \<le> length (fst (calloc_table h))"
  by (simp add: calloc_table_def)

lemma walk_grows: "walk_levels h root idx = Some (h', x) \<Longrightarrow> length h \<le> length h'"
  by (auto simp: walk_levels_def bind_eq_Some_conv split: prod.splits dest!: descend_length)

lemma print_pages_grows: "print_pages root ps h = Some (rows, h') \<Longrightarrow> length h \<le> length h'"
  by (induction ps arbitrary: h rows) (fastforce simp: bind_eq_Some_conv dest!: walk_grows)+

lemma memset_grows: "memset_loop m a ps h = Some h' \<Longrightarrow> length h \<le> length h'"
  by (induction ps arbitrary: h) (fastforce simp: bind_eq_Some_conv Let_def dest!: walk_grows tab_wr_length)+

lemma vmap_memset_grows: "vmap_pgd_memset k a n = Some (r, k') \<Longrightarrow> length (tables k) \<le> length (tables k')"
  by (auto simp: vmap_pgd_memset_def bind_eq_Some_conv dest: memset_grows split: if_splits)

lemma pte_get_grows: "pte_get_entry k p = Some (e, k') \<Longrightarrow> length (tables k) \<le> length (tables k')"
  by (auto simp: pte_get_entry_def bind_eq_Some_conv dest!: walk_grows split: option.splits if_splits)

lemma pg_getpage_grows: "pg_getpage k p f = Some (r, f', k') \<Longrightarrow> length (tables k) \<le> length (tables k')"
  by (auto simp: pg_getpage_def bind_eq_Some_conv case_prod_beta Let_def dest!: pte_get_grows split: if_splits)

lemma read_rg_grows: "read_rg k v i off d = Some (r, d', k') \<Longrightarrow> length (tables k) \<le> length (tables k')"
  by (auto simp: read_rg_def pg_getval_def bind_eq_Some_conv dest!: pg_getpage_grows split: option.splits if_splits)

lemma write_rg_grows: "write_rg k v i off b = Some (r, k') \<Longrightarrow> length (tables k) \<le> length (tables k')"
  by (auto simp: write_rg_def pg_setval_def bind_eq_Some_conv dest!: pg_getpage_grows split: option.splits if_splits)

lemma free_rg_tables: "free_rg k v i = Some (r, k') \<Longrightarrow> tables k' = tables k"
  by (auto simp: free_rg_def bind_eq_Some_conv split: if_splits)

lemma set_symrg_tables: "set_symrg k i rg = Some k' \<Longrightarrow> tables k' = tables k"
  by (auto simp: set_symrg_def bind_eq_Some_conv split: if_splits)

lemma get_free_tables: "get_free_vmrg_area k v sz junk = Some (r, rg, k') \<Longrightarrow> tables k' = tables k"
  by (auto simp: get_free_vmrg_area_def bind_eq_Some_conv frame_simps split: if_splits option.splits prod.splits)

lemma inc_vma_limit_tables: "inc_vma_limit k v sz = Some (r, k') \<Longrightarrow> tables k' = tables k"
  by (auto simp: inc_vma_limit_def bind_eq_Some_conv Let_def vm_map_ram_nothing split: if_splits)

lemma lib_print_later: "lib_print f s = Some s' \<Longrightarrow> later lib_event s s'"
  by (auto simp: lib_print_def print_pgtbl_def emit_def later_def bind_eq_Some_conv split: if_splits dest!: print_pages_grows)

lemma later_krnl: "length (tables (krnl s)) \<le> length (tables k) \<Longrightarrow> later lib_event s (s\<lparr>krnl := k\<rparr>)"
  by (simp add: later_def)

lemma find_caller_later: "find_caller s pd = Some (c, s') \<Longrightarrow> out s' = out s \<and> krnl s' = krnl s"
  by (auto simp: find_caller_def Let_def bind_eq_Some_conv)

lemma sys_memmap_later: "sys_memmap v s pd r = Some (x, r', s') \<Longrightarrow> later lib_event s s'"
  by (auto simp: sys_memmap_def emit_def later_def Let_def mm_swap_page_def bind_eq_Some_conv
      dest!: find_caller_later vmap_memset_grows inc_vma_limit_tables split: if_splits)

lemma syscall_later: "syscall v s pd nr r = Some (x, r', s') \<Longrightarrow> later lib_event s s'"
  by (auto simp: syscall_def sys_ni_syscall_def sys_listsyscall_def sys_xxxhandler_def emit_def later_def Let_def bind_eq_Some_conv
      list.pred_map o_def list.pred_True
      dest!: find_caller_later sys_memmap_later [unfolded later_def] split: option.splits handler.splits if_splits)

lemma alloc_rg_later: "alloc_rg v junk s c i rgid sz = Some (r, ad, s') \<Longrightarrow> later lib_event s s'"
  by (fastforce simp: alloc_rg_def later_def Let_def bind_eq_Some_conv
      dest!: get_free_tables set_symrg_tables syscall_later [unfolded later_def] split: if_splits)

lemma liballoc_later: "liballoc v junk s p sz rgid = Some (r, s') \<Longrightarrow> later lib_event s s'"
  by (auto simp: liballoc_def bind_eq_Some_conv split: if_splits dest!: alloc_rg_later lib_print_later intro: later_trans)

lemma libfree_later: "libfree s p rgid = Some (r, s') \<Longrightarrow> later lib_event s s'"
  by (auto simp: libfree_def bind_eq_Some_conv later_def split: if_splits dest!: free_rg_tables lib_print_later [unfolded later_def])

lemma libread_later: "libread v s p i off = Some (r, d, s') \<Longrightarrow> later lib_event s s'"
  by (fastforce simp: libread_def bind_eq_Some_conv later_def dest!: read_rg_grows lib_print_later [unfolded later_def])

lemma libwrite_later:
  assumes "libwrite v s p b i off = Some (r, s')"
  shows "later lib_event s s'"
proof -
  from assms obtain val k where w: "write_rg (krnl s) 0 i off b = Some (val, k)"
    by (auto simp: libwrite_def bind_eq_Some_conv)
  have 1: "later lib_event s (s\<lparr>krnl := k\<rparr>)" by (rule later_krnl [OF write_rg_grows [OF w]])
  show ?thesis
  proof (cases "val = - 1")
    case True
    with assms w 1 show ?thesis by (auto simp: libwrite_def)
  next
    case False
    with assms w obtain s1 where s1: "lib_print ''libwrite'' (s\<lparr>krnl := k\<rparr>) = Some s1" "later lib_event s1 s'"
      by (auto simp: libwrite_def bind_eq_Some_conv emit_def later_def)
    from later_trans [OF later_trans [OF 1 lib_print_later [OF s1(1)]] s1(2)] show ?thesis .
  qed
qed

lemma libsyscall_later: "libsyscall v s p n x y z = Some (r, s') \<Longrightarrow> later lib_event s s'"
  by (auto simp: libsyscall_def bind_eq_Some_conv dest: syscall_later)

lemma run_later:
  assumes "run v junk s proc = Some (r, s')" "procs s proc = Some p"
  shows "later lib_event s s'"
proof -
  have pcb: "later lib_event s (set_pcb proc b s)" for b by (simp add: later_def set_pcb_def)
  note step = later_trans [OF pcb]
  show ?thesis using assms
    by (cases rule: run_cases)
       (auto intro: pcb step liballoc_later libfree_later libread_later libwrite_later libsyscall_later)
qed
end
