(* ===== verification/Threads.thy ===== *)
theory Threads
  imports Liveness Growth
begin

text \<open>
  The threads of the whole program over a kernel they can rely on. The locale \<open>safe_kernel\<close> is the
  interface: a condition on the kernel that every valid instruction and every new address
  space keeps. Its lemmas show that then no thread meets undefined behaviour and that the
  program never deadlocks. \<open>Single\<close> and \<open>Local\<close> provide two such conditions.

  The processes share one kernel structure and the running list, and the loader replaces the
  address space without a lock. Two kinds of programs are safe all the same: a single
  process, which is alone with what it uses, and programs that use neither.
\<close>

section \<open>Valid inputs\<close>

text \<open>A program whose instructions satisfy \<open>I\<close>, as the text of a file and as it is loaded.\<close>

definition text_ok :: "(inst_t \<Rightarrow> bool) \<Rightarrow> string \<Rightarrow> bool" where
  "text_ok I txt \<longleftrightarrow> (\<exists>prior ts. txt = show_prog prior ts \<and> length ts < 2 ^ 32 \<and> list_all I ts)"

definition code_ok :: "(inst_t \<Rightarrow> bool) \<Rightarrow> code_seg_t \<Rightarrow> bool" where
  "code_ok I c \<longleftrightarrow> unat (csize c) \<le> length (ctext c) \<and> list_all I (ctext c)"

text \<open>What the configuration must satisfy.\<close>

definition setup_ok :: "(inst_t \<Rightarrow> bool) \<Rightarrow> config \<Rightarrow> (string \<Rightarrow> string option) \<Rightarrow> bool" where
  "setup_ok I cfg fs \<longleftrightarrow> 0 < time_slot cfg \<and> 0 \<le> memramsz cfg \<and> memramsz cfg < 2 ^ 31 \<and>
     num_processes cfg < 2 ^ 31 \<and>
     num_processes cfg \<le> int (length (ld_path cfg)) \<and> num_processes cfg \<le> int (length (ld_start_time cfg)) \<and>
     num_processes cfg \<le> int (length (ld_prio cfg)) \<and> (\<forall>pr\<in>set (ld_prio cfg). unat (ucast pr :: u32) < MAX_PRIO) \<and>
     (\<forall>name\<in>set (ld_path cfg). \<exists>txt. fs name = Some txt \<and> text_ok I txt)"

text \<open>A condition that depends only on the operands an instruction uses.\<close>

definition operand_cond :: "(inst_t \<Rightarrow> bool) \<Rightarrow> bool" where
  "operand_cond I \<longleftrightarrow> (\<forall>t u. opcode t = opcode u \<and> used_args t = used_args u \<longrightarrow> I t = I u)"

lemma list_all_same:
  "operand_cond I \<Longrightarrow> map opcode ts = map opcode us \<Longrightarrow> map used_args ts = map used_args us \<Longrightarrow> list_all I us \<Longrightarrow> list_all I ts"
proof (induction ts arbitrary: us)
  case (Cons t ts)
  then obtain u us' where u: "us = u # us'" "opcode t = opcode u" "used_args t = used_args u"
    "map opcode ts = map opcode us'" "map used_args ts = map used_args us'" by (cases us) auto
  from Cons.prems(1) u(2,3) have "I t = I u" unfolding operand_cond_def by blast
  with Cons.IH [OF Cons.prems(1) u(4,5)] Cons.prems(4) u(1) show ?case by simp
qed simp

lemma load_valid:
  assumes "operand_cond I" "fs name = Some txt" "text_ok I txt"
  obtains b n where "load fs junk cell a name = Some (Inr (b, n))" "code_ok I (code b)"
proof -
  from assms(2,3) obtain prior ts where t: "fs name = Some (show_prog prior ts)" "length ts < 2 ^ 32" "list_all I ts"
    by (auto simp: text_ok_def)
  from load_show_prog [of fs name prior ts junk cell a, OF t(1,2)] obtain b
    where b: "load fs junk cell a name = Some (Inr (b, a + 1))" "unat (csize (code b)) = length ts"
      "map opcode (ctext (code b)) = map opcode ts" "map used_args (ctext (code b)) = map used_args ts" by blast
  have "length (ctext (code b)) = length ts" using b(3) by (metis length_map)
  with list_all_same [OF assms(1) b(3,4) t(3)] b(1,2) that show thesis by (simp add: code_ok_def)
qed

lemma code_ok_next: "code_ok I (code p) \<Longrightarrow>
    pc p < csize (code p) \<longrightarrow> unat (pc p) < length (ctext (code p)) \<and> I (ctext (code p) ! unat (pc p))"
  by (auto simp: code_ok_def word_less_nat_alt list_all_length)

section \<open>What the threads rely on\<close>

text \<open>How many entries the loader has dealt with.\<close>

definition admitted :: "ld_t \<Rightarrow> nat" where
  "admitted l = (if ld_pc l \<in> {Ld_add, Ld_queue} then Suc (ld_i l) else ld_i l)"

definition cpu_ok :: "cpu_t \<Rightarrow> bool" where
  "cpu_ok c \<longleftrightarrow> (cpu_pc c \<in> {At_put, At_run} \<longrightarrow> cproc c \<noteq> None)"

definition ld_ok :: "config \<Rightarrow> ld_t \<Rightarrow> bool" where
  "ld_ok cfg l \<longleftrightarrow> int (admitted l) \<le> max 0 (num_processes cfg) \<and>
     (ld_pc l \<notin> {Ld_top, Ld_end} \<longrightarrow> ld_proc l \<noteq> None \<and> int (ld_i l) < num_processes cfg)"

definition procs_ok :: "(inst_t \<Rightarrow> bool) \<Rightarrow> pcb_heap \<Rightarrow> bool" where
  "procs_ok I h \<longleftrightarrow> (\<forall>p b. h p = Some b \<longrightarrow> code_ok I (code b) \<and> unat (prio b) < MAX_PRIO)"

text \<open>\<open>ok n y\<close> is the condition on the system once the loader has admitted \<open>n\<close> processes.\<close>

definition sound :: "(inst_t \<Rightarrow> bool) \<Rightarrow> (nat \<Rightarrow> sys_t \<Rightarrow> bool) \<Rightarrow> config \<Rightarrow> world \<Rightarrow> bool" where
  "sound I ok cfg w \<longleftrightarrow> ok (admitted (wld w)) (osys (wos w)) \<and> procs_ok I (procs (osys (wos w))) \<and>
     (\<forall>c\<in>set (wcpus w). cpu_ok c) \<and> ld_ok cfg (wld w) \<and> exit_code (wos w) = None"

definition sound_inv :: "(inst_t \<Rightarrow> bool) \<Rightarrow> (nat \<Rightarrow> sys_t \<Rightarrow> bool) \<Rightarrow> config \<Rightarrow> (string \<Rightarrow> string option) \<Rightarrow> world \<Rightarrow> bool" where
  "sound_inv I ok cfg fs w \<longleftrightarrow> kept_inv cfg w \<and> (setup_ok I cfg fs \<longrightarrow> sound I ok cfg w)"

text \<open>When the configuration has one process, the process on a processor is the only one, and its address space is initialised.\<close>

definition lonely :: "config \<Rightarrow> sys_t \<Rightarrow> pref \<Rightarrow> bool" where
  "lonely cfg y p \<longleftrightarrow> num_processes cfg \<le> 1 \<longrightarrow> inert (krnl y) \<and> dom (procs y) = {p}"

section \<open>Steps\<close>

text \<open>Nothing is printed or allocated away.\<close>

definition loading :: "event \<Rightarrow> bool" where
  "loading e \<longleftrightarrow> (case e of Loaded _ _ _ \<Rightarrow> True | _ \<Rightarrow> False)"

abbreviation not_loading :: "event \<Rightarrow> bool" where
  "not_loading e \<equiv> \<not> loading e"

lemma loading_simps [simp]: "loading (Loaded n d q)" "\<not> loading (Dispatched i d)" "\<not> loading (Put_back i d)"
  "\<not> loading (Finished i d)" "\<not> loading (Cpu_stopped i)"
  by (simp_all add: loading_def)

lemma cpu_routine_later: "cpu_routine k v junk i c s = Some (c', s', g) \<Longrightarrow> later not_loading (osys s) (osys s')"
proof -
  assume c: "cpu_routine k v junk i c s = Some (c', s', g)"
  have f: "later not_loading (osys s) (osys (snd (fetch s)))" for s
    by (simp add: fetch_def case_prod_beta Let_def later_def)
  have r: "later not_loading (osys s) y" if run: "run v junk (osys s) p = Some (r, y)" for r p y
  proof -
    obtain b where "procs (osys s) p = Some b" using run_alive [OF run] by blast
    from run_later [OF run this] show ?thesis
    proof (rule later_mono)
      show "lib_event e \<Longrightarrow> not_loading e" for e by (cases e) (simp_all add: loading_def)
    qed
  qed
  from c f show ?thesis
    by (cases "cpu_pc c")
       (auto simp: cpu_step_defs bind_eq_Some_conv case_prod_beta later_def emit_def
          split: option.splits if_splits dest!: r [unfolded later_def])
qed

lemma get_proc_list: "get_proc s = (q, s') \<Longrightarrow> wf_sched s \<Longrightarrow> running_list s' = running_list s"
proof -
  assume g: "get_proc s = (q, s')" and "wf_sched s"
  from this(2) show ?thesis by (cases rule: get_mlq_cases) (use g in \<open>auto simp: get_proc_def serve_def\<close>)
qed

lemma put_mlq_list: "put_mlq_proc h p s = Some s' \<Longrightarrow> running_list s' = running_list s"
  by (auto simp: put_mlq_proc_Some)

lemma winv_cpu:
  assumes "winv w" "i < length (wcpus w)" "cproc (wcpus w ! i) = Some p"
  shows "procs (osys (wos w)) p \<noteq> None"
  using winv_one_owner [OF assms] by blast

text \<open>With one process, nobody else is in a section that the process could disturb.\<close>

lemma kept_alone:
  assumes "kept_inv cfg w" "num_processes cfg \<le> 1" "i < length (wcpus w)" "cproc (wcpus w ! i) = Some p"
  shows "ld_pc (wld w) \<in> {Ld_top, Ld_end}" "dom (procs (osys (wos w))) = {p}" "inert (krnl (osys (wos w)))"
    "j < length (wcpus w) \<Longrightarrow> j \<noteq> i \<Longrightarrow> cproc (wcpus w ! j) = None"
proof -
  have inv: "winv w" "pid_inv cfg w" "all_owned w" using assms(1,2) by (simp_all add: kept_inv_def MAX_QUEUE_SIZE_def)
  obtain R where R: "on_cpus (wcpus w) = {#p#} + R" using on_cpus_split [OF assms(3)] assms(4) by auto
  have "size (owners w) \<le> 1" using inv(2,3) assms(2) unfolding pid_inv_def all_owned_def by linarith
  then have o: "waiting (sched (osys (wos w))) = {#}" "R = {#}" "ld_proc (wld w) = None" "owners w = {#p#}"
    unfolding owners_def R by (cases "ld_proc (wld w)"; simp)+
  with inv(1) show pc: "ld_pc (wld w) \<in> {Ld_top, Ld_end}" by (auto simp: winv_def owner_inv_def)
  from o(4) inv(3) show "dom (procs (osys (wos w))) = {p}" by (simp add: all_owned_def)
  from inv(1) pc R show "inert (krnl (osys (wos w)))" by (auto simp: winv_def mem_inv_def)
  assume j: "j < length (wcpus w)" "j \<noteq> i"
  show "cproc (wcpus w ! j) = None"
  proof (rule ccontr)
    assume "cproc (wcpus w ! j) \<noteq> None"
    then obtain q where q: "cproc (wcpus w ! j) = Some q" by blast
    then have "q \<in># on_cpus (wcpus w)" using on_cpus_split [OF j(1)] by auto
    with R o(2) have "q = p" by simp
    with q j winv_one_owner [OF inv(1) assms(3,4)] show False by blast
  qed
qed

lemma kept_lonely: "kept_inv cfg w \<Longrightarrow> i < length (wcpus w) \<Longrightarrow> cproc (wcpus w ! i) = Some p \<Longrightarrow> lonely cfg (osys (wos w)) p"
  using kept_alone(2,3) by (auto simp: lonely_def)

lemma winv_loader: "winv w \<Longrightarrow> ld_proc (wld w) = Some p \<Longrightarrow> procs (osys (wos w)) p \<noteq> None"
  unfolding winv_def owner_inv_def owned_ok_def owners_def by auto


section \<open>The interface\<close>

text \<open>
  What a condition on the kernel must promise: it holds when the program starts, depends on the
  kernel, the processes and the running list only, is kept when a process is loaded, listed or
  freed, and every valid instruction and every new address space is defined and keeps it.
\<close>

locale safe_kernel =
  fixes I :: "inst_t \<Rightarrow> bool" and ok :: "nat \<Rightarrow> sys_t \<Rightarrow> bool"
    and cfg :: config and fs :: "string \<Rightarrow> string option"
  assumes operands: "operand_cond I"
    and start: "setup_ok I cfg fs \<Longrightarrow> ok 0 (osys (wos (boot cfg m0 j0 m1 j1)))"
    and frame: "ok n y \<Longrightarrow> krnl y' = krnl y \<Longrightarrow> procs y' = procs y \<Longrightarrow>
      contents (running_list (sched y')) = contents (running_list (sched y)) \<Longrightarrow> ok n y'"
    and listed: "ok n y \<Longrightarrow> wf_sched (sched y) \<Longrightarrow> procs y p \<noteq> None \<Longrightarrow> ok n (y\<lparr>sched := list_running p (sched y)\<rparr>)"
    and fresh: "ok n y \<Longrightarrow> int n < num_processes cfg \<Longrightarrow> ok n (set_pcb p b y)"
    and unset: "ok n y \<Longrightarrow> int n < num_processes cfg \<Longrightarrow> ok n (y\<lparr>krnl := (krnl y)\<lparr>mm := None\<rparr>\<rparr>)"
    and space: "ok n y \<Longrightarrow> int n < num_processes cfg \<Longrightarrow> ok (Suc n) (y\<lparr>krnl := snd (init_mm (krnl y) False False rgs)\<rparr>)"
    and freed: "ok n y \<Longrightarrow> lonely cfg y p \<Longrightarrow> ok n (y\<lparr>procs := (procs y)(p := None)\<rparr>)"
    and exec: "ok n y \<Longrightarrow> lonely cfg y p \<Longrightarrow> wf_sched (sched y) \<Longrightarrow> procs y p = Some b \<Longrightarrow>
      pc b < csize (code b) \<longrightarrow> unat (pc b) < length (ctext (code b)) \<and> I (ctext (code b) ! unat (pc b)) \<Longrightarrow>
      \<exists>r y'. run v junk y p = Some (r, y') \<and> ok n y'"
begin

lemma fetch_ok:
  assumes "fetch s = (q, s')" "wf_sched (sched (osys s))" "ok n (osys s)"
  shows "ok n (osys s')" "procs (osys s') = procs (osys s)"
proof -
  obtain sc where g: "get_proc (sched (osys s)) = (q, sc)" "s' = s\<lparr>osys := (osys s)\<lparr>sched := sc\<rparr>\<rparr>"
    using assms(1) by (auto simp: fetch_def Let_def case_prod_beta prod_eq_iff)
  with get_proc_list [OF g(1) assms(2)] show "ok n (osys s')" "procs (osys s') = procs (osys s)"
    by (auto intro: frame [OF assms(3)])
qed

lemma run_ok:
  assumes "ok n y" "lonely cfg y p" "wf_sched (sched y)" "procs_ok I (procs y)" "procs y p \<noteq> None"
  obtains r y' where "run v junk y p = Some (r, y')" "ok n y'" "procs_ok I (procs y')"
proof -
  from assms(5) obtain b where b: "procs y p = Some b" by blast
  with assms(4) have "code_ok I (code b)" "unat (prio b) < MAX_PRIO" by (simp_all add: procs_ok_def)
  from exec [OF assms(1-3) b code_ok_next [OF this(1)]] obtain r y' where r: "run v junk y p = Some (r, y')" "ok n y'" by blast
  moreover have "procs_ok I (procs y')" using run_procs [OF r(1) b] assms(4) b by (auto simp: procs_ok_def)
  ultimately show thesis by (rule that)
qed

lemma cpu_step_ok:
  assumes "cpu_routine k v junk i c s = Some (c', s', g)" "ok n (osys s)" "procs_ok I (procs (osys s))"
    and "wf_sched (sched (osys s))" "\<forall>p. cproc c = Some p \<longrightarrow> lonely cfg (osys s) p"
  shows "ok n (osys s') \<and> procs_ok I (procs (osys s')) \<and> cpu_ok c'"
proof (cases "cpu_pc c")
  case At_top
  with assms(1) have top: "cpu_top i c s = Some (c', s', g)" by (simp add: cpu_routine_def)
  show ?thesis
  proof (cases "cproc c")
    case None
    obtain q s1 where f: "fetch s = (q, s1)" by (cases "fetch s")
    with top None have "s' = s1" "cpu_pc c' \<in> {cpu_pc c, At_check}" by (auto simp: cpu_top_def split: if_splits)
    with fetch_ok [OF f assms(4,2)] At_top assms(3) show ?thesis by (auto simp: cpu_ok_def)
  next
    case (Some p)
    with top obtain b where b: "procs (osys s) p = Some b" by (auto simp: cpu_top_def bind_eq_Some_conv)
    consider "pc b = csize (code b)" | "pc b \<noteq> csize (code b)" "time_left c = 0" | "pc b \<noteq> csize (code b)" "time_left c \<noteq> 0" by blast
    then show ?thesis
    proof cases
      case 1
      with top Some b have e: "osys s' = emit [Finished (int i) (pid b)] ((osys s)\<lparr>procs := (procs (osys s))(p := None)\<rparr>)"
        "cpu_ok c'" by (auto simp: cpu_top_def cpu_ok_def)
      moreover have "procs_ok I ((procs (osys s))(p := None))" using assms(3) by (simp add: procs_ok_def)
      ultimately show ?thesis using freed [OF assms(2), of p] assms(5) Some by (auto intro: frame)
    next
      case 2
      with top Some b have "c' = c\<lparr>cpu_pc := At_put\<rparr>" "osys s' = emit [Put_back (int i) (pid b)]
          ((osys s)\<lparr>sched := list_running p (sched (osys s))\<rparr>)" by (auto simp: cpu_top_def)
      with listed [OF assms(2,4), of p] b Some assms(3) show ?thesis
        by (auto simp: cpu_ok_def intro: frame)
    next
      case 3
      with top Some b assms(2,3) show ?thesis by (auto simp: cpu_top_def cpu_ok_def)
    qed
  qed
next
  case At_put
  with assms(1) obtain p sc where "put_mlq_proc (procs (osys s)) p (sched (osys s)) = Some sc" "s' = s\<lparr>osys := (osys s)\<lparr>sched := sc\<rparr>\<rparr>"
    "cpu_pc c' = At_get"
    by (auto simp: cpu_routine_def cpu_put_def bind_eq_Some_conv)
  with put_mlq_list assms(3) show ?thesis by (auto simp: cpu_ok_def intro: frame [OF assms(2)])
next
  case At_get
  obtain q s1 where f: "fetch s = (q, s1)" by (cases "fetch s")
  with assms(1) At_get have "s' = s1" "cpu_pc c' = At_check" by (auto simp: cpu_routine_def cpu_get_def)
  with fetch_ok [OF f assms(4,2)] assms(3) show ?thesis by (simp add: cpu_ok_def)
next
  case At_check
  with assms(1,3) show ?thesis
    by (auto simp: cpu_routine_def cpu_check_def cpu_ok_def bind_eq_Some_conv intro: frame [OF assms(2)]
        split: option.splits if_splits)
next
  case At_run
  with assms(1) obtain p r y where y: "cproc c = Some p" "run v junk (osys s) p = Some (r, y)" "osys s' = y" "cpu_pc c' = At_top"
    by (auto simp: cpu_routine_def cpu_exec_def bind_eq_Some_conv split: if_splits)
  have "procs (osys s) p \<noteq> None" using run_alive [OF y(2)] by blast
  moreover have "lonely cfg (osys s) p" using assms(5) y(1) by blast
  ultimately obtain r' y' where "run v junk (osys s) p = Some (r', y')" "ok n y'" "procs_ok I (procs y')"
    using run_ok [OF assms(2) _ assms(4,3)] by blast
  with y show ?thesis by (auto simp: cpu_ok_def)
next
  case At_end
  with assms(1) show ?thesis by (simp add: cpu_routine_def)
qed

lemma setup_entry:
  assumes "setup_ok I cfg fs" "int j < num_processes cfg"
  shows "rd (ld_path cfg) j = Some (ld_path cfg ! j)" "rd (ld_prio cfg) j = Some (ld_prio cfg ! j)"
    "rd (ld_start_time cfg) j = Some (ld_start_time cfg ! j)" "unat (ucast (ld_prio cfg ! j) :: u32) < MAX_PRIO"
    "\<exists>b n. load fs mem cell a (ld_path cfg ! j) = Some (Inr (b, n)) \<and> code_ok I (code b)"
proof -
  from assms have j: "j < length (ld_path cfg)" "j < length (ld_prio cfg)" "j < length (ld_start_time cfg)"
    by (auto simp: setup_ok_def)
  then show "rd (ld_path cfg) j = Some (ld_path cfg ! j)" "rd (ld_prio cfg) j = Some (ld_prio cfg ! j)"
    "rd (ld_start_time cfg) j = Some (ld_start_time cfg ! j)" by (simp_all add: rd_in)
  show "unat (ucast (ld_prio cfg ! j) :: u32) < MAX_PRIO" using assms(1) nth_mem [OF j(2)] by (simp add: setup_ok_def)
  from nth_mem [OF j(1)] assms(1) obtain tx where t: "fs (ld_path cfg ! j) = Some tx" "text_ok I tx"
    unfolding setup_ok_def by blast
  show "\<exists>b n. load fs mem cell a (ld_path cfg ! j) = Some (Inr (b, n)) \<and> code_ok I (code b)"
    by (rule load_valid [of I fs "ld_path cfg ! j", OF operands t]) blast
qed

lemma ld_load_ok:
  assumes "ld_load cfg fs p mem cell l s = Some (l', s', g)" "setup_ok I cfg fs" "ld_pc l = Ld_top"
    and "ok (admitted l) (osys s)" "procs_ok I (procs (osys s))" "ld_ok cfg l" "exit_code s = None"
  shows "ok (admitted l') (osys s') \<and> procs_ok I (procs (osys s')) \<and> ld_ok cfg l' \<and> exit_code s' = None"
proof (cases "int (ld_i l) < num_processes cfg")
  case False
  with assms show ?thesis by (auto simp: ld_load_def ld_ok_def admitted_def)
next
  case True
  note e = setup_entry [OF assms(2) True]
  from e(5) [of mem cell "avail s"] obtain b n
    where b: "load fs mem cell (avail s) (ld_path cfg ! ld_i l) = Some (Inr (b, n))" "code_ok I (code b)" by blast
  let ?b = "b\<lparr>prio := ucast (ld_prio cfg ! ld_i l)\<rparr>"
  have l: "l' = l\<lparr>ld_pc := Ld_wait, ld_proc := Some p\<rparr>" "osys s' = set_pcb p ?b (osys s)" "exit_code s' = exit_code s"
    using assms(1) True e(1,2) b(1) by (auto simp: ld_load_def)
  have "procs_ok I (procs (set_pcb p ?b (osys s)))" using assms(5) b(2) e(4) by (simp add: procs_ok_def set_pcb_def)
  moreover have "admitted l' = admitted l" "ld_ok cfg l'" using l(1) assms(3,6) True by (auto simp: admitted_def ld_ok_def)
  ultimately show ?thesis using fresh [OF assms(4)] l assms(3,7) True by (simp add: admitted_def)
qed

lemma ld_step_ok:
  assumes "ld_routine cfg fs p mem cell rgs now l s = Some (l', s', g)" "setup_ok I cfg fs"
    and "ok (admitted l) (osys s)" "procs_ok I (procs (osys s))" "ld_ok cfg l" "exit_code s = None" "wf_sched (sched (osys s))"
    and "\<forall>q. ld_proc l = Some q \<longrightarrow> procs (osys s) q \<noteq> None"
  shows "ok (admitted l') (osys s') \<and> procs_ok I (procs (osys s')) \<and> ld_ok cfg l' \<and> exit_code s' = None"
proof (cases "ld_pc l")
  case Ld_top
  with assms(1) have "ld_load cfg fs p mem cell l s = Some (l', s', g)" by (simp add: ld_routine_def)
  from ld_load_ok [OF this assms(2) Ld_top assms(3-6)] show ?thesis .
next
  case Ld_wait
  with assms(1) have w: "ld_waiting cfg now l s = Some (l', s', g)" by (simp add: ld_routine_def)
  have "int (admitted l) < num_processes cfg" using assms(5) Ld_wait by (simp add: ld_ok_def admitted_def)
  with unset [OF assms(3)] ld_waiting_keeps(4) [OF w] Ld_wait assms(3-6) show ?thesis by (auto simp: ld_ok_def admitted_def)
next
  case Ld_init
  with assms(1) obtain name d pr where m: "ld_memory cfg rgs l s = Some (l', s', g)" "l' = l\<lparr>ld_pc := Ld_add\<rparr>" "exit_code s' = exit_code s"
    and o: "osys s' = emit [Loaded name d pr] ((osys s)\<lparr>krnl := snd (init_mm (krnl (osys s)) False False rgs)\<rparr>)"
    by (auto simp: ld_routine_def ld_memory_def bind_eq_Some_conv case_prod_beta Let_def)
  have "int (admitted l) < num_processes cfg" using assms(5) Ld_init by (simp add: ld_ok_def admitted_def)
  then have "ok (Suc (admitted l)) ((osys s)\<lparr>krnl := snd (init_mm (krnl (osys s)) False False rgs)\<rparr>)"
    by (rule space [OF assms(3)])
  then have "ok (Suc (admitted l)) (osys s')" by (rule frame) (simp_all add: o)
  then show ?thesis using m(2,3) o assms(4-6) Ld_init by (simp add: ld_ok_def admitted_def)
next
  case Ld_add
  with assms(1) obtain q where "ld_proc l = Some q" "l' = l\<lparr>ld_pc := Ld_queue\<rparr>" "exit_code s' = exit_code s"
    "osys s' = (osys s)\<lparr>sched := list_running q (sched (osys s))\<rparr>"
    by (auto simp: ld_routine_def ld_add_def bind_eq_Some_conv)
  with listed [OF assms(3,7), of q] assms(4-8) Ld_add show ?thesis by (simp add: ld_ok_def admitted_def)
next
  case Ld_queue
  with assms(1) obtain q sc where l: "put_mlq_proc (procs (osys s)) q (sched (osys s)) = Some sc"
    "l' = l\<lparr>ld_pc := Ld_top, ld_i := Suc (ld_i l), ld_proc := None\<rparr>" "s' = s\<lparr>osys := (osys s)\<lparr>sched := sc\<rparr>\<rparr>"
    by (auto simp: ld_routine_def ld_queue_def add_is_put_mlq bind_eq_Some_conv)
  have "ok (admitted l) (osys s')" by (rule frame [OF assms(3)]) (simp_all add: l(3) put_mlq_list [OF l(1)])
  with l(2,3) Ld_queue assms(4-6) show ?thesis by (auto simp: ld_ok_def admitted_def)
next
  case Ld_end
  with assms(1) show ?thesis by (simp add: ld_routine_def)
qed

lemma wstep_sound:
  assumes "wstep cfg fs w a w'" "sound_inv I ok cfg fs w"
  shows "sound_inv I ok cfg fs w'"
proof -
  have k: "kept_inv cfg w" "kept_inv cfg w'" "winv w"
    using assms(2) wstep_kept [OF assms(1)] by (simp_all add: sound_inv_def kept_inv_def)
  then have wf: "wf_sched (sched (osys (wos w)))" by (simp add: winv_def owner_inv_def)
  have "sound I ok cfg w'" if v: "setup_ok I cfg fs"
  proof -
    have snd: "sound I ok cfg w" using assms(2) v by (simp add: sound_inv_def)
    from assms(1) show ?thesis
    proof (cases rule: wstep.cases)
      case (cpu i v junk c s g)
      have "\<forall>p. cproc (wcpus w ! i) = Some p \<longrightarrow> lonely cfg (osys (wos w)) p" using kept_lonely [OF k(1) cpu(4)] by blast
      with cpu_step_ok [OF cpu(6) _ _ wf, of "admitted (wld w)"] cpu_routine_rank [OF cpu(6)] snd cpu(2) show ?thesis
        by (auto simp: sound_def dest!: subsetD [OF set_update_subset_insert])
    next
      case (loader p mem cell rgs l s g)
      with ld_step_ok [OF loader(6) v _ _ _ _ wf] winv_loader [OF k(3)] snd show ?thesis by (auto simp: sound_def)
    qed (use snd in \<open>simp_all add: sound_def\<close>)
  qed
  with k(2) show ?thesis by (simp add: sound_inv_def)
qed

lemma init_sound: "world_init cfg w \<Longrightarrow> sound_inv I ok cfg fs w"
proof -
  assume i: "world_init cfg w"
  then obtain m0 j0 m1 j1 where w: "w = boot cfg m0 j0 m1 j1" by (auto simp: world_init_def)
  have "sound I ok cfg w" if "setup_ok I cfg fs"
    using start [OF that, of m0 j0 m1 j1]
    by (auto simp: w sound_def boot_def procs_ok_def cpu_ok_def ld_ok_def admitted_def cpu_start_def ld_start_def Let_def)
  with kept.inv_init [OF i] show ?thesis by (simp add: sound_inv_def)
qed

section \<open>No step is undefined\<close>

lemma cpu_defined:
  assumes "ok n (osys s)" "procs_ok I (procs (osys s))" "cpu_ok c"
    and "wf_sched (sched (osys s))" "\<forall>p. cproc c = Some p \<longrightarrow> procs (osys s) p \<noteq> None \<and> lonely cfg (osys s) p"
    and "cpu_pc c = At_run \<longrightarrow> 1 \<le> time_left c" "cpu_pc c \<noteq> At_end"
  shows "\<exists>x. cpu_routine k v junk i c s = Some x"
proof (cases "cpu_pc c")
  case At_put
  then obtain p where p: "cproc c = Some p" using assms(3) by (auto simp: cpu_ok_def)
  with assms(5) obtain b where b: "procs (osys s) p = Some b" by blast
  with assms(2,4) have "put_mlq_proc (procs (osys s)) p (sched (osys s)) \<noteq> None"
    by (auto simp: procs_ok_def wf_sched_def put_mlq_proc_Some)
  with At_put p show ?thesis by (auto simp: cpu_routine_def cpu_put_def)
next
  case At_run
  then obtain p where p: "cproc c = Some p" using assms(3) by (auto simp: cpu_ok_def)
  with assms(5) have "procs (osys s) p \<noteq> None" "lonely cfg (osys s) p" by blast+
  from run_ok [OF assms(1) this(2) assms(4,2) this(1), of v junk] obtain r y
    where "run v junk (osys s) p = Some (r, y)" by blast
  with At_run p assms(6) show ?thesis by (simp add: cpu_routine_def cpu_exec_def)
next
  case At_get
  then show ?thesis by (simp add: cpu_routine_def cpu_get_def case_prod_beta)
qed (use assms(5,7) in \<open>auto simp: cpu_routine_def cpu_top_def cpu_check_def case_prod_beta Let_def split: option.split\<close>)

lemma ld_defined:
  assumes "setup_ok I cfg fs" "procs_ok I (procs (osys s))" "ld_ok cfg l" "wf_sched (sched (osys s))"
    and "\<forall>q. ld_proc l = Some q \<longrightarrow> procs (osys s) q \<noteq> None" "ld_pc l \<noteq> Ld_end"
  shows "\<exists>x. ld_routine cfg fs p mem cell rgs now l s = Some x"
proof (cases "ld_pc l = Ld_top")
  case True
  show ?thesis
  proof (cases "int (ld_i l) < num_processes cfg")
    case False
    with True show ?thesis by (simp add: ld_routine_def ld_load_def)
  next
    case lt: True
    note e = setup_entry [OF assms(1) lt]
    from e(5) [of mem cell "avail s"] e(1,2) True lt show ?thesis by (auto simp: ld_routine_def ld_load_def)
  qed
next
  case False
  with assms(3,6) obtain q where q: "ld_proc l = Some q" and lt: "int (ld_i l) < num_processes cfg" by (auto simp: ld_ok_def)
  note e = setup_entry [OF assms(1) lt]
  from assms(5) q obtain b where b: "procs (osys s) q = Some b" by blast
  with assms(2,4) have "put_mlq_proc (procs (osys s)) q (sched (osys s)) \<noteq> None"
    by (auto simp: procs_ok_def wf_sched_def put_mlq_proc_Some)
  with q e b False assms(6) show ?thesis
    by (cases "ld_pc l") (auto simp: ld_step_defs add_is_put_mlq case_prod_beta Let_def)
qed

end

sublocale safe_kernel < always: step_invariant "world_init cfg" "wstep cfg fs" "sound_inv I ok cfg fs"
  by unfold_locales (auto intro: init_sound wstep_sound)

text \<open>There is always a reference that no process has.\<close>

definition finite_procs :: "world \<Rightarrow> bool" where
  "finite_procs w \<longleftrightarrow> finite (dom (procs (osys (wos w))))"

lemma wstep_finite:
  assumes "wstep cfg fs w a w'" "finite_procs w"
  shows "finite_procs w'"
  using assms(1)
proof (cases rule: wstep.cases)
  case (cpu i v junk c s g)
  from cpu_routine_pids(1) [OF cpu(6)] have "dom (procs (osys s)) \<subseteq> dom (procs (osys (wos w)))"
    by (auto simp: same_pids_def)
  with assms(2) cpu(2) show ?thesis by (simp add: finite_procs_def finite_subset)
next
  case (loader p mem cell rgs l s g)
  have "dom (procs (osys s)) \<subseteq> insert p (dom (procs (osys (wos w))))"
  proof (cases "ld_pc (wld w) = Ld_top")
    case True
    with loader(6) have "ld_load cfg fs p mem cell (wld w) (wos w) = Some (l, s, g)" by (simp add: ld_routine_def)
    then show ?thesis by (cases rule: ld_load_cases) (auto simp: set_pcb_def)
  next
    case False
    from ld_other_same(2) [OF loader(6) False] show ?thesis by auto
  qed
  then have "finite (dom (procs (osys s)))" by (rule finite_subset) (use assms(2) in \<open>simp add: finite_procs_def\<close>)
  then show ?thesis using loader(2) by (simp add: finite_procs_def)
qed (use assms(2) in \<open>simp_all add: finite_procs_def\<close>)

interpretation finitely: step_invariant "world_init cfg" "wstep cfg fs" finite_procs
proof
  show "world_init cfg w \<Longrightarrow> finite_procs w" for w
    by (auto simp: world_init_def boot_def finite_procs_def Let_def)
qed (rule wstep_finite)

context safe_kernel
begin

lemma threads_defined:
  assumes "setup_ok I cfg fs" "reach (world_init cfg) (wstep cfg fs) w"
  shows "(i < length (wcpus w) \<and> cpu_pc (wcpus w ! i) \<noteq> At_end \<longrightarrow>
      (\<exists>x. cpu_routine (time_slot cfg) v junk i (wcpus w ! i) (wos w) = Some x)) \<and>
    (ld_pc (wld w) \<noteq> Ld_end \<longrightarrow> (\<exists>x. ld_routine cfg fs p mem cell rgs now (wld w) (wos w) = Some x))"
proof -
  have inv: "winv w" "sound I ok cfg w" "kept_inv cfg w"
    using always.reach_inv [OF assms(2)] assms(1) by (simp_all add: sound_inv_def kept_inv_def)
  have slice: "slice_inv cfg w" by (rule slices.reach_inv [OF assms(2)])
  have wf: "wf_sched (sched (osys (wos w)))" using inv(1) by (simp add: winv_def owner_inv_def)
  have s: "ok (admitted (wld w)) (osys (wos w))" "procs_ok I (procs (osys (wos w)))" "ld_ok cfg (wld w)"
    using inv(2) by (simp_all add: sound_def)
  have "\<exists>x. cpu_routine (time_slot cfg) v junk i (wcpus w ! i) (wos w) = Some x"
    if i: "i < length (wcpus w)" "cpu_pc (wcpus w ! i) \<noteq> At_end"
  proof (rule cpu_defined [OF s(1,2) _ wf _ _ i(2)])
    show "cpu_ok (wcpus w ! i)" using inv(2) nth_mem [OF i(1)] by (simp add: sound_def)
    show "\<forall>p. cproc (wcpus w ! i) = Some p \<longrightarrow> procs (osys (wos w)) p \<noteq> None \<and> lonely cfg (osys (wos w)) p"
      using winv_cpu [OF inv(1) i(1)] kept_lonely [OF inv(3) i(1)] by blast
    show "cpu_pc (wcpus w ! i) = At_run \<longrightarrow> 1 \<le> time_left (wcpus w ! i)"
      using slice assms(1) nth_mem [OF i(1)] by (simp add: slice_inv_def setup_ok_def)
  qed
  moreover have "\<exists>x. ld_routine cfg fs p mem cell rgs now (wld w) (wos w) = Some x" if "ld_pc (wld w) \<noteq> Ld_end"
    using ld_defined [OF assms(1) s(2,3) wf _ that] winv_loader [OF inv(1)] by blast
  ultimately show ?thesis by blast
qed

text \<open>A thread whose device is in its slot can take a step.\<close>

lemma running_steps:
  assumes "setup_ok I cfg fs" "reach (world_init cfg) (wstep cfg fs) w" "dev_at (wtm w) d Running"
  shows "\<exists>a w'. thread_step a \<and> wstep cfg fs w a w'"
proof -
  have inv: "ended_inv w" "barrier_inv w" "finite_procs w"
    using ended.reach_inv [OF assms(2)] finitely.reach_inv [OF assms(2)] by simp_all
  have e: "exit_code (wos w) = None" using always.reach_inv [OF assms(2)] assms(1) by (simp add: sound_inv_def sound_def)
  have len: "length (dev_list (wtm w)) = Suc (length (wcpus w))"
    using inv(2) assms(3) by (auto simp: barrier_inv_def dev_at_def)
  then have ne: "dev_list (wtm w) \<noteq> []" by auto
  have d: "at (dev_list (wtm w) ! d) = Running" "d \<le> length (wcpus w)" using assms(3) len by (simp_all add: dev_at_def)
  show ?thesis
  proof (cases "d = 0")
    case True
    with inv(1) d ne have "ld_pc (wld w) \<noteq> Ld_end" by (auto simp: ended_inv_def)
    moreover obtain p where p: "procs (osys (wos w)) p = None"
      using inv(3) ex_new_if_finite [OF infinite_UNIV_nat] by (auto simp: finite_procs_def domIff)
    ultimately obtain l s g where "ld_routine cfg fs p undefined undefined undefined (current_time (wtm w)) (wld w) (wos w) = Some (l, s, g)"
      using threads_defined [OF assms(1,2), of 0 undefined undefined p undefined undefined undefined "current_time (wtm w)"]
      by (metis prod_cases3)
    from wstep.loader [OF e _ p this] assms(3) True show ?thesis by (auto simp: thread_step_def)
  next
    case False
    define i where "i = length (wcpus w) - d"
    with False d(2) have i: "i < length (wcpus w)" "dev_of w i = d" by (simp_all add: dev_of_def)
    with inv(1) d ne have "cpu_pc (wcpus w ! i) \<noteq> At_end" by (auto simp: ended_inv_def)
    with threads_defined [OF assms(1,2), of i undefined undefined] i(1) obtain c s g
      where "cpu_routine (time_slot cfg) undefined undefined i (wcpus w ! i) (wos w) = Some (c, s, g)"
      by (metis prod_cases3)
    from wstep.cpu [OF e i(1) _ this] assms(3) i(2) show ?thesis by (auto simp: thread_step_def)
  qed
qed

text \<open>No deadlock.\<close>

lemma not_stuck:
  assumes "setup_ok I cfg fs" "reach (world_init cfg) (wstep cfg fs) w"
  shows "(\<exists>a w'. thread_step a \<and> wstep cfg fs w a w') \<or> all_ended w \<and> phase (wtm w) = Exited"
proof -
  have inv: "ended_inv w" "barrier_inv w" using ended.reach_inv [OF assms(2)] by simp_all
  have t: "tinv (wtm w)" using program.reach_inv [OF assms(2)] by (simp add: winv_def)
  have e: "exit_code (wos w) = None" using always.reach_inv [OF assms(2)] assms(1) by (simp add: sound_inv_def sound_def)
  show ?thesis
  proof (cases "timer_routine (wtm w)")
    case (Some t')
    from wstep.clock [OF e tstep.timer [OF this], of cfg fs] have "wstep cfg fs w (Clock Timer_thread) (w\<lparr>wtm := t'\<rparr>)" by simp
    then show ?thesis by (auto simp: thread_step_def)
  next
    case None
    then consider "phase (wtm w) = Idle" | i f k where "phase (wtm w) = Sleep i f k" | "phase (wtm w) = Exited"
      by (cases "phase (wtm w)") (auto simp: timer_routine_def Let_def split: if_splits)
    then show ?thesis
    proof cases
      case 1
      with t show ?thesis by (simp add: tinv_def phase_ok_def)
    next
      case (2 i f k)
      with t have i: "i < length (dev_list (wtm w))" "\<not> ev_done (dev_list (wtm w) ! i)" "\<not> ev_fsh (dev_list (wtm w) ! i)"
        by (auto simp: tinv_def phase_ok_def)
      then consider "dev_at (wtm w) i Running" | "dev_at (wtm w) i Arrived"
        using tinv_flags(1,3) [OF t nth_mem [OF i(1)]] by (cases "at (dev_list (wtm w) ! i)") (auto simp: dev_at_def)
      then show ?thesis
      proof cases
        case 1
        from running_steps [OF assms this] show ?thesis by blast
      next
        case 2
        from wstep.clock [OF e tstep.wait_turn [OF 2], of cfg fs] 2
        have "wstep cfg fs w (Clock (Dev i)) (w\<lparr>wtm := next_slot_wait i (wtm w)\<rparr>)" by blast
        then show ?thesis by (auto simp: thread_step_def)
      qed
    next
      case 3
      with t have "timer_stop (wtm w) \<or> (\<forall>d\<in>set (dev_list (wtm w)). at d = Detached)"
        using tinv_flags(1) [OF t] by (auto simp: tinv_def phase_ok_def)
      moreover have "all_ended w" if all: "\<forall>d\<in>set (dev_list (wtm w)). at d = Detached" "dev_list (wtm w) \<noteq> []"
      proof -
        have len: "length (dev_list (wtm w)) = Suc (length (wcpus w))" using inv(2) all(2) by (auto simp: barrier_inv_def)
        have "at (dev_list (wtm w) ! d) = Detached" if "d \<le> length (wcpus w)" for d
          using all(1) that len by simp
        with inv(1) all(2) show ?thesis
          by (auto simp: ended_inv_def all_ended_def in_set_conv_nth dev_of_def)
      qed
      ultimately show ?thesis using inv(1) 3 by (auto simp: ended_inv_def)
    qed
  qed
qed

text \<open>The clock can always go on.\<close>

lemma time_passes:
  assumes "setup_ok I cfg fs" "reach (world_init cfg) (wstep cfg fs) w"
  shows "\<exists>as w'. run_of (wstep cfg fs) w as w' \<and> list_all thread_step as \<and>
    (clock (wtm w') = clock (wtm w) + 1 \<or> all_ended w' \<and> phase (wtm w') = Exited)"
  using assms(2)
proof (induction "slot_cost w" arbitrary: w rule: less_induct)
  case less
  have inv: "winv w" "barrier_inv w" by (rule program.reach_inv [OF less.prems], rule slots.reach_inv [OF less.prems])
  from not_stuck [OF assms(1) less.prems] show ?case
  proof (elim disjE exE conjE)
    fix a w1 assume s: "thread_step a" "wstep cfg fs w a w1"
    show ?thesis
    proof (cases "clock (wtm w1) = clock (wtm w)")
      case True
      with wstep_cost [OF s(2) True inv] s(1) have "slot_cost w1 < slot_cost w" by simp
      from less.hyps [OF this reach_step [OF less.prems s(2)]] obtain as w'
        where "run_of (wstep cfg fs) w1 as w'" "list_all thread_step as"
          "clock (wtm w') = clock (wtm w1) + 1 \<or> all_ended w' \<and> phase (wtm w') = Exited" by blast
      with s True show ?thesis by (intro exI [of _ "a # as"] exI [of _ w']) auto
    next
      case False
      from wstep_clock [OF s(2) False] False have "clock (wtm w1) = clock (wtm w) + 1" by (auto elim!: timer_routine_cases)
      with s show ?thesis by (intro exI [of _ "[a]"] exI [of _ w1]) simp
    qed
  next
    assume "all_ended w" "phase (wtm w) = Exited"
    then show ?thesis by (intro exI [of _ "[]"] exI [of _ w]) simp
  qed
qed

end

end
