(* ===== verification/Admission.thy ===== *)
theory Admission
  imports Threads Pace
begin

text \<open>
  What the loader promises: the processes of the configuration are admitted one by one, in their
  order, and none before its start time.
\<close>

section \<open>The specification\<close>

text \<open>The lines \<open>Loaded a process\<close> that were printed, and the one that belongs to entry \<open>i\<close> of the configuration.\<close>

definition loads :: "sys_t \<Rightarrow> event list" where
  "loads y = filter loading (out y)"

definition admission :: "config \<Rightarrow> nat \<Rightarrow> event" where
  "admission cfg i = Loaded (ld_path cfg ! i) (of_nat (Suc i)) (ld_prio cfg ! i)"

text \<open>A process with the number, the priority field and the program of its entry of the configuration.\<close>

definition configured :: "config \<Rightarrow> (string \<Rightarrow> string option) \<Rightarrow> pcb_t \<Rightarrow> bool" where
  "configured cfg fs b \<longleftrightarrow> 0 < unat (pid b) \<and> int (unat (pid b)) \<le> num_processes cfg \<and>
     prio b = ucast (ld_prio cfg ! (unat (pid b) - 1)) \<and>
     (\<exists>junk cell c n. load fs junk cell (pid b) (ld_path cfg ! (unat (pid b) - 1)) = Some (Inr (c, n)) \<and> code b = code c)"

definition all_configured :: "config \<Rightarrow> (string \<Rightarrow> string option) \<Rightarrow> pcb_heap \<Rightarrow> bool" where
  "all_configured cfg fs h \<longleftrightarrow> (\<forall>p b. h p = Some b \<longrightarrow> configured cfg fs b)"

definition admit_inv :: "config \<Rightarrow> nat \<Rightarrow> world \<Rightarrow> bool" where
  "admit_inv cfg n w \<longleftrightarrow>
     loads (osys (wos w)) = map (admission cfg) [0..<admitted (wld w)] \<and>
     (\<forall>i < admitted (wld w). unat (ld_start_time cfg ! i) \<le> n) \<and>
     (ld_pc (wld w) = Ld_init \<longrightarrow> unat (ld_start_time cfg ! ld_i (wld w)) \<le> n) \<and>
     (\<forall>q b. ld_proc (wld w) = Some q \<and> procs (osys (wos w)) q = Some b \<longrightarrow> pid b = of_nat (Suc (ld_i (wld w)))) \<and>
     (ld_pc (wld w) = Ld_end \<longrightarrow> num_processes cfg \<le> int (ld_i (wld w)))"

section \<open>Steps\<close>

lemma loads_later: "later not_loading y y' \<Longrightarrow> loads y' = loads y"
  by (auto simp: later_def loads_def list_all_iff filter_empty_conv)

lemma loads_emit [simp]: "loads (emit es y) = loads y @ filter loading es"
  by (simp add: loads_def emit_def)

lemma loads_frame [simp]: "loads (set_pcb p b y) = loads y" "loads (y\<lparr>sched := sc\<rparr>) = loads y" "loads (y\<lparr>krnl := k\<rparr>) = loads y"
  "loads (y\<lparr>procs := h\<rparr>) = loads y"
  by (simp_all add: loads_def set_pcb_def)

lemma rd_nth: "rd xs i = Some x \<Longrightarrow> xs ! i = x"
  by (simp add: rd_Some)

lemma admit_mono: "admit_inv cfg n w \<Longrightarrow> n \<le> n' \<Longrightarrow> admit_inv cfg n' w"
  by (fastforce simp: admit_inv_def)

lemma loader_admits:
  assumes "admit_inv cfg n w" "winv w" "unat (avail (wos w)) = Suc (loaded (wld w))"
    and "ld_routine cfg fs p mem cell rgs now (wld w) (wos w) = Some (l, s, g)" "unat now \<le> n"
  shows "admit_inv cfg n (w\<lparr>wos := s, wld := l, wtm := t\<rparr>)"
proof (cases "ld_pc (wld w)")
  case Ld_top
  with assms(2) have none: "ld_proc (wld w) = None" by (simp add: winv_def owner_inv_def)
  with assms(3) have "unat (avail (wos w)) = Suc (ld_i (wld w))" by (simp add: loaded_def)
  moreover have "avail (wos w) = of_nat (unat (avail (wos w)))" by simp
  ultimately have av: "avail (wos w) = of_nat (Suc (ld_i (wld w)))" by argo
  from Ld_top assms(4) have "ld_load cfg fs p mem cell (wld w) (wos w) = Some (l, s, g)" by (simp add: ld_routine_def)
  then show ?thesis
  proof (cases rule: ld_load_cases)
    case (loads b k)
    with load_fresh [OF loads(5)] assms(1) Ld_top av show ?thesis
      by (auto simp: admit_inv_def admitted_def set_pcb_def[of p])
  qed (use assms(1) Ld_top none in \<open>auto simp: admit_inv_def admitted_def\<close>)
next
  case Ld_wait
  with assms(4) obtain st where st: "rd (ld_start_time cfg) (ld_i (wld w)) = Some st"
    "loads (osys s) = loads (osys (wos w))" "procs (osys s) = procs (osys (wos w))"
    "l = wld w \<or> l = (wld w)\<lparr>ld_pc := Ld_init\<rparr> \<and> \<not> now < st"
    by (auto simp: ld_routine_def ld_waiting_def bind_eq_Some_conv split: if_splits)
  with assms(1,5) Ld_wait rd_nth [OF st(1)] show ?thesis
    by (auto simp: admit_inv_def admitted_def word_less_nat_alt)
next
  case Ld_init
  with assms(4) obtain q b name pr k where m: "ld_proc (wld w) = Some q" "procs (osys (wos w)) q = Some b"
    "rd (ld_path cfg) (ld_i (wld w)) = Some name" "rd (ld_prio cfg) (ld_i (wld w)) = Some pr"
    "l = (wld w)\<lparr>ld_pc := Ld_add\<rparr>" "s = (wos w)\<lparr>osys := emit [Loaded name (pid b) pr] ((osys (wos w))\<lparr>krnl := k\<rparr>)\<rparr>"
    by (auto simp: ld_routine_def ld_memory_def bind_eq_Some_conv case_prod_beta Let_def)
  from assms(1) m(1,2) have "pid b = of_nat (Suc (ld_i (wld w)))" by (simp add: admit_inv_def)
  with m rd_nth [OF m(3)] rd_nth [OF m(4)] assms(1) Ld_init show ?thesis
    by (auto simp: admit_inv_def admitted_def admission_def less_Suc_eq)
next
  case Ld_end
  with assms(4) show ?thesis by (simp add: ld_routine_def)
qed (use assms(1,4) in \<open>auto simp: ld_routine_def ld_add_def ld_queue_def bind_eq_Some_conv admit_inv_def admitted_def\<close>)

lemma configured_pc: "configured cfg fs (b\<lparr>pc := x\<rparr>) = configured cfg fs b"
  by (simp add: configured_def)

lemma cpu_configured:
  assumes "cpu_routine k v junk i c s = Some (c', s', g)" "all_configured cfg fs (procs (osys s))"
  shows "all_configured cfg fs (procs (osys s'))"
proof -
  have f: "procs (osys (snd (fetch s))) = procs (osys s)" by (simp add: fetch_def case_prod_beta Let_def)
  have r: "all_configured cfg fs (procs y)" if run: "run v junk (osys s) q = Some (r, y)" for r q y
  proof -
    obtain b where b: "procs (osys s) q = Some b" using run_alive [OF run] by blast
    from run_procs [OF run b] b assms(2) show ?thesis by (simp add: all_configured_def configured_pc)
  qed
  from assms f show ?thesis
    by (cases "cpu_pc c")
       (auto simp: cpu_step_defs bind_eq_Some_conv case_prod_beta all_configured_def emit_def split: option.splits if_splits
          dest: r [unfolded all_configured_def])
qed

lemma loader_configured:
  assumes "ld_routine cfg fs p mem cell rgs now l s = Some (l', s', g)" "all_configured cfg fs (procs (osys s))"
    and "unat (avail s) = Suc (loaded l)" "ld_pc l = Ld_top \<longrightarrow> ld_proc l = None"
  shows "all_configured cfg fs (procs (osys s'))"
proof (cases "ld_pc l = Ld_top")
  case False
  with ld_other_same(2) [OF assms(1)] assms(2) show ?thesis by simp
next
  case True
  with assms(1) have "ld_load cfg fs p mem cell l s = Some (l', s', g)" by (simp add: ld_routine_def)
  then show ?thesis
  proof (cases rule: ld_load_cases)
    case (loads b n name c pr)
    have av: "unat (avail s) = Suc (ld_i l)" using assms(3,4) True by (simp add: loaded_def)
    moreover have "pid c = avail s" using load_fresh [OF loads(5)] by simp
    ultimately have "configured cfg fs b"
      using loads(4-6) rd_nth [OF loads(7)] rd_nth [OF loads(8)] by (auto simp: configured_def)
    with assms(2) loads(2) show ?thesis by (simp add: all_configured_def set_pcb_def)
  qed (use assms(2) in simp_all)
qed

lemma wstep_configured:
  assumes "wstep cfg fs w a w'" "all_configured cfg fs (procs (osys (wos w)))" "kept_inv cfg w" "num_processes cfg < 2 ^ 31"
  shows "all_configured cfg fs (procs (osys (wos w')))"
  using assms(1)
proof (cases rule: wstep.cases)
  case (cpu i v junk c s g)
  with cpu_configured [OF cpu(6) assms(2)] show ?thesis by simp
next
  case (loader p mem cell rgs l s g)
  from assms(3,4) have "winv w" "unat (avail (wos w)) = Suc (loaded (wld w))" by (simp_all add: kept_inv_def pid_inv_def)
  then have "ld_pc (wld w) = Ld_top \<longrightarrow> ld_proc (wld w) = None" by (simp add: winv_def owner_inv_def)
  with loader_configured [OF loader(6) assms(2)] loader(2) \<open>unat _ = _\<close> show ?thesis by simp
qed (use assms(2) in simp_all)

lemma wstep_admits:
  assumes "wstep cfg fs w a w'" "admit_inv cfg n w" "kept_inv cfg w" "num_processes cfg < 2 ^ 31" "unat (current_time (wtm w)) \<le> n"
  shows "admit_inv cfg n w'"
  using assms(1)
proof (cases rule: wstep.cases)
  case (cpu i v junk c s g)
  from cpu_routine_pids(1) [OF cpu(6)] loads_later [OF cpu_routine_later [OF cpu(6)]] assms(2) cpu(2) show ?thesis
    by (fastforce simp: admit_inv_def same_pids_def)
next
  case (loader p mem cell rgs l s g)
  from assms(3,4) have "winv w" "unat (avail (wos w)) = Suc (loaded (wld w))" by (simp_all add: kept_inv_def pid_inv_def)
  from loader_admits [OF assms(2) this loader(6) assms(5)] loader(2) show ?thesis by simp
qed (use assms(2) in \<open>auto simp: admit_inv_def\<close>)

lemma wstep_tick: "wstep cfg fs w a w' \<Longrightarrow> clock (wtm w') \<noteq> clock (wtm w) \<Longrightarrow> clock (wtm w') = clock (wtm w) + 1"
  using wstep_clock [of cfg fs w a w'] by (auto elim!: timer_routine_cases)

text \<open>
  C17: the loader follows the configuration. In every run from the start of the program, after n ticks of the
  clock: the processes loaded so far are the first ones of the configuration, in its order, each
  once, with the process numbers 1, 2, 3 and so on, and the printed lines give the priorities of the configuration; the start
  time of each of them has come; when the loader has ended no process is left out; and every process there
  is, wherever it is, has in its own field prio the priority of the entry that has its number, cut to 32 bits (a priority of
  2 ^ 32 becomes 0), and as its code what load reads from the file of that entry.
\<close>
theorem loader_follows_configuration:
  assumes "world_init cfg w0" "slots_run cfg fs w0 n w" "num_processes cfg < 2 ^ 31"
  shows "loads (osys (wos w)) = map (admission cfg) [0..<admitted (wld w)] \<and>
    (\<forall>i < admitted (wld w). unat (ld_start_time cfg ! i) \<le> n) \<and>
    (ld_pc (wld w) = Ld_end \<longrightarrow> int (admitted (wld w)) = max 0 (num_processes cfg)) \<and>
    (\<forall>p b. procs (osys (wos w)) p = Some b \<longrightarrow> configured cfg fs b)"
proof -
  have inv: "kept_inv cfg w \<and> all_configured cfg fs (procs (osys (wos w))) \<and> admit_inv cfg n w \<and> clock (wtm w) = of_nat n"
    using assms(2)
  proof (induction rule: slots_run.induct)
    case slots_start
    from assms(1) have "kept_inv cfg w0" by (rule kept.inv_init)
    moreover from assms(1) have "admit_inv cfg 0 w0" "clock (wtm w0) = 0" "all_configured cfg fs (procs (osys (wos w0)))"
      by (auto simp: world_init_def boot_def admit_inv_def all_configured_def admitted_def loads_def ld_start_def booted_eq Let_def simp del: replicate.simps)
    ultimately show ?case by simp
  next
    case (slots_step n w1 a w2)
    then have ih: "kept_inv cfg w1" "admit_inv cfg n w1" "clock (wtm w1) = of_nat n"
      and conf: "all_configured cfg fs (procs (osys (wos w1)))" by auto
    have le: "unat (of_nat n :: u64) \<le> n" by (simp add: unat_of_nat take_bit_nat_less_eq_self)
    have "kept_inv cfg w2" by (rule wstep_kept [OF slots_step(2) ih(1)])
    moreover from wstep_configured [OF slots_step(2) conf ih(1) assms(3)]
    have "all_configured cfg fs (procs (osys (wos w2)))" .
    moreover from wstep_admits [OF slots_step(2) ih(2,1) assms(3)] ih(3) le have "admit_inv cfg n w2"
      by (simp add: current_time_def)
    then have "admit_inv cfg (if clock (wtm w2) = clock (wtm w1) then n else Suc n) w2" by (auto intro: admit_mono)
    moreover have "clock (wtm w2) = of_nat (if clock (wtm w2) = clock (wtm w1) then n else Suc n)"
      using ih(3) wstep_tick [OF slots_step(2)] by auto
    ultimately show ?case by simp
  qed
  with assms(3) have "int (loaded (wld w)) \<le> max 0 (num_processes cfg)" by (simp add: kept_inv_def pid_inv_def)
  with inv have "int (admitted (wld w)) = max 0 (num_processes cfg)" if "ld_pc (wld w) = Ld_end"
    using that by (auto simp: admit_inv_def admitted_def loaded_def)
  with inv show ?thesis by (simp add: admit_inv_def all_configured_def)
qed

theorem loader_follows_configuration_witness:
  "\<exists>w0 n (w :: world) b. slots_run (demo_cfg 1) demo_fs w0 n w \<and> admitted (wld w) = 1 \<and> loads (osys (wos w)) = [Loaded ''p'' 1 0] \<and>
     procs (osys (wos w)) 0 = Some b \<and> configured (demo_cfg 1) demo_fs b"
proof -
  obtain w and b :: pcb_t where w: "reach (world_init (demo_cfg 1)) (wstep (demo_cfg 1) demo_fs) w"
    "wld w = \<lparr>ld_pc = Ld_top, ld_i = 1, ld_proc = None\<rparr>" "procs (osys (wos w)) = [0 \<mapsto> b]"
    by (rule demo_added) (rule that; assumption)
  from slots_from_boot [OF w(1)] obtain w0 n where r: "world_init (demo_cfg 1) w0" "slots_run (demo_cfg 1) demo_fs w0 n w"
    by blast
  have a: "admitted (wld w) = 1" by (simp add: w(2) admitted_def)
  have "num_processes (demo_cfg 1) < 2 ^ 31" by (simp add: demo_cfg_def)
  note l = loader_follows_configuration [OF r this]
  from l a have "loads (osys (wos w)) = [admission (demo_cfg 1) 0]" by simp
  moreover from l w(3) have "configured (demo_cfg 1) demo_fs b" by simp
  ultimately show ?thesis using a r(2) w(3)
    by (intro exI [of _ w0] exI [of _ n] exI [of _ w] exI [of _ b]) (simp add: admission_def demo_cfg_def)
qed

end
