(* ===== verification/Local.thy ===== *)
theory Local
  imports Threads
begin

text \<open>
  Any number of processes on any number of processors, whose programs compute and make the system calls that
  only print. These instructions read and write nothing that another thread uses, but the program counter of the
  process: neither the kernel structure, whose address space the loader replaces without a lock, nor the
  running list, which the searches and the scheduler change under different mutexes. So no thread ever
  meets undefined behaviour and the clock never stops, in every state that the program can reach.
\<close>

section \<open>Instructions\<close>

definition local_ins :: "inst_t \<Rightarrow> bool" where
  "local_ins ins \<longleftrightarrow> opcode ins = CALC \<or> opcode ins = SYSCALL \<and> (ucast (arg_0 ins) :: u32) \<notin> {17, 101, 440}"

lemma local_ins_operands: "operand_cond local_ins"
proof -
  have "local_ins t = local_ins u" if "opcode t = opcode u" "used_args t = used_args u" for t u
  proof (cases "opcode u = SYSCALL")
    case True
    with that have "arg_0 t = arg_0 u" by (simp add: used_args_def numeral_eq_Suc)
    with that(1) show ?thesis by (simp add: local_ins_def)
  qed (use that(1) in \<open>simp add: local_ins_def\<close>)
  then show ?thesis unfolding operand_cond_def by blast
qed

text \<open>
  What such an instruction does: it is defined in every state, whatever the kernel structure and the scheduler
  hold, and changes the program counter and what is printed only.
\<close>

lemma run_local:
  assumes "procs s proc = Some p"
    and "pc p < csize (code p) \<longrightarrow> unat (pc p) < length (ctext (code p)) \<and> local_ins (ctext (code p) ! unat (pc p))"
  obtains r s' where "run v junk s proc = Some (r, s')" "krnl s' = krnl s" "sched s' = sched s"
proof (cases "csize (code p) \<le> pc p")
  case True
  with assms(1) that [of _ s] show thesis by (simp add: run_def)
next
  case False
  let ?ins = "ctext (code p) ! unat (pc p)"
  from False assms(2) have i: "rd (ctext (code p)) (unat (pc p)) = Some ?ins" and ok: "local_ins ?ins" by (simp_all add: rd_in)
  have "\<exists>r s'. run v junk s proc = Some (r, s') \<and> krnl s' = krnl s \<and> sched s' = sched s"
  proof (cases "opcode ?ins = CALC")
    case True
    with i assms(1) False show ?thesis by (simp add: run_def set_pcb_def)
  next
    case calc: False
    with ok have "opcode ?ins = SYSCALL" "(ucast (arg_0 ?ins) :: u32) \<notin> {17, 101, 440}" by (simp_all add: local_ins_def)
    with i assms(1) False show ?thesis
      by (auto simp: run_def libsyscall_def syscall_def syscall_tbl_def sys_listsyscall_def sys_ni_syscall_def emit_def set_pcb_def)
  qed
  with that show thesis by blast
qed

interpretation alone: safe_kernel local_ins "\<lambda>_ _. True" cfg fs
proof (unfold_locales, goal_cases)
  case 1
  show ?case by (rule local_ins_operands)
next
  case (9 n y p b v junk)
  from run_local [OF 9(4,5)] show ?case by blast
qed simp_all

text \<open>A step of a processor leaves the kernel structure as it is, and an instruction the scheduler, too.\<close>

lemma cpu_local:
  assumes "cpu_routine k v junk i c s = Some (c', s', g)" "procs_ok local_ins (procs (osys s))"
  shows "krnl (osys s') = krnl (osys s)" "cpu_pc c = At_run \<Longrightarrow> sched (osys s') = sched (osys s)"
proof -
  have r: "krnl y = krnl (osys s) \<and> sched y = sched (osys s)" if run: "run v junk (osys s) p = Some (r, y)" for p r y
  proof -
    obtain b where b: "procs (osys s) p = Some b" using run_alive [OF run] by blast
    with assms(2) have "code_ok local_ins (code b)" by (simp add: procs_ok_def)
    from run_local [OF b code_ok_next [OF this], of v junk] run show ?thesis by (metis option.inject prod.inject)
  qed
  have f: "krnl (osys (snd (fetch s))) = krnl (osys s)" by (simp add: fetch_def case_prod_beta Let_def)
  from assms(1) f show "krnl (osys s') = krnl (osys s)"
    by (cases "cpu_pc c")
       (auto simp: cpu_step_defs bind_eq_Some_conv case_prod_beta emit_def split: option.splits if_splits dest!: r)
  from assms(1) show "cpu_pc c = At_run \<Longrightarrow> sched (osys s') = sched (osys s)"
    by (auto simp: cpu_routine_def cpu_exec_def bind_eq_Some_conv split: if_splits dest!: r)
qed

section \<open>Properties\<close>


text \<open>A program that computes, asks for the list of the system calls and makes a call that does not exist.\<close>

definition local_prog :: "inst_t list" where
  "local_prog = [\<lparr>opcode = CALC, arg_0 = 0, arg_1 = 0, arg_2 = 0, arg_3 = 0\<rparr>,
                 \<lparr>opcode = SYSCALL, arg_0 = 0, arg_1 = 0, arg_2 = 0, arg_3 = 0\<rparr>,
                 \<lparr>opcode = SYSCALL, arg_0 = 3, arg_1 = 7, arg_2 = 0, arg_3 = 0\<rparr>]"

definition local_fs :: "string \<Rightarrow> string option" where
  "local_fs = (\<lambda>_. Some (show_prog 1 local_prog))"

lemma demo_local_setup: "n \<le> 50 \<Longrightarrow> setup_ok local_ins (demo_cfg n) local_fs"
proof -
  assume n: "n \<le> 50"
  have "list_all local_ins local_prog" by (simp add: local_prog_def local_ins_def)
  then have "text_ok local_ins (show_prog 1 local_prog)"
    unfolding text_ok_def by (intro exI [of _ 1] exI [of _ local_prog]) (simp add: local_prog_def)
  with n show ?thesis by (simp add: setup_ok_def demo_cfg_def local_fs_def MAX_PRIO_def)
qed

lemma local_boot: "reach (world_init (demo_cfg n)) (wstep (demo_cfg n) local_fs) (demo_boot n)"
  by (rule reach_init) (auto simp: world_init_def demo_boot_def)


end
