(* ===== verification/Progress.thy ===== *)
theory Progress
  imports Cpu
begin

text \<open>
  When instructions are defined. An address space of at most \<open>B\<close> pages and a RAM of \<open>M\<close> bytes are
  given; an instruction is valid when its register numbers, sizes and addresses respect them. In
  a state with a well-formed space and a running list of living processes every valid
  instruction is defined and leads to such a state again, at the price of at most four page
  tables for each page of the area, which printing the directory allocates.
\<close>

section \<open>Well-formed address spaces\<close>

definition vma_ok :: "nat \<Rightarrow> vm_area_struct \<Rightarrow> bool" where
  "vma_ok B a \<longleftrightarrow> vm_id a = 0 \<and> vm_start a = 0 \<and> sbrk a = 0 \<and> unat (vm_end a) < B * 4096"

definition mm_ok :: "nat \<Rightarrow> mm_struct \<Rightarrow> bool" where
  "mm_ok B m \<longleftrightarrow> pt m = 0 \<and> fifo_pgn m = [] \<and> (\<exists>a. mmap m = [a] \<and> vma_ok B a) \<and> length (symrgtbl m) = 30"

definition ram_ok :: "nat \<Rightarrow> memphy_struct \<Rightarrow> bool" where
  "ram_ok M d \<longleftrightarrow> random_access d \<and> M \<le> length (storage d) \<and> nat (maxsz d) \<le> length (storage d)"

definition space_ok :: "nat \<Rightarrow> nat \<Rightarrow> krnl_t \<Rightarrow> bool" where
  "space_ok B M k \<longleftrightarrow> wf_dir k \<and> (\<exists>m. mm k = Some m \<and> mm_ok B m) \<and> ram_ok M (mram k)"

lemma space_inert: "space_ok B M k \<Longrightarrow> inert k"
  by (auto simp: space_ok_def mm_ok_def inert_def)

lemma space_upd:
  assumes "space_ok B M k" "mm k = Some m" "pgd m' = pgd m" "mm_ok B m'"
  shows "space_ok B M (k\<lparr>mm := Some m'\<rparr>)"
  using assms by (auto simp: space_ok_def wf_dir_def)

lemma space_mram:
  "space_ok B M k \<Longrightarrow> random_access d \<Longrightarrow> length (storage d) = length (storage (mram k)) \<Longrightarrow> maxsz d = maxsz (mram k) \<Longrightarrow>
     space_ok B M (k\<lparr>mram := d\<rparr>)"
  by (auto simp: space_ok_def ram_ok_def pte_of_mram)

lemma mm_ok_deref:
  assumes "mm k = Some m" "mmap m = [a]" "vm_id a = 0" "sint vmaid \<le> 0"
  shows "deref_vma k vmaid = Some (m, 0, a)" "get_vma_by_num m vmaid = Some (Some 0)"
proof -
  have "\<not> 0 <s vmaid" using assms(4) by (simp add: word_sless_alt)
  then show "deref_vma k vmaid = Some (m, 0, a)" "get_vma_by_num m vmaid = Some (Some 0)"
    using assms(1-3) by (simp_all add: deref_vma_def get_vma_by_num_def rd_def u64_to_int_def)
qed

lemma vma_ok_end: "vma_ok B a \<Longrightarrow> unat e < B * 4096 \<Longrightarrow> vma_ok B (a\<lparr>vm_end := e\<rparr>)"
  and vma_ok_freerg: "vma_ok B (a\<lparr>vm_freerg_list := rgs\<rparr>) = vma_ok B a"
  by (simp_all add: vma_ok_def)

lemma sint_small: "unat (w :: cint) < 2 ^ 31 \<Longrightarrow> sint w = int (unat w)"
proof -
  assume "unat w < 2 ^ 31"
  then have "int (unat w) < int (2 ^ 31)" by (simp only: of_nat_less_iff)
  then have less: "uint w < 2 ^ 31" by simp
  have "- (2 ^ 31) \<le> uint w" by (rule order_trans [of _ 0]) simp_all
  from signed_take_bit_int_eq_self [OF this less] show "sint w = int (unat w)" by (simp add: sint_uint)
qed

section \<open>The library calls\<close>

text \<open>Printing the directory at the end of a call.\<close>

lemma lib_print_ok:
  assumes "space_ok B M (krnl s)" "4 * B \<le> room (krnl s)"
  obtains s' where "lib_print f s = Some s'" "space_ok B M (krnl s')" "room (krnl s) \<le> room (krnl s') + 4 * B"
    "mram (krnl s') = mram (krnl s)"
proof -
  from assms(1) obtain m a where m: "mm (krnl s) = Some m" "mm_ok B m" "mmap m = [a]" "vma_ok B a" "wf_dir (krnl s)"
    by (auto simp: space_ok_def mm_ok_def)
  have d: "deref_vma (krnl s) 0 = Some (m, 0, a)"
    using mm_ok_deref [of "krnl s" m a 0] m by (simp add: vma_ok_def)
  let ?n = "Suc (unat (drop_bit 12 (vm_end a))) - unat (drop_bit 12 (vm_start a))"
  have "unat (vm_end a) div 4096 < B" using m(4) by (simp add: vma_ok_def less_mult_imp_div_less)
  then have n: "?n \<le> B" using m(4) by (simp add: vma_ok_def unat_drop_bit)
  obtain out h where p: "print_pgtbl (krnl s) 0 (- 1) = Some (0, out, (krnl s)\<lparr>tables := h\<rparr>)"
    "wf_dir ((krnl s)\<lparr>tables := h\<rparr>)" "room (krnl s) \<le> room ((krnl s)\<lparr>tables := h\<rparr>) + 4 * ?n"
    by (rule print_pgtbl_ok [OF m(5) d refl]) (use n assms(2) in auto)
  show thesis
  proof (rule that)
    show "lib_print f s = Some (emit [Lib_done f, Directory out] (s\<lparr>krnl := (krnl s)\<lparr>tables := h\<rparr>\<rparr>))"
      using p(1) by (simp add: lib_print_def)
  qed (use p n assms(1) in \<open>simp_all add: space_ok_def emit_def\<close>)
qed

text \<open>The system call that raises the limit of the area.\<close>

lemma inc_vma_limit_defined:
  assumes "space_ok B M k" "sint vmaid \<le> 0" "unat sz < B * 4096"
  shows "\<exists>r k'. inc_vma_limit k vmaid sz = Some (r, k') \<and> space_ok B M k' \<and> room k' = room k"
proof -
  from assms(1) obtain m a where m: "mm k = Some m" "mm_ok B m" "mmap m = [a]" "vma_ok B a"
    by (auto simp: space_ok_def mm_ok_def)
  have d: "deref_vma k vmaid = Some (m, 0, a)"
    using mm_ok_deref [of k m a vmaid] m assms(2) by (simp add: vma_ok_def)
  have "mm_ok B (m\<lparr>mmap := [a\<lparr>vm_end := sz\<rparr>]\<rparr>)" using m(2,4) vma_ok_end [OF m(4) assms(3)] by (simp add: mm_ok_def)
  from space_upd [OF assms(1) m(1) _ this]
  have "space_ok B M (k\<lparr>mm := Some (m\<lparr>mmap := [a\<lparr>vm_end := sz\<rparr>]\<rparr>)\<rparr>)" by simp
  moreover have "sbrk a = 0" using m(4) by (simp add: vma_ok_def)
  ultimately show ?thesis using inc_vma_limit_eq [OF d, of sz] m(3) assms(1) by (simp add: room_def)
qed

lemma get_free_defined:
  assumes "space_ok B M k"
  shows "\<exists>r rg k'. get_free_vmrg_area k 0 sz junk = Some (r, rg, k') \<and> space_ok B M k' \<and> room k' = room k"
proof -
  from assms(1) obtain m a where m: "mm k = Some m" "mm_ok B m" "mmap m = [a]" "vma_ok B a"
    by (auto simp: space_ok_def mm_ok_def)
  have d: "deref_vma k 0 = Some (m, 0, a)"
    using mm_ok_deref [of k m a 0] m by (simp add: vma_ok_def)
  have "mm_ok B (m\<lparr>mmap := [a\<lparr>vm_freerg_list := rgs\<rparr>]\<rparr>)" for rgs
    using m(2,4) by (simp add: mm_ok_def vma_ok_freerg)
  from space_upd [OF assms(1) m(1) _ this] have "space_ok B M (set_area k m 0 (a\<lparr>vm_freerg_list := rgs\<rparr>))" for rgs
    using m(3) by (simp add: set_area_def)
  then show ?thesis using d assms
    by (cases "take_fit (vm_freerg_list a) (int_to_u64 sz)") (auto simp: get_free_vmrg_area_def set_area_frame)
qed

lemma set_symrg_defined:
  assumes "space_ok B M k" "unat rgid < 30"
  shows "\<exists>k'. set_symrg k rgid rg = Some k' \<and> space_ok B M k' \<and> room k' = room k"
proof -
  from assms(1) obtain m where m: "mm k = Some m" "mm_ok B m" by (auto simp: space_ok_def)
  have s: "sint rgid = int (unat rgid)" using assms(2) by (intro sint_small) simp
  have "mm_ok B (m\<lparr>symrgtbl := (symrgtbl m)[unat rgid := rg]\<rparr>)" using m(2) by (simp add: mm_ok_def)
  from space_upd [OF assms(1) m(1) _ this] set_symrg_eq [OF m(1), of rgid rg] m(2) assms(2) s
  show ?thesis by (simp add: mm_ok_def room_def)
qed

lemma alloc_rg_defined:
  assumes "rl_ok s" "space_ok B M (krnl s)" "procs s c \<noteq> None" "unat rgid < 30" "unat sz < 2 ^ 31" "unat sz < B * 4096"
  shows "\<exists>ad s'. alloc_rg v junk s c 0 rgid sz = Some (0, ad, s') \<and> space_ok B M (krnl s') \<and> room (krnl s') = room (krnl s)"
proof -
  from get_free_defined [OF assms(2), of "u64_to_int sz" junk] obtain r rg k
    where g: "get_free_vmrg_area (krnl s) 0 (u64_to_int sz) junk = Some (r, rg, k)" "space_ok B M k" "room k = room (krnl s)"
    by blast
  show ?thesis
  proof (cases "r = 0")
    case True
    from set_symrg_defined [OF g(2) assms(4), of rg] g True show ?thesis by (auto simp: alloc_rg_def)
  next
    case False
    let ?s = "s\<lparr>krnl := k\<rparr>"
    from g(2) obtain m a where d: "deref_vma k 0 = Some (m, 0, a)"
      using mm_ok_deref(1) [of k _ _ 0] by (auto simp: space_ok_def mm_ok_def vma_ok_def)
    from assms(3) obtain b where b: "procs s c = Some b" by blast
    have "rl_ok ?s" using assms(1) by (simp add: rl_ok_def)
    from find_caller_cases [OF this, of "pid b"] obtain f rl where f: "find_caller ?s (pid b) = Some (f, with_rl ?s rl)" by metis
    from inc_vma_limit_defined [OF g(2) _ assms(6), of 0] obtain q k1
      where i: "inc_vma_limit k 0 sz = Some (q, k1)" "space_ok B M k1" "room k1 = room k" by auto
    obtain x rs s1 where sys: "syscall v ?s (pid b) 17 \<lparr>a1 = int_to_u64 SYSMEM_INC_OP, a2 = int_to_u64 0,
        a3 = int_to_u64 (u64_to_int sz)\<rparr> = Some (x, rs, s1)" "krnl s1 = k \<or> krnl s1 = k1"
      using f i(1) int_to_u64_to_int [OF assms(5)] by (cases f) (auto simp: syscall_inc emit_def)
    have s1: "space_ok B M (krnl s1)" "room (krnl s1) = room k" using sys(2) g(2) i(2,3) by auto
    from set_symrg_defined [OF s1(1) assms(4), of "\<lparr>rg_start = sbrk a, rg_end = sbrk a + sz\<rparr>"] obtain k2
      where k2: "set_symrg (krnl s1) rgid \<lparr>rg_start = sbrk a, rg_end = sbrk a + sz\<rparr> = Some k2"
        "space_ok B M k2" "room k2 = room (krnl s1)" by blast
    from g(1) False d b sys(1) k2(1) have "alloc_rg v junk s c 0 rgid sz = Some (0, sbrk a, s1\<lparr>krnl := k2\<rparr>)"
      by (simp add: alloc_rg_def Let_def)
    with k2 s1 g(3) show ?thesis by simp
  qed
qed

text \<open>\<open>__free\<close>, \<open>__read\<close> and \<open>__write\<close>: every register number but 30 is harmless.\<close>

lemma symrg_defined:
  assumes "mm_ok B m" "rgid \<noteq> 30"
  shows "get_symrg_byid m rgid = None \<or> (\<exists>i < 30. get_symrg_byid m rgid = Some i)"
proof -
  have "sint rgid \<noteq> 30"
  proof
    assume "sint rgid = 30"
    then have "sint rgid = sint (30 :: cint)" by simp
    then have "rgid = 30" by (rule signed_word_eqI)
    with assms(2) show False by simp
  qed
  then show ?thesis by (auto simp: get_symrg_byid_def PAGING_MAX_SYMTBL_SZ_def)
qed

lemma free_rg_defined:
  assumes "space_ok B M k" "rgid \<noteq> 30"
  shows "\<exists>r k'. free_rg k vmaid rgid = Some (r, k') \<and> space_ok B M k' \<and> room k' = room k"
proof -
  from assms(1) obtain m a where m: "mm k = Some m" "mm_ok B m" "mmap m = [a]" "vma_ok B a" "length (symrgtbl m) = 30"
    by (auto simp: space_ok_def mm_ok_def)
  show ?thesis
  proof (cases "get_symrg_byid m rgid")
    case None
    with assms(1) show ?thesis by (auto simp: get_symrg_byid_def free_rg_def split: if_splits)
  next
    case (Some i)
    with symrg_defined [OF m(2) assms(2)] have i: "i < 30" by auto
    let ?rg = "symrgtbl m ! i" and ?m = "m\<lparr>symrgtbl := (symrgtbl m)[i := zero_rg]\<rparr>"
    have "mm_ok B ?m" using m(2) by (simp add: mm_ok_def)
    from space_upd [OF assms(1) m(1) _ this] have 1: "space_ok B M (k\<lparr>mm := Some ?m\<rparr>)" by simp
    have "mm_ok B (?m\<lparr>mmap := [a\<lparr>vm_freerg_list := rgs\<rparr>]\<rparr>)" for rgs using m(2,4) by (simp add: mm_ok_def vma_ok_freerg)
    from space_upd [OF assms(1) m(1) _ this]
    have 2: "space_ok B M (k\<lparr>mm := Some (?m\<lparr>mmap := [a\<lparr>vm_freerg_list := rgs\<rparr>]\<rparr>)\<rparr>)" for rgs by simp
    from Some i 1 2 m assms(1) show ?thesis
      by (auto simp: free_rg_def get_symrg_byid_def rd_in wr_in enlist_vm_freerg_list_def room_def split: if_splits)
  qed
qed

lemma read_rg_defined:
  assumes "space_ok B M k" "rgid \<noteq> 30"
  shows "\<exists>r. read_rg k vmaid rgid off d = Some (r, d, k)"
proof -
  from assms(1) obtain m where m: "mm k = Some m" "mm_ok B m" by (auto simp: space_ok_def)
  with symrg_defined [OF m(2) assms(2)] show ?thesis
    by (auto simp: read_rg_def rd_in mm_ok_def pg_getval_def pg_getpage_inert [OF space_inert [OF assms(1)]])
qed

lemma write_rg_defined:
  assumes "space_ok B M k" "rgid \<noteq> 30"
  shows "\<exists>r. write_rg k 0 rgid off b = Some (r, k)"
proof -
  from assms(1) obtain m a where m: "mm k = Some m" "mm_ok B m" "mmap m = [a]" "vma_ok B a"
    by (auto simp: space_ok_def mm_ok_def)
  have "get_vma_by_num m 0 = Some (Some 0)" using mm_ok_deref(2) [of k m a 0] m by (simp add: vma_ok_def)
  with m symrg_defined [OF m(2) assms(2)] show ?thesis
    by (auto simp: write_rg_def rd_in mm_ok_def pg_setval_def pg_getpage_inert [OF space_inert [OF assms(1)]])
qed

text \<open>The dump at the end of \<open>libwrite\<close> reads every byte of the device.\<close>

lemma dump_cells_defined:
  "random_access d \<Longrightarrow> \<forall>i\<in>set is. i < length (storage d) \<Longrightarrow> \<exists>cs. dump_cells d is v = Some (cs, d)"
proof (induction "is" arbitrary: v)
  case (Cons i "is")
  have "unat (of_nat i :: u64) \<le> i" by (simp add: unat_of_nat take_bit_eq_mod)
  then have "unat (of_nat i :: u64) < length (storage d)" using Cons.prems(2) by auto
  from ram.read_in [OF Cons.prems(1) this, of v] Cons.IH [of "storage d ! unat (of_nat i :: u64)"] Cons.prems
  show ?case by auto
qed simp

lemma dump_defined: "space_ok B M k \<Longrightarrow> \<exists>cs. MEMPHY_dump (mram k) v = Some (0, cs, mram k)"
  using dump_cells_defined [of "mram k" "[0..<nat (maxsz (mram k))]" v] by (force simp: space_ok_def ram_ok_def MEMPHY_dump_def)

section \<open>Instructions\<close>

text \<open>
  What the operands of a valid instruction satisfy. The system calls 17 and 101 have an operation,
  of which mapping and swapping are left out; \<open>B\<close> bounds the pages of the area and \<open>M\<close> the
  addresses of the RAM.
\<close>

definition memop_ok :: "nat \<Rightarrow> nat \<Rightarrow> cint \<Rightarrow> u64 \<Rightarrow> u64 \<Rightarrow> bool" where
  "memop_ok B M memop x2 x3 \<longleftrightarrow> memop \<noteq> SYSMEM_MAP_OP \<and> memop \<noteq> SYSMEM_SWP_OP \<and>
     (memop = SYSMEM_INC_OP \<longrightarrow> sint (u64_to_int x2) \<le> 0 \<and> unat x3 < B * 4096) \<and>
     (memop = SYSMEM_IO_READ \<or> memop = SYSMEM_IO_WRITE \<longrightarrow> unat x2 < M)"

definition ins_ok :: "nat \<Rightarrow> nat \<Rightarrow> inst_t \<Rightarrow> bool" where
  "ins_ok B M ins \<longleftrightarrow> (case opcode ins of
     CALC \<Rightarrow> True
   | ALLOC \<Rightarrow> unat (ucast (arg_1 ins) :: u32) < 30 \<and> unat (arg_0 ins) < 2 ^ 31 \<and> unat (arg_0 ins) < B * 4096
   | FREE \<Rightarrow> (ucast (arg_0 ins) :: u32) \<noteq> 30
   | READ \<Rightarrow> (ucast (arg_0 ins) :: u32) \<noteq> 30
   | WRITE \<Rightarrow> (ucast (arg_1 ins) :: u32) \<noteq> 30
   | SYSCALL \<Rightarrow> (ucast (arg_0 ins) :: u32) \<in> {17, 101} \<longrightarrow>
       memop_ok B M (u64_to_int (arg_1 ins)) (arg_2 ins) (arg_3 ins))"

text \<open>What a defined call leaves: a well-formed space and the tables it may have used.\<close>

definition goes_on :: "nat \<Rightarrow> nat \<Rightarrow> sys_t \<Rightarrow> sys_t \<Rightarrow> bool" where
  "goes_on B M s s' \<longleftrightarrow> space_ok B M (krnl s') \<and> room (krnl s) \<le> room (krnl s') + 4 * B"

lemma liballoc_defined:
  assumes "rl_ok s" "space_ok B M (krnl s)" "4 * B \<le> room (krnl s)" "procs s c \<noteq> None"
    and "unat rgid < 30" "unat sz < 2 ^ 31" "unat sz < B * 4096"
  shows "\<exists>r s'. liballoc v junk s c sz rgid = Some (r, s') \<and> goes_on B M s s'"
proof -
  from alloc_rg_defined [OF assms(1,2,4-7), of v junk] obtain ad s1
    where a: "alloc_rg v junk s c 0 rgid sz = Some (0, ad, s1)" "space_ok B M (krnl s1)" "room (krnl s1) = room (krnl s)" by blast
  obtain s2 where "lib_print ''liballoc'' s1 = Some s2" "space_ok B M (krnl s2)" "room (krnl s1) \<le> room (krnl s2) + 4 * B"
    by (rule lib_print_ok [OF a(2)]) (use a(3) assms(3) in auto)
  with a show ?thesis by (simp add: liballoc_def goes_on_def)
qed

lemma libfree_defined:
  assumes "space_ok B M (krnl s)" "4 * B \<le> room (krnl s)" "rgid \<noteq> 30"
  shows "\<exists>r s'. libfree s c rgid = Some (r, s') \<and> goes_on B M s s'"
proof -
  from free_rg_defined [OF assms(1,3), of 0] obtain r k
    where f: "free_rg (krnl s) 0 rgid = Some (r, k)" "space_ok B M k" "room k = room (krnl s)" by blast
  obtain s2 where "lib_print ''libfree'' (s\<lparr>krnl := k\<rparr>) = Some s2" "space_ok B M (krnl s2)" "room k \<le> room (krnl s2) + 4 * B"
    by (rule lib_print_ok [of B M "s\<lparr>krnl := k\<rparr>"]) (use f assms(2) in auto)
  with f show ?thesis by (simp add: libfree_def goes_on_def)
qed

lemma libread_defined:
  assumes "space_ok B M (krnl s)" "4 * B \<le> room (krnl s)" "rgid \<noteq> 30"
  shows "\<exists>r d s'. libread v s c rgid off = Some (r, d, s') \<and> goes_on B M s s'"
proof -
  from read_rg_defined [OF assms(1,3), of 0 off v] obtain r where "read_rg (krnl s) 0 rgid off v = Some (r, v, krnl s)" by blast
  moreover obtain s2 where "lib_print ''libread'' s = Some s2" "space_ok B M (krnl s2)" "room (krnl s) \<le> room (krnl s2) + 4 * B"
    by (rule lib_print_ok [OF assms(1,2)])
  ultimately show ?thesis by (simp add: libread_def goes_on_def)
qed

lemma libwrite_defined:
  assumes "space_ok B M (krnl s)" "4 * B \<le> room (krnl s)" "rgid \<noteq> 30"
  shows "\<exists>r s'. libwrite v s c b rgid off = Some (r, s') \<and> goes_on B M s s'"
proof -
  from write_rg_defined [OF assms(1,3), of off b] obtain r where w: "write_rg (krnl s) 0 rgid off b = Some (r, krnl s)" by blast
  obtain s2 where p: "lib_print ''libwrite'' s = Some s2" "space_ok B M (krnl s2)" "room (krnl s) \<le> room (krnl s2) + 4 * B"
    by (rule lib_print_ok [OF assms(1,2)])
  from dump_defined [OF p(2), of v] obtain cs where "MEMPHY_dump (mram (krnl s2)) v = Some (0, cs, mram (krnl s2))" by blast
  with w p assms(1) show ?thesis by (simp add: libwrite_def goes_on_def emit_def)
qed

lemma sys_memmap_defined:
  assumes "rl_ok s" "space_ok B M (krnl s)" "memop_ok B M (u64_to_int (a1 rs)) (a2 rs) (a3 rs)"
  shows "\<exists>r rs' s'. sys_memmap v s pd rs = Some (r, rs', s') \<and> goes_on B M s s'"
proof -
  from find_caller_cases [OF assms(1), of pd] obtain f rl where f: "find_caller s pd = Some (f, with_rl s rl)" by metis
  note ops = SYSMEM_MAP_OP_def SYSMEM_INC_OP_def SYSMEM_SWP_OP_def SYSMEM_IO_READ_def SYSMEM_IO_WRITE_def
  let ?op = "u64_to_int (a1 rs)"
  consider "f = None" | "f \<noteq> None" "?op = SYSMEM_INC_OP" | "f \<noteq> None" "?op = SYSMEM_IO_READ" | "f \<noteq> None" "?op = SYSMEM_IO_WRITE"
    | "f \<noteq> None" "?op \<notin> {SYSMEM_INC_OP, SYSMEM_IO_READ, SYSMEM_IO_WRITE}" by blast
  then show ?thesis
  proof cases
    case 1
    with f assms(2) show ?thesis by (simp add: sys_memmap_def emit_def goes_on_def)
  next
    case 2
    from inc_vma_limit_defined [OF assms(2), of "u64_to_int (a2 rs)" "a3 rs"] 2 assms(3) obtain q k
      where "inc_vma_limit (krnl s) (u64_to_int (a2 rs)) (a3 rs) = Some (q, k)" "space_ok B M k" "room k = room (krnl s)"
      by (auto simp: memop_ok_def)
    with 2 f show ?thesis by (auto simp: sys_memmap_def goes_on_def ops Let_def)
  next
    case 3
    have a: "random_access (mram (krnl s))" "unat (a2 rs) < length (storage (mram (krnl s)))"
      using 3 assms(2,3) by (auto simp: memop_ok_def space_ok_def ram_ok_def)
    from ram.read_in [OF a, of v] 3 f assms(2) show ?thesis by (auto simp: sys_memmap_def goes_on_def ops Let_def)
  next
    case 4
    have a: "random_access (mram (krnl s))" "unat (a2 rs) < length (storage (mram (krnl s)))"
      using 4 assms(2,3) by (auto simp: memop_ok_def space_ok_def ram_ok_def)
    let ?d = "(mram (krnl s))\<lparr>storage := (storage (mram (krnl s)))[unat (a2 rs) := ucast (a3 rs)]\<rparr>"
    have w: "MEMPHY_write (mram (krnl s)) (a2 rs) (ucast (a3 rs)) = Some (0, ?d)"
      using a by (simp add: MEMPHY_write_def random_access_def wr_in)
    have "space_ok B M ((krnl s)\<lparr>mram := ?d\<rparr>)"
      by (rule space_mram [OF assms(2)]) (use a(1) in \<open>simp_all add: random_access_def\<close>)
    with w 4 f show ?thesis by (auto simp: sys_memmap_def goes_on_def ops pte_of_mram Let_def)
  next
    case 5
    with f assms(2,3) show ?thesis by (simp add: sys_memmap_def goes_on_def emit_def memop_ok_def)
  qed
qed

lemma syscall_defined:
  assumes "rl_ok s" "space_ok B M (krnl s)"
    and "nr \<in> {17, 101} \<longrightarrow> memop_ok B M (u64_to_int (a1 rs)) (a2 rs) (a3 rs)"
  shows "\<exists>r rs' s'. syscall v s pd nr rs = Some (r, rs', s') \<and> goes_on B M s s'"
proof -
  from find_caller_cases [OF assms(1), of pd] obtain f rl where f: "find_caller s pd = Some (f, with_rl s rl)" by metis
  have x: "\<exists>r rs' s'. sys_xxxhandler s pd rs = Some (r, rs', s') \<and> goes_on B M s s'"
    using f assms(2) by (auto simp: sys_xxxhandler_def emit_def goes_on_def Let_def)
  have l: "\<exists>r rs' s'. sys_listsyscall s pd rs = Some (r, rs', s') \<and> goes_on B M s s'"
    "\<exists>r rs' s'. sys_ni_syscall s rs = Some (r, rs', s') \<and> goes_on B M s s'"
    using assms(2) by (simp_all add: sys_listsyscall_def sys_ni_syscall_def emit_def goes_on_def)
  from x l sys_memmap_defined [OF assms(1,2), of rs v pd] assms(3) show ?thesis
    by (auto simp: syscall_def syscall_tbl_def)
qed

text \<open>Every valid instruction is defined.\<close>

lemma run_defined:
  assumes "rl_ok s" "space_ok B M (krnl s)" "4 * B \<le> room (krnl s)" "procs s proc = Some p"
    and "pc p < csize (code p) \<longrightarrow> unat (pc p) < length (ctext (code p)) \<and> ins_ok B M (ctext (code p) ! unat (pc p))"
  shows "\<exists>r s'. run v junk s proc = Some (r, s') \<and> goes_on B M s s'"
proof (cases "csize (code p) \<le> pc p")
  case True
  with assms(2,4) show ?thesis by (simp add: run_def goes_on_def)
next
  case False
  let ?ins = "ctext (code p) ! unat (pc p)" and ?s = "set_pcb proc (p\<lparr>pc := pc p + 1\<rparr>) s"
  from False assms(5) have i: "rd (ctext (code p)) (unat (pc p)) = Some ?ins" and ok: "ins_ok B M ?ins"
    by (simp_all add: rd_in)
  have s: "rl_ok ?s" "space_ok B M (krnl ?s)" "4 * B \<le> room (krnl ?s)" "procs ?s proc \<noteq> None"
    using assms(1-3) by (auto simp: rl_ok_def all_alive_def)
  have g: "goes_on B M ?s s' \<Longrightarrow> goes_on B M s s'" for s' by (simp add: goes_on_def)
  show ?thesis
  proof (cases "opcode ?ins")
    case CALC
    with i assms(2,4) False show ?thesis by (simp add: run_def goes_on_def)
  next
    case ALLOC
    with ok liballoc_defined [OF s, of "ucast (arg_1 ?ins)" "arg_0 ?ins" v junk] i assms(4) False g show ?thesis
      by (auto simp: run_def ins_ok_def)
  next
    case FREE
    with ok libfree_defined [OF s(2,3), of "ucast (arg_0 ?ins)" proc] i assms(4) False g show ?thesis
      by (auto simp: run_def ins_ok_def)
  next
    case READ
    with ok libread_defined [OF s(2,3), of "ucast (arg_0 ?ins)" v proc "arg_1 ?ins"] i assms(4) False g show ?thesis
      by (fastforce simp: run_def ins_ok_def)
  next
    case WRITE
    with ok libwrite_defined [OF s(2,3), of "ucast (arg_1 ?ins)" v proc "ucast (arg_0 ?ins)" "arg_2 ?ins"] i assms(4) False g
    show ?thesis by (auto simp: run_def ins_ok_def)
  next
    case SYSCALL
    from s(4) obtain b where b: "procs ?s proc = Some b" by blast
    with SYSCALL ok syscall_defined [OF s(1,2), of "ucast (arg_0 ?ins)"
        "\<lparr>a1 = arg_1 ?ins, a2 = arg_2 ?ins, a3 = arg_3 ?ins\<rparr>" v "pid b"] i assms(4) False g show ?thesis
      by (fastforce simp: run_def ins_ok_def libsyscall_def)
  qed
qed

section \<open>Programs\<close>

definition prog_ok :: "nat \<Rightarrow> nat \<Rightarrow> code_seg_t \<Rightarrow> bool" where
  "prog_ok B M c \<longleftrightarrow> unat (csize c) \<le> length (ctext c) \<and> list_all (ins_ok B M) (ctext c)"

lemma prog_ok_next: "prog_ok B M (code p) \<Longrightarrow>
    pc p < csize (code p) \<longrightarrow> unat (pc p) < length (ctext (code p)) \<and> ins_ok B M (ctext (code p) ! unat (pc p))"
  by (auto simp: prog_ok_def word_less_nat_alt list_all_length)


text \<open>A program that allocates, writes, reads and frees.\<close>

definition mem_prog :: "inst_t list" where
  "mem_prog = [\<lparr>opcode = ALLOC, arg_0 = 300, arg_1 = 1, arg_2 = 0, arg_3 = 0\<rparr>,
     \<lparr>opcode = WRITE, arg_0 = 5, arg_1 = 1, arg_2 = 20, arg_3 = 0\<rparr>,
     \<lparr>opcode = READ, arg_0 = 1, arg_1 = 20, arg_2 = 2, arg_3 = 0\<rparr>,
     \<lparr>opcode = FREE, arg_0 = 1, arg_1 = 0, arg_2 = 0, arg_3 = 0\<rparr>]"

definition mem_pcb :: pcb_t where
  "mem_pcb = (demo_pcb 1 138)\<lparr>code := \<lparr>ctext = mem_prog, csize = 4\<rparr>\<rparr>"

lemma space_fresh: "space_ok 1 3 fresh_krnl"
  using wf_fresh_krnl by (simp add: space_ok_def ram_ok_def mm_ok_def vma_ok_def fresh_krnl_def fresh_mm_def fresh_vma_def
      demo_krnl_def demo_mem_def random_access_def)


end
