(* ===== verification/Single.thy ===== *)
theory Single
  imports Threads Progress
begin

text \<open>
  A configuration with one process. Nothing that the process uses while it is on a processor is used by another
  thread: the loader is between entries or has ended, and the other processors hold no process. Its
  program may call everything but ALLOC, and it and the threads around it never meet undefined
  behaviour, from the start of the program to the end. (ALLOC searches the list of free regions, whose
  tail \<open>init_mm\<close> leaves uninitialised. Mapping and swapping, by system call, are left out, too.)
\<close>

section \<open>Valid inputs\<close>

text \<open>
  The area of a process has at most \<open>PAGES\<close> pages, so that not even a program of \<open>2 ^ 32\<close> instructions
  that all print the directory uses up the page tables.
\<close>

definition PAGES :: nat where "PAGES = 2 ^ 17"

definition single_ins :: "nat \<Rightarrow> inst_t \<Rightarrow> bool" where
  "single_ins M ins \<longleftrightarrow> ins_ok PAGES M ins \<and> opcode ins \<noteq> ALLOC"

text \<open>One process, and what the configuration must satisfy anyway.\<close>

definition single_setup :: "config \<Rightarrow> (string \<Rightarrow> string option) \<Rightarrow> bool" where
  "single_setup cfg fs \<longleftrightarrow> num_processes cfg \<le> 1 \<and> setup_ok (single_ins (nat (memramsz cfg))) cfg fs"

abbreviation one_process :: "config \<Rightarrow> config" where
  "one_process cfg \<equiv> cfg\<lparr>num_processes := min 1 (num_processes cfg)\<rparr>"

lemma single_setup_one: "single_setup cfg fs \<Longrightarrow> one_process cfg = cfg \<and> setup_ok (single_ins (nat (memramsz cfg))) cfg fs"
  by (simp add: single_setup_def)

text \<open>The instructions that are loaded are valid when the printed ones are.\<close>

lemma ins_ok_same:
  assumes "opcode t = opcode u" "used_args t = used_args u"
  shows "ins_ok B M t = ins_ok B M u"
proof -
  have "case opcode u of CALC \<Rightarrow> True | ALLOC \<Rightarrow> arg_0 t = arg_0 u \<and> arg_1 t = arg_1 u
      | FREE \<Rightarrow> arg_0 t = arg_0 u | READ \<Rightarrow> arg_0 t = arg_0 u | WRITE \<Rightarrow> arg_1 t = arg_1 u
      | SYSCALL \<Rightarrow> arg_0 t = arg_0 u \<and> arg_1 t = arg_1 u \<and> arg_2 t = arg_2 u \<and> arg_3 t = arg_3 u"
    using assms by (cases "opcode u") (simp_all add: used_args_def numeral_eq_Suc)
  with assms(1) show ?thesis by (cases "opcode u") (simp_all add: ins_ok_def)
qed

lemma single_ins_operands: "operand_cond (single_ins M)"
  unfolding operand_cond_def single_ins_def using ins_ok_same by metis

section \<open>The condition\<close>

text \<open>The address space that \<open>init_mm\<close> makes.\<close>

lemma fresh_space_ok:
  assumes "tables k = []" "ram_ok M (mram k)"
  shows "space_ok PAGES M (snd (init_mm k False False rgs))" "length (tables (snd (init_mm k False False rgs))) = 4"
proof -
  have len: "length (tables k) + 4 \<le> MAX_TABLES" using assms(1) by (simp add: MAX_TABLES_def)
  let ?h = "replicate 4 (replicate 512 0) :: u64 list list" and ?r = "1 :: u64"
  have "tab_rd ?h ?r i = Some 0" if "unat i < 512" for i
    using that by (auto simp: tab_rd_def rd_def nth_append nth_Cons')
  moreover have "valid_tab ?h ?r" by (auto simp: valid_tab_def)
  moreover have "full_tabs ?h" by (auto simp: full_tabs_def)
  ultimately have "dir_ok ?h ?r" by (intro dir_ok_zero_root) (simp_all add: MAX_TABLES_def)
  with assms show "space_ok PAGES M (snd (init_mm k False False rgs))"
    by (simp add: init_mm_eq [OF len] space_ok_def wf_dir_def mm_ok_def vma_ok_def PAGES_def)
  show "length (tables (snd (init_mm k False False rgs))) = 4" using assms(1) by (simp add: init_mm_eq [OF len])
qed

definition list_alive :: "sys_t \<Rightarrow> bool" where
  "list_alive y \<longleftrightarrow> all_alive (procs y) (contents (running_list (sched y)))"

text \<open>The page tables that were allocated are paid for by the instructions that were executed.\<close>

definition tables_paid :: "sys_t \<Rightarrow> bool" where
  "tables_paid y \<longleftrightarrow> (\<forall>p b. procs y p = Some b \<longrightarrow> length (tables (krnl y)) \<le> 4 + 4 * PAGES * unat (pc b))"

definition single_ok :: "nat \<Rightarrow> nat \<Rightarrow> sys_t \<Rightarrow> bool" where
  "single_ok M n y \<longleftrightarrow> (if n = 0 then mm (krnl y) = None \<and> tables (krnl y) = [] \<and> ram_ok M (mram (krnl y)) \<and> list_alive y
     else space_ok PAGES M (krnl y) \<and> (procs y = Map.empty \<or> list_alive y \<and> tables_paid y))"

lemma paid_room: "tables_paid y \<Longrightarrow> procs y p = Some b \<Longrightarrow> 4 * PAGES \<le> room (krnl y)"
proof -
  assume "tables_paid y" "procs y p = Some b"
  then have "length (tables (krnl y)) \<le> 4 + 4 * PAGES * unat (pc b)" by (simp add: tables_paid_def)
  moreover have "unat (pc b) < 2 ^ 32" by (rule unat_u32_less)
  ultimately show ?thesis by (simp add: PAGES_def room_def MAX_TABLES_def)
qed

text \<open>An instruction of the only process.\<close>

lemma single_run:
  assumes "space_ok PAGES M (krnl y)" "list_alive y" "tables_paid y" "wf_sched (sched y)" "dom (procs y) = {p}" "procs y p = Some b"
    and "pc b < csize (code b) \<longrightarrow> unat (pc b) < length (ctext (code b)) \<and> single_ins M (ctext (code b) ! unat (pc b))"
  shows "\<exists>r y'. run v junk y p = Some (r, y') \<and> space_ok PAGES M (krnl y') \<and> list_alive y' \<and> tables_paid y'"
proof -
  have rl: "rl_ok y" using assms(2,4) by (simp add: rl_ok_def list_alive_def wf_sched_def)
  have "pc b < csize (code b) \<longrightarrow> unat (pc b) < length (ctext (code b)) \<and> ins_ok PAGES M (ctext (code b) ! unat (pc b))"
    using assms(7) by (simp add: single_ins_def)
  from run_defined [OF rl assms(1) paid_room [OF assms(3,6)] assms(6) this, of v junk] obtain r y'
    where r: "run v junk y p = Some (r, y')" "space_ok PAGES M (krnl y')" "room (krnl y) \<le> room (krnl y') + 4 * PAGES"
    by (auto simp: goes_on_def)
  have alive: "list_alive y'" using same_queues_rl [OF queues.run_rel [OF r(1) assms(6) rl]] by (simp add: rl_ok_def list_alive_def)
  have old: "length (tables (krnl y)) \<le> 4 + 4 * PAGES * unat (pc b)" using assms(3,6) by (simp add: tables_paid_def)
  have "tables_paid y'"
  proof (cases "csize (code b) \<le> pc b")
    case True
    with r(1) assms(6) have "y' = y" by (simp add: run_def)
    with assms(3) show ?thesis by simp
  next
    case False
    with run_procs [OF r(1) assms(6)] have p: "procs y' = (procs y)(p \<mapsto> b\<lparr>pc := pc b + 1\<rparr>)" by simp
    have less: "unat (pc b) < unat (csize (code b))" using False by (simp add: word_le_nat_alt)
    then have "unat (pc b + 1) = Suc (unat (pc b))"
      using unat_u32_less [of "csize (code b)"] by (simp add: unat_word_ariths)
    moreover have "length (tables (krnl y')) \<le> length (tables (krnl y)) + 4 * PAGES"
      using r(2,3) by (auto simp: room_def space_ok_def wf_dir_def dir_ok_def split: option.splits)
    ultimately have new: "length (tables (krnl y')) \<le> 4 + 4 * PAGES * unat (pc b + 1)" using old by simp
    have "pc c = pc b + 1" if "procs y' q = Some c" for q c
      using that p assms(5) by (auto simp: domIff split: if_splits)
    with new show ?thesis unfolding tables_paid_def by metis
  qed
  with r(1,2) alive show ?thesis by blast
qed

lemma boot_ram:
  assumes "0 \<le> memramsz cfg" "memramsz cfg < 2 ^ 31"
  shows "ram_ok (nat (memramsz cfg)) (mram (krnl (osys (wos (boot cfg m0 j0 m1 j1)))))"
proof -
  have m: "unat (word_of_int (memramsz cfg) :: u64) = nat (memramsz cfg)"
  proof -
    have "uint (word_of_int (memramsz cfg) :: u64) = memramsz cfg"
      using assms by (simp add: uint_word_of_int_eq take_bit_int_eq_self)
    then show ?thesis by (metis nat_uint_eq)
  qed
  moreover have "nat (memramsz cfg) < 2 ^ 31" using assms by (simp add: nat_less_iff)
  ultimately have "unat (word_of_int (memramsz cfg) :: u64) < 2 ^ 31" by simp
  from init_memphy_frames [OF this, of m0 1 j0] m show ?thesis
    by (simp add: ram_ok_def random_access_def boot_def Let_def)
qed

interpretation single: safe_kernel "single_ins (nat (memramsz cfg))" "single_ok (nat (memramsz cfg))" "one_process cfg" fs
proof
  show "operand_cond (single_ins (nat (memramsz cfg)))" by (rule single_ins_operands)
next
  fix m0 j0 m1 j1
  assume "setup_ok (single_ins (nat (memramsz cfg))) (one_process cfg) fs"
  with boot_ram [of "one_process cfg" m0 j0 m1 j1]
  show "single_ok (nat (memramsz cfg)) 0 (osys (wos (boot (one_process cfg) m0 j0 m1 j1)))"
    by (simp add: setup_ok_def single_ok_def list_alive_def all_alive_def boot_def init_scheduler_def
        zero_sched_def contents_def Let_def)
next
  fix n y p
  assume "single_ok (nat (memramsz cfg)) n y" "wf_sched (sched y)" "procs y p \<noteq> None"
  then show "single_ok (nat (memramsz cfg)) n (y\<lparr>sched := list_running p (sched y)\<rparr>)"
    by (auto simp: single_ok_def list_alive_def tables_paid_def all_alive_def list_running_def contents_enqueue wf_sched_def)
next
  fix n y p b
  assume "single_ok (nat (memramsz cfg)) n y" "int n < num_processes (one_process cfg)"
  then show "single_ok (nat (memramsz cfg)) n (set_pcb p b y)"
    by (auto simp: single_ok_def list_alive_def all_alive_def set_pcb_def)
next
  fix n y
  assume "single_ok (nat (memramsz cfg)) n y" "int n < num_processes (one_process cfg)"
  then show "single_ok (nat (memramsz cfg)) n (y\<lparr>krnl := (krnl y)\<lparr>mm := None\<rparr>\<rparr>)"
    by (simp add: single_ok_def list_alive_def)
next
  fix n y rgs
  assume "single_ok (nat (memramsz cfg)) n y" "int n < num_processes (one_process cfg)"
  then have "n = 0" "tables (krnl y) = []" "ram_ok (nat (memramsz cfg)) (mram (krnl y))" "list_alive y"
    by (auto simp: single_ok_def)
  with fresh_space_ok [OF this(2,3)] show "single_ok (nat (memramsz cfg)) (Suc n) (y\<lparr>krnl := snd (init_mm (krnl y) False False rgs)\<rparr>)"
    by (simp add: single_ok_def list_alive_def tables_paid_def)
next
  fix n y p
  assume "single_ok (nat (memramsz cfg)) n y" "lonely (one_process cfg) y p"
  then have "inert (krnl y)" "dom (procs y) = {p}" by (auto simp: lonely_def)
  with \<open>single_ok (nat (memramsz cfg)) n y\<close> show "single_ok (nat (memramsz cfg)) n (y\<lparr>procs := (procs y)(p := None)\<rparr>)"
    by (auto simp: single_ok_def inert_def fun_eq_iff domIff)
next
  fix n y p b v junk
  assume y: "single_ok (nat (memramsz cfg)) n y" "lonely (one_process cfg) y p" "wf_sched (sched y)" "procs y p = Some b"
    and "pc b < csize (code b) \<longrightarrow> unat (pc b) < length (ctext (code b)) \<and>
      single_ins (nat (memramsz cfg)) (ctext (code b) ! unat (pc b))"
  moreover from y(2) have "inert (krnl y)" "dom (procs y) = {p}" by (auto simp: lonely_def)
  moreover from this(1) y(1,4) have "n \<noteq> 0" "space_ok PAGES (nat (memramsz cfg)) (krnl y)" "list_alive y" "tables_paid y"
    by (auto simp: single_ok_def inert_def split: if_splits)
  ultimately show "\<exists>r y'. run v junk y p = Some (r, y') \<and> single_ok (nat (memramsz cfg)) n y'"
    using single_run [of "nat (memramsz cfg)" y p b v junk] by (auto simp: single_ok_def)
qed (auto simp: single_ok_def list_alive_def tables_paid_def)

section \<open>Properties\<close>

text \<open>
  C11: a program with one process never meets undefined behaviour and never gets stuck. For a configuration of
  at most one process whose arrays are long enough, with a positive time slot, a priority in range and a
  program file whose instructions have valid operands and are not ALLOC and not system calls
  that map or swap: in every state the program can reach, before, while and after the process runs, however
  its threads interleave and whatever uninitialised variables and fresh memory hold, the next step
  of every processor and of the loader is defined, and a thread can take a step by itself unless
  all threads have ended and the timer has exited. This does not rest on the instructions being single steps: while
  a processor holds the process, the loader is between two entries (so not at the allocation and the initialisation of the
  address space, which take no lock) or has ended, and no other processor holds one.
\<close>
theorem threads_are_defined:
  assumes "single_setup cfg fs" "reach (world_init cfg) (wstep cfg fs) w"
  shows "((i < length (wcpus w) \<and> cpu_pc (wcpus w ! i) \<noteq> At_end \<longrightarrow>
        (\<exists>x. cpu_routine (time_slot cfg) v junk i (wcpus w ! i) (wos w) = Some x)) \<and>
      (ld_pc (wld w) \<noteq> Ld_end \<longrightarrow> (\<exists>x. ld_routine cfg fs p mem cell rgs now (wld w) (wos w) = Some x))) \<and>
    ((\<exists>a w'. thread_step a \<and> wstep cfg fs w a w') \<or> all_ended w \<and> phase (wtm w) = Exited) \<and>
    (i < length (wcpus w) \<and> cproc (wcpus w ! i) \<noteq> None \<longrightarrow> ld_pc (wld w) \<in> {Ld_top, Ld_end} \<and>
      (\<forall>j < length (wcpus w). j \<noteq> i \<longrightarrow> cproc (wcpus w ! j) = None))"
proof -
  note s = single_setup_one [OF assms(1)]
  note one = single.threads_defined [of cfg fs, unfolded conjunct1 [OF s], OF conjunct2 [OF s] assms(2)]
    and stuck = single.not_stuck [of cfg fs, unfolded conjunct1 [OF s], OF conjunct2 [OF s] assms(2)]
  have n: "num_processes cfg \<le> 1" using assms(1) by (simp add: single_setup_def)
  show ?thesis
    using one stuck kept_alone(1,4) [OF kept.reach_inv [OF assms(2)] n] by (intro conjI) blast+
qed

lemma demo_setup: "n \<le> 1 \<Longrightarrow> single_setup (demo_cfg n) demo_fs"
proof -
  assume n: "n \<le> 1"
  have "list_all (single_ins 1024) demo_prog"
    by (simp add: demo_prog_def single_ins_def ins_ok_def memop_ok_def SYSMEM_MAP_OP_def SYSMEM_SWP_OP_def SYSMEM_INC_OP_def
        SYSMEM_IO_READ_def SYSMEM_IO_WRITE_def u64_to_int_def)
  then have "text_ok (single_ins 1024) (show_prog 1 demo_prog)"
    unfolding text_ok_def by (intro exI [of _ 1] exI [of _ demo_prog]) (simp add: demo_prog_def)
  with n show ?thesis by (simp add: single_setup_def setup_ok_def demo_cfg_def demo_fs_def MAX_PRIO_def)
qed

theorem threads_are_defined_witness:
  "\<exists>(w :: world) x y p. cproc (wcpus w ! 0) = Some p \<and>
     cpu_routine (time_slot (demo_cfg 1)) 7 zero_rg 0 (wcpus w ! 0) (wos w) = Some x \<and>
     ld_routine (demo_cfg 1) demo_fs 1 legacy_pcb (\<lambda>_. hd demo_prog) [] 0 (wld w) (wos w) = Some y"
proof -
  obtain w p where w: "reach (world_init (demo_cfg 1)) (wstep (demo_cfg 1) demo_fs) w"
    "wcpus w = [cpu_start\<lparr>cproc := Some p, cpu_pc := At_check\<rparr>]" "ld_pc (wld w) = Ld_top"
    by (rule demo_dispatched)
  from threads_are_defined [OF demo_setup w(1), of 0 7 zero_rg 1 legacy_pcb "\<lambda>_. hd demo_prog" "[]" 0] w(2,3)
  obtain x y where "cpu_routine (time_slot (demo_cfg 1)) 7 zero_rg 0 (wcpus w ! 0) (wos w) = Some x"
    "ld_routine (demo_cfg 1) demo_fs 1 legacy_pcb (\<lambda>_. hd demo_prog) [] 0 (wld w) (wos w) = Some y" by auto
  with w(2) show ?thesis by (intro exI [of _ w] exI [of _ x] exI [of _ y] exI [of _ p]) simp
qed

end
