(* ===== verification/Completion.thy ===== *)
theory Completion
  imports Local Single
begin

text \<open>
  All programs end: with at most 50 processes and at least one processor, a run of the threads, however
  they are scheduled, comes to a state in which the loader has ended and every process has been executed to
  its end and freed.
\<close>

section \<open>The clock and the devices\<close>

lemma done_clock_iff:
  assumes "tstep t a t'" "a = Timer_thread \<or> a = Spurious \<or> (\<exists>d. a = Dev d \<and> dev_at t d Arrived)"
    and "clock t' = clock t"
  shows "done_dev t' d \<longleftrightarrow> done_dev t d"
  using assms(1)
proof (cases rule: tstep.cases)
  case timer
  from timer(2) show ?thesis using assms(3)
    by (cases rule: timer_routine_cases)
       (auto simp: done_dev_def pending_def nth_list_update signal_timer_def split: if_splits)
next
  case (announce i)
  with assms(2) show ?thesis by (simp add: dev_at_def)
next
  case (detach i)
  with assms(2) show ?thesis by (simp add: dev_at_def)
next
  case (wait_turn i)
  then show ?thesis by (auto simp: next_slot_wait_def dev_at_def nth_list_update Let_def done_dev_def pending_def)
next
  case (wake_dev i)
  then show ?thesis by (auto simp: spurious_dev_def dev_at_def nth_list_update signal_timer_def done_dev_def pending_def)
next
  case wake_timer
  then show ?thesis by (auto simp: spurious_timer_def done_dev_def pending_def split: tphase.splits)
qed (use assms(2) in auto)

text \<open>When the clock ticks every device has announced the end of its slot or has detached, and the next slot has no such device.\<close>

lemma tick_devs:
  assumes "timer_routine t = Some t'" "clock t' \<noteq> clock t" "tinv t"
  shows "t' = t\<lparr>clock := clock t + 1, phase := phase t'\<rparr>" "\<not> done_dev t' d"
    "d < length (dev_list t) \<Longrightarrow> at (dev_list t ! d) \<noteq> Detached \<Longrightarrow> done_dev t d"
    "d < length (dev_list t) \<Longrightarrow> at (dev_list t ! d) \<noteq> Running"
proof -
  from assms(1,2) obtain i f e where s: "phase t = Scan i f e" "\<not> i < length (dev_list t)"
    "t' = t\<lparr>clock := clock t + 1, phase := Wake 0 f e\<rparr>"
    by (cases rule: timer_routine_cases) auto
  from s(3) show "t' = t\<lparr>clock := clock t + 1, phase := phase t'\<rparr>" "\<not> done_dev t' d"
    by (simp_all add: done_dev_def pending_def)
  from assms(3) s(1) have sc: "scanned (dev_list t) i f e" by (simp add: tinv_def phase_ok_def)
  assume d: "d < length (dev_list t)"
  with scanned_all(2) [OF sc s(2)] have e: "ev_done (dev_list t ! d) \<or> ev_fsh (dev_list t ! d)" by blast
  note f = tinv_flags(1,2) [OF assms(3) nth_mem [OF d]]
  from e f s(1) show "at (dev_list t ! d) \<noteq> Detached \<Longrightarrow> done_dev t d" "at (dev_list t ! d) \<noteq> Running"
    using d by (auto simp: done_dev_def pending_def)
qed

section \<open>Somebody takes care of the queues\<close>

text \<open>\<open>get_proc\<close> returns no process only when there is none.\<close>

lemma waiting_none: "wf_sched s \<Longrightarrow> \<forall>i<MAX_PRIO. level s i = [] \<Longrightarrow> waiting s = {#}"
proof -
  assume "wf_sched s" "\<forall>i<MAX_PRIO. level s i = []"
  then have "map (mset \<circ> contents) (mlq_ready_queue s) = map (\<lambda>_. {#}) (mlq_ready_queue s)"
    by (auto simp: wf_sched_def level_def in_set_conv_nth)
  then have "waiting s = sum_list (map (\<lambda>_. {#}) (mlq_ready_queue s))" unfolding waiting_def by (rule arg_cong)
  then show ?thesis by simp
qed

lemma no_fetch:
  assumes "fetch s = (None, s')" "wf_sched (sched (osys s))"
  shows "waiting (sched (osys s)) = {#}" "waiting (sched (osys s')) = {#}"
proof -
  have g: "fst (get_mlq_proc (sched (osys s))) = None"
    using assms(1) by (simp add: fetch_def get_proc_def case_prod_beta Let_def)
  have "waiting (sched (osys s)) = {#}"
    using assms(2)
  proof (cases rule: get_mlq_cases)
    case none
    with assms(2) show ?thesis by (simp add: waiting_none)
  next
    case (budget h)
    with g serve_result(1) [OF assms(2) budget(1,2)] show ?thesis by simp
  next
    case (turn h n)
    with g serve_result(1) [OF assms(2) turn(6,7)] show ?thesis by simp
  qed
  with fetch_facts(2) [OF assms] show "waiting (sched (osys s)) = {#}" "waiting (sched (osys s')) = {#}" by simp_all
qed

text \<open>A processor that holds a process or is going to fetch one in this slot.\<close>

definition busy :: "world \<Rightarrow> nat \<Rightarrow> bool" where
  "busy w i \<longleftrightarrow> (let c = wcpus w ! i in cproc c \<noteq> None \<or> cpu_pc c = At_get \<or> cpu_pc c = At_top \<and> \<not> done_dev (wtm w) (dev_of w i))"

definition attended :: "world \<Rightarrow> bool" where
  "attended w \<longleftrightarrow> waiting (sched (osys (wos w))) = {#} \<or> ld_pc (wld w) \<noteq> Ld_end \<and> done_dev (wtm w) 0 \<or>
     (\<exists>i < length (wcpus w). busy w i)"

text \<open>Where the loader is.\<close>

definition ld_inv :: "config \<Rightarrow> world \<Rightarrow> bool" where
  "ld_inv cfg w \<longleftrightarrow> (ld_done (wos w) \<longleftrightarrow> ld_pc (wld w) = Ld_end) \<and>
     (ld_pc (wld w) = Ld_end \<longrightarrow> ld_proc (wld w) = None) \<and>
     ((\<exists>c\<in>set (wcpus w). cpu_pc c = At_end) \<longrightarrow> ld_pc (wld w) = Ld_end) \<and>
     (ld_pc (wld w) = Ld_wait \<and> done_dev (wtm w) 0 \<longrightarrow> clock (wtm w) < ld_start_time cfg ! ld_i (wld w))"

text \<open>No process has run past the end of its program.\<close>

definition pc_inv :: "world \<Rightarrow> bool" where
  "pc_inv w \<longleftrightarrow> (\<forall>p b. procs (osys (wos w)) p = Some b \<longrightarrow> pc b \<le> csize (code b))"


section \<open>The invariants are kept\<close>

lemma cpu_attends:
  assumes "cpu_routine k v junk i c s = Some (c', s', g)" "wf_sched (sched (osys s))"
  shows "cproc c' \<noteq> None \<or> cpu_pc c' = At_get \<or> waiting (sched (osys s')) = {#} \<or>
    cproc c = None \<and> cpu_pc c = At_check \<and> waiting (sched (osys s')) = waiting (sched (osys s))"
proof (cases "cpu_pc c")
  case At_top
  show ?thesis
  proof (cases "cproc c")
    case None
    obtain q s1 where f: "fetch s = (q, s1)" by (cases "fetch s")
    with assms(1) At_top None no_fetch(2) [OF _ assms(2)] show ?thesis
      by (cases q) (auto simp: cpu_routine_def cpu_top_def)
  qed (use assms(1) At_top in \<open>auto simp: cpu_routine_def cpu_top_def bind_eq_Some_conv split: if_splits\<close>)
next
  case At_get
  obtain q s1 where f: "fetch s = (q, s1)" by (cases "fetch s")
  with assms(1) At_get no_fetch(2) [OF _ assms(2)] show ?thesis
    by (cases q) (auto simp: cpu_routine_def cpu_get_def)
qed (use assms(1) in \<open>auto simp: cpu_routine_def cpu_put_def cpu_check_def cpu_exec_def bind_eq_Some_conv split: option.splits if_splits\<close>)

lemma busy_other:
  assumes "j \<noteq> i" "i < length (wcpus w)" "j < length (wcpus w)"
  shows "busy (w\<lparr>wos := s, wcpus := (wcpus w)[i := c], wtm := notify g (dev_of w i) (wtm w)\<rparr>) j = busy w j"
proof -
  have "dev_of w j \<noteq> dev_of w i" using assms by (auto simp: dev_of_def)
  with assms(1) show ?thesis by (simp add: busy_def dev_of_def done_notify_other Let_def)
qed

lemma cpu_attended:
  assumes "attended w" "winv w" "i < length (wcpus w)"
    and "cpu_routine k v junk i (wcpus w ! i) (wos w) = Some (c, s, g)"
  shows "attended (w\<lparr>wos := s, wcpus := (wcpus w)[i := c], wtm := notify g (dev_of w i) (wtm w)\<rparr>)" (is "attended ?w")
proof -
  have wf: "wf_sched (sched (osys (wos w)))" using assms(2) by (simp add: winv_def owner_inv_def)
  from cpu_attends [OF assms(4) wf] consider "cproc c \<noteq> None \<or> cpu_pc c = At_get" | "waiting (sched (osys s)) = {#}"
    | "cproc (wcpus w ! i) = None" "cpu_pc (wcpus w ! i) = At_check" "waiting (sched (osys s)) = waiting (sched (osys (wos w)))" by fast
  then show ?thesis
  proof cases
    case 1
    with assms(3) have "busy ?w i" by (auto simp: busy_def Let_def)
    with assms(3) show ?thesis by (auto simp: attended_def)
  next
    case 2
    then show ?thesis by (simp add: attended_def)
  next
    case 3
    then have "\<not> busy w i" by (simp add: busy_def Let_def)
    then have "busy ?w j" if "busy w j" "j < length (wcpus w)" for j
      using that assms(3) busy_other [where j = j and i = i and w = w and s = s and c = c and g = g] by (cases "j = i") auto
    moreover have "done_dev (wtm ?w) 0 = done_dev (wtm w) 0" using assms(3) by (simp add: done_notify_other dev_of_def)
    ultimately show ?thesis using assms(1) 3(3) by (auto simp: attended_def)
  qed
qed


lemma ld_waiting_same:
  assumes "ld_routine cfg fs p mem cell rgs now l s = Some (l', s', g)" "wf_sched (sched (osys s))" "ld_pc l \<noteq> Ld_queue"
  shows "waiting (sched (osys s')) = waiting (sched (osys s))"
proof (cases "ld_pc l")
  case Ld_top
  with assms(1) have "ld_load cfg fs p mem cell l s = Some (l', s', g)" by (simp add: ld_routine_def)
  then show ?thesis by (cases rule: ld_load_cases) simp_all
next
  case Ld_wait
  with assms(1) ld_waiting_keeps(1) [of cfg now l s l' s' g] show ?thesis by (simp add: ld_routine_def)
next
  case Ld_init
  with assms(1) ld_memory_keeps(1) [of cfg rgs l s l' s' g] show ?thesis by (simp add: ld_routine_def)
next
  case Ld_add
  with assms(1,2) ld_add_keeps(6) [of l s l' s' g] show ?thesis by (simp add: ld_routine_def)
qed (use assms(1,3) in \<open>simp_all add: ld_routine_def\<close>)

lemma busy_loader:
  "i < length (wcpus w) \<Longrightarrow> busy (w\<lparr>wos := s, wld := l, wtm := notify g 0 (wtm w)\<rparr>) i = busy w i"
  by (simp add: busy_def dev_of_def done_notify_other Let_def)

lemma ld_attended:
  assumes "attended w" "winv w" "dev_at (wtm w) 0 Running"
    and "ld_routine cfg fs p mem cell rgs now (wld w) (wos w) = Some (l, s, g)"
  shows "attended (w\<lparr>wos := s, wld := l, wtm := notify g 0 (wtm w)\<rparr>)" (is "attended ?w")
proof -
  have inv: "tinv (wtm w)" "wf_sched (sched (osys (wos w)))" using assms(2) by (simp_all add: winv_def owner_inv_def)
  show ?thesis
  proof (cases "ld_pc (wld w) = Ld_queue")
    case True
    with assms(4) have "g = Next_slot" "ld_pc l = Ld_top" by (auto simp: ld_routine_def ld_queue_def bind_eq_Some_conv)
    with done_announced [OF inv(1) assms(3)] show ?thesis by (simp add: attended_def)
  next
    case False
    from running_not_done [OF inv(1) assms(3)] assms(1) ld_waiting_same [OF assms(4) inv(2) False] busy_loader [where w = w and s = s and l = l and g = g]
    show ?thesis by (auto simp: attended_def)
  qed
qed

lemma tick_world:
  assumes "timer_routine (wtm w) = Some t" "clock t \<noteq> clock (wtm w)" "winv w" "barrier_inv w" "ended_inv w"
  shows "i < length (wcpus w) \<Longrightarrow> cpu_pc (wcpus w ! i) = At_end \<or>
      cpu_pc (wcpus w ! i) = At_top \<and> done_dev (wtm w) (dev_of w i)"
    and "ld_pc (wld w) = Ld_end \<or> ld_pc (wld w) \<in> {Ld_top, Ld_wait} \<and> done_dev (wtm w) 0"
proof -
  have inv: "tinv (wtm w)" using assms(3) by (simp add: winv_def)
  note tick = tick_devs [OF assms(1,2) inv]
  have "phase (wtm w) \<noteq> Exited" using assms(1) by (auto simp: timer_routine_def)
  then have len: "length (dev_list (wtm w)) = Suc (length (wcpus w))" using assms(4) by (simp add: barrier_inv_def)
  then have ne: "dev_list (wtm w) \<noteq> []" by auto
  show "ld_pc (wld w) = Ld_end \<or> ld_pc (wld w) \<in> {Ld_top, Ld_wait} \<and> done_dev (wtm w) 0"
    using assms(4,5) ne len tick(3,4) [of 0] by (auto simp: barrier_inv_def ended_inv_def)
  assume i: "i < length (wcpus w)"
  then have d: "dev_of w i < length (dev_list (wtm w))" by (simp add: len dev_of_def)
  have "cpu_pc (wcpus w ! i) \<in> {At_top, At_end}" using assms(4) ne i tick(4) [OF d] by (simp add: barrier_inv_def)
  moreover have "at (dev_list (wtm w) ! dev_of w i) = Detached \<longleftrightarrow> cpu_pc (wcpus w ! i) = At_end"
    using assms(5) ne i by (simp add: ended_inv_def)
  ultimately show "cpu_pc (wcpus w ! i) = At_end \<or> cpu_pc (wcpus w ! i) = At_top \<and> done_dev (wtm w) (dev_of w i)"
    using tick(3) [OF d] by auto
qed

lemma clock_attended:
  assumes "attended w" "winv w" "barrier_inv w" "ended_inv w" "stopped_idle w" "ld_inv cfg w" "wcpus w \<noteq> []" "tstep (wtm w) a t"
    and "a = Timer_thread \<or> a = Spurious \<or> (\<exists>d. a = Dev d \<and> dev_at (wtm w) d Arrived)"
  shows "attended (w\<lparr>wtm := t\<rparr>)"
proof (cases "clock t = clock (wtm w)")
  case True
  from done_clock_iff [OF assms(8,9) this] assms(1) show ?thesis by (simp add: attended_def busy_def dev_of_def)
next
  case False
  from tstep_clock [OF assms(8) False] have r: "timer_routine (wtm w) = Some t" by blast
  have fresh: "\<not> done_dev t d" for d by (rule tick_devs(2) [OF r False]) (use assms(2) in \<open>simp add: winv_def\<close>)
  note tick = tick_world [OF r False assms(2-4)]
  show ?thesis
  proof (cases "\<exists>i < length (wcpus w). cpu_pc (wcpus w ! i) = At_top")
    case True
    then obtain i where "i < length (wcpus w)" "busy (w\<lparr>wtm := t\<rparr>) i" using fresh by (auto simp: busy_def Let_def)
    then show ?thesis by (auto simp: attended_def)
  next
    case none: False
    then have e: "cpu_pc (wcpus w ! i) = At_end" if "i < length (wcpus w)" for i using tick(1) [OF that] that by blast
    then have "\<not> busy w i" if "i < length (wcpus w)" for i
      using that assms(5) nth_mem [OF that] by (simp add: busy_def stopped_idle_def)
    moreover have "ld_pc (wld w) = Ld_end"
      using assms(6,7) e [of 0] nth_mem [of 0 "wcpus w"] by (auto simp: ld_inv_def)
    ultimately show ?thesis using assms(1) by (auto simp: attended_def)
  qed
qed

lemma stop_attended:
  assumes "attended w" "stopped_idle w" "\<forall>c\<in>set (wcpus w). cpu_pc c = At_end" "ld_pc (wld w) = Ld_end"
  shows "attended (w\<lparr>wtm := t\<rparr>)"
proof -
  have "\<not> busy w i" if "i < length (wcpus w)" for i
    using that assms(2,3) nth_mem [OF that] by (simp add: busy_def stopped_idle_def)
  with assms(1,4) show ?thesis by (auto simp: attended_def)
qed


lemma cpu_routine_done:
  "cpu_routine k v junk i c s = Some (c', s', g) \<Longrightarrow> ld_done s' = ld_done s \<and> (cpu_pc c' = At_end \<longrightarrow> ld_done s)"
  by (cases "cpu_pc c")
     (auto simp: cpu_step_defs bind_eq_Some_conv Let_def case_prod_beta split: option.splits if_splits)

lemma ld_step_inv:
  assumes "ld_inv cfg w" "winv w" "dev_at (wtm w) 0 Running"
    and "ld_routine cfg fs p mem cell rgs (clock (wtm w)) (wld w) (wos w) = Some (l, s, g)"
  shows "ld_inv cfg (w\<lparr>wos := s, wld := l, wtm := notify g 0 (wtm w)\<rparr>)"
proof -
  have inv: "tinv (wtm w)" using assms(2) by (simp add: winv_def)
  note idle = running_not_done [OF inv assms(3)]
  have clk: "clock (notify g 0 (wtm w)) = clock (wtm w)"
    by (cases g) (simp_all add: next_slot_announce_def detach_event_def)
  show ?thesis
  proof (cases "ld_pc (wld w)")
    case Ld_top
    then have n: "ld_proc (wld w) = None" using assms(2) by (simp add: winv_def owner_inv_def)
    from Ld_top assms(4) have "ld_load cfg fs p mem cell (wld w) (wos w) = Some (l, s, g)" by (simp add: ld_routine_def)
    then show ?thesis
      by (cases rule: ld_load_cases) (use assms(1) Ld_top n idle in \<open>auto simp: ld_inv_def\<close>)
  next
    case Ld_wait
    then show ?thesis using assms(1,4) clk
      by (auto simp: ld_routine_def ld_waiting_def bind_eq_Some_conv ld_inv_def rd_Some split: if_splits)
  qed (use assms(1,4) in \<open>auto simp: ld_routine_def ld_memory_def ld_add_def ld_queue_def bind_eq_Some_conv case_prod_beta
        Let_def ld_inv_def\<close>)
qed

lemma wstep_ld_inv:
  assumes "wstep cfg fs w a w'" "ld_inv cfg w" "winv w"
  shows "ld_inv cfg w'"
  using assms(1)
proof (cases rule: wstep.cases)
  case (cpu i v junk c s g)
  have d: "done_dev (wtm w') 0 = done_dev (wtm w) 0" using cpu(2,4) by (simp add: done_notify_other dev_of_def)
  have "clock (wtm w') = clock (wtm w)"
    by (cases g) (simp_all add: cpu(2) next_slot_announce_def detach_event_def)
  with d cpu_routine_done [OF cpu(6)] cpu(2) assms(2) show ?thesis
    by (auto simp: ld_inv_def dest!: subsetD [OF set_update_subset_insert])
next
  case (loader p mem cell rgs l s g)
  with ld_step_inv [OF assms(2,3) loader(4)] show ?thesis by (simp add: current_time_def)
next
  case (clock b t)
  show ?thesis
  proof (cases "timer_t.clock t = timer_t.clock (wtm w)")
    case True
    from done_clock_iff [OF clock(4,5) this] clock(2) True assms(2) show ?thesis by (simp add: ld_inv_def)
  next
    case False
    from tstep_clock [OF clock(4) False] have r: "timer_routine (wtm w) = Some t" by blast
    have "\<not> done_dev t 0" by (rule tick_devs(2) [OF r False]) (use assms(3) in \<open>simp add: winv_def\<close>)
    with clock(2) assms(2) show ?thesis by (auto simp: ld_inv_def)
  qed
qed (use assms(2) in \<open>simp add: ld_inv_def\<close>)

lemma cpu_step_pc_inv:
  assumes "cpu_routine k v junk i c s = Some (c', s', g)" "\<forall>p b. procs (osys s) p = Some b \<longrightarrow> pc b \<le> csize (code b)"
    and "procs (osys s') p = Some b"
  shows "pc b \<le> csize (code b)"
proof -
  have f: "procs (osys (snd (fetch s))) = procs (osys s)" by (simp add: fetch_def case_prod_beta Let_def)
  have r: "pc b \<le> csize (code b)" if run: "run v junk (osys s) q = Some (r, y)" "procs y p = Some b" for r q y
  proof -
    obtain d where d: "procs (osys s) q = Some d" using run_alive [OF run(1)] by blast
    show ?thesis
    proof (cases "csize (code d) \<le> pc d \<or> p \<noteq> q")
      case True
      with run_procs [OF run(1) d] run(2) have "procs (osys s) p = Some b" by (auto split: if_splits)
      with assms(2) show ?thesis by blast
    next
      case False
      with run_procs [OF run(1) d] run(2) have "b = d\<lparr>pc := pc d + 1\<rparr>" "pc d < csize (code d)" by auto
      then show ?thesis by (simp add: word_less_nat_alt word_le_nat_alt unat_Suc_le order_trans [OF unat_Suc_le])
    qed
  qed
  from assms f show ?thesis
    by (cases "cpu_pc c")
       (auto simp: cpu_step_defs bind_eq_Some_conv case_prod_beta split: option.splits if_splits dest: r)
qed

lemma wstep_pc_inv:
  assumes "wstep cfg fs w a w'" "pc_inv w"
  shows "pc_inv w'"
  using assms(1)
proof (cases rule: wstep.cases)
  case (cpu i v junk c s g)
  from cpu_step_pc_inv [OF cpu(6)] assms(2) cpu(2) show ?thesis by (simp add: pc_inv_def)
next
  case (loader p mem cell rgs l s g)
  from ld_routine_pcs [OF loader(6)] assms(2) loader(2) show ?thesis by (fastforce simp: pc_inv_def)
qed (use assms(2) in \<open>simp_all add: pc_inv_def\<close>)

text \<open>All of it, for a program with a processor.\<close>

definition going :: "config \<Rightarrow> world \<Rightarrow> bool" where
  "going cfg w \<longleftrightarrow> winv w \<and> barrier_inv w \<and> ended_inv w \<and> stopped_idle w \<and> ld_inv cfg w \<and> pc_inv w \<and> kept_inv cfg w \<and>
     finite_procs w \<and> (0 < num_cpus cfg \<longrightarrow> wcpus w \<noteq> [] \<and> attended w)"

lemma wstep_cpus: "wstep cfg fs w a w' \<Longrightarrow> wcpus w \<noteq> [] \<Longrightarrow> wcpus w' \<noteq> []"
  by (cases rule: wstep.cases) auto

lemma wstep_attended:
  assumes "wstep cfg fs w a w'" "winv w" "barrier_inv w" "ended_inv w" "stopped_idle w" "ld_inv cfg w" "wcpus w \<noteq> []" "attended w"
  shows "attended w'"
  using assms(1)
proof (cases rule: wstep.cases)
  case (cpu i v junk c s g)
  with cpu_attended [OF assms(8,2) cpu(4,6)] show ?thesis by simp
next
  case (loader p mem cell rgs l s g)
  with ld_attended [OF assms(8,2) loader(4,6)] show ?thesis by simp
next
  case (clock b t)
  with clock_attended [OF assms(8,2-7) clock(4,5)] show ?thesis by simp
next
  case (stop t)
  with stop_attended [OF assms(8,5) stop(4,5)] show ?thesis by simp
qed

interpretation onward: step_invariant "world_init cfg" "wstep cfg fs" "going cfg"
proof
  fix w assume "world_init cfg w"
  moreover from this have "kept_inv cfg w" "finite_procs w" "stopped_idle w" "ended_inv w \<and> barrier_inv w" "winv w"
    using kept.inv_init finitely.inv_init stopped.inv_init ended.inv_init program.inv_init by blast+
  ultimately show "going cfg w"
    by (auto simp: going_def world_init_def boot_def waiting_init attended_def ld_inv_def pc_inv_def ld_start_def cpu_start_def Let_def)
next
  fix w a w' assume s: "wstep cfg fs w a w'" and "going cfg w"
  then have g: "winv w" "barrier_inv w" "ended_inv w" "stopped_idle w" "ld_inv cfg w" "pc_inv w" "kept_inv cfg w" "finite_procs w"
    "0 < num_cpus cfg \<longrightarrow> wcpus w \<noteq> [] \<and> attended w" by (simp_all add: going_def)
  note wstep_inv [OF s g(1)] wstep_barrier [OF s g(2)] wstep_ended [OF s g(3,2)] stopped.inv_step [OF s g(4)]
    wstep_ld_inv [OF s g(5,1)] wstep_pc_inv [OF s g(6)] wstep_kept [OF s g(7)] wstep_finite [OF s g(8)]
  then show "going cfg w'"
    using g(9) wstep_cpus [OF s] wstep_attended [OF s g(1-5)] by (simp add: going_def)
qed


section \<open>The work that is left\<close>

definition left :: "pcb_t \<Rightarrow> nat" where
  "left b = unat (csize (code b)) - unat (pc b)"

text \<open>
  What a process costs: four for each instruction, and what its end costs. An instruction pays for
  the slot in which it is executed and for the tick that follows; a process at its end may
  still be dispatched for one slot, before a processor frees it at the top of its loop.
\<close>

definition weight_of :: "nat \<Rightarrow> bool \<Rightarrow> bool \<Rightarrow> nat" where
  "weight_of n sp tp = (if n = 0 then if sp then 2 else if tp then 1 else 3 else 4 * n + (if sp then 4 else 3))"

definition tops :: "world \<Rightarrow> pref \<Rightarrow> bool" where
  "tops w p \<longleftrightarrow> (\<exists>i < length (wcpus w). cproc (wcpus w ! i) = Some p \<and> cpu_pc (wcpus w ! i) = At_top)"

definition weight :: "world \<Rightarrow> pref \<Rightarrow> nat" where
  "weight w p = (case procs (osys (wos w)) p of None \<Rightarrow> 0 | Some b \<Rightarrow> weight_of (left b) (spent w p) (tops w p))"

definition work :: "world \<Rightarrow> nat" where
  "work w = sum (weight w) (dom (procs (osys (wos w))))"

lemma run_left:
  assumes "run v junk s q = Some (r, y)" "procs y p = Some b'" "procs s p = Some b"
  shows "left b' = (if p = q then left b - 1 else left b)"
proof -
  obtain d where d: "procs s q = Some d" using run_alive [OF assms(1)] by blast
  show ?thesis
  proof (cases "csize (code d) \<le> pc d")
    case True
    with run_procs [OF assms(1) d] assms(2,3) d show ?thesis by (auto simp: left_def word_le_nat_alt)
  next
    case False
    then have "unat (pc d) < unat (csize (code d))" by (simp add: word_le_nat_alt not_le)
    with unat_u32_less [of "csize (code d)"] have "unat (pc d + 1) = Suc (unat (pc d))" by (intro unat_u32_Suc) linarith
    with False run_procs [OF assms(1) d] assms(2,3) d show ?thesis by (auto simp: left_def split: if_splits)
  qed
qed

lemma cpu_routine_left:
  assumes "cpu_routine k v junk i c s = Some (c', s', g)" "procs (osys s') p = Some b'" "procs (osys s) p = Some b"
  shows "if cproc c' = Some p \<and> g = Next_slot then cpu_pc c = At_run \<and> cproc c = Some p \<and> left b' = left b - 1
    else left b' = left b \<and> \<not> (cpu_pc c = At_top \<and> cproc c = Some p \<and> pc b = csize (code b))"
proof -
  have f: "procs (osys (snd (fetch s))) = procs (osys s)" by (simp add: fetch_def case_prod_beta Let_def)
  have n: "\<not> (cpu_pc c = At_top \<and> cproc c = Some p \<and> pc b = csize (code b))"
    using assms by (auto simp: cpu_routine_def cpu_top_def)
  then have "if cproc c' = Some p \<and> g = Next_slot then cpu_pc c = At_run \<and> cproc c = Some p \<and> left b' = left b - 1
    else left b' = left b"
    using assms f by (cases "cpu_pc c")
      (auto simp: cpu_step_defs bind_eq_Some_conv case_prod_beta Let_def split: option.splits if_splits dest: run_left)
  with n show ?thesis by simp
qed


text \<open>The step of a processor.\<close>

lemma weight_executed: "weight_of (n - 1) True b \<le> weight_of n False False"
  by (cases n) (simp_all add: weight_of_def)

lemma cpu_weight:
  assumes "going cfg w" "i < length (wcpus w)" "dev_at (wtm w) (dev_of w i) Running"
    and "cpu_routine k v junk i (wcpus w ! i) (wos w) = Some (c, s, g)" "procs (osys s) p = Some b'"
  shows "procs (osys (wos w)) p \<noteq> None \<and>
    weight (w\<lparr>wos := s, wcpus := (wcpus w)[i := c], wtm := notify g (dev_of w i) (wtm w)\<rparr>) p \<le> weight w p"
    (is "_ \<and> weight ?w p \<le> _")
proof -
  have inv: "winv w" "tinv (wtm w)" "pc_inv w" using assms(1) by (simp_all add: going_def winv_def)
  note idle = running_not_done [OF inv(2) assms(3)]
  from cpu_routine_pcs [OF assms(4,5)] obtain b where b: "procs (osys (wos w)) p = Some b" by blast
  note l = cpu_routine_left [OF assms(4,5) b]
  have other: "dev_of w j \<noteq> dev_of w i" if "j < length (wcpus w)" "j \<noteq> i" for j using that assms(2) by (auto simp: dev_of_def)
  have dn: "done_dev (wtm ?w) (dev_of ?w j) = done_dev (wtm w) (dev_of w j)" if "j < length (wcpus w)" "j \<noteq> i" for j
    using other [OF that] by (simp add: dev_of_def done_notify_other)
  have w: "weight w p = weight_of (left b) (spent w p) (tops w p)" "weight ?w p = weight_of (left b') (spent ?w p) (tops ?w p)"
    using b assms(5) by (simp_all add: weight_def)
  show ?thesis
  proof (cases "cproc c = Some p \<and> g = Next_slot")
    case True
    with l have e: "cpu_pc (wcpus w ! i) = At_run" "cproc (wcpus w ! i) = Some p" "left b' = left b - 1" by simp_all
    have only: "cproc (wcpus w ! j) \<noteq> Some p" if "j < length (wcpus w)" "j \<noteq> i" for j
      using winv_one_owner [OF inv(1) assms(2) e(2)] that by blast
    with idle have "\<not> spent w p" by (auto simp: spent_def)
    moreover have "\<not> tops w p"
    proof
      assume "tops w p"
      then obtain j where "j < length (wcpus w)" "cproc (wcpus w ! j) = Some p" "cpu_pc (wcpus w ! j) = At_top"
        by (auto simp: tops_def)
      with only [of j] e(1) show False by (cases "j = i") simp_all
    qed
    moreover have "spent ?w p"
      using True assms(2) done_announced [OF inv(2) assms(3)] by (auto simp: spent_def dev_of_def intro!: exI [of _ i])
    ultimately show ?thesis using w e(3) b weight_executed by simp
  next
    case False
    with l have e: "left b' = left b" "\<not> (cpu_pc (wcpus w ! i) = At_top \<and> cproc (wcpus w ! i) = Some p \<and> pc b = csize (code b))"
      by simp_all
    have "spent w p" if "spent ?w p"
    proof -
      from that obtain j where j: "j < length (wcpus w)" "cproc ((wcpus w)[i := c] ! j) = Some p" "done_dev (wtm ?w) (dev_of ?w j)"
        by (auto simp: spent_def)
      have "j \<noteq> i"
      proof
        assume "j = i"
        with j assms(2) False idle show False
          by (cases g) (auto simp: dev_of_def done_dev_def detach_event_def pending_def split: tphase.splits)
      qed
      with j dn show ?thesis by (auto simp: spent_def)
    qed
    moreover have "spent ?w p" if "spent w p"
    proof -
      from that obtain j where j: "j < length (wcpus w)" "cproc (wcpus w ! j) = Some p" "done_dev (wtm w) (dev_of w j)"
        by (auto simp: spent_def)
      with idle have "j \<noteq> i" by auto
      with j dn show ?thesis by (auto simp: spent_def intro!: exI [of _ j])
    qed
    moreover have "tops ?w p" if "tops w p" "left b = 0"
    proof -
      from that obtain j where j: "j < length (wcpus w)" "cproc (wcpus w ! j) = Some p" "cpu_pc (wcpus w ! j) = At_top"
        by (auto simp: tops_def)
      have "unat (pc b) \<le> unat (csize (code b))" using inv(3) b by (simp add: pc_inv_def word_le_nat_alt)
      with that(2) have "pc b = csize (code b)" by (simp add: left_def word_unat_eq_iff)
      with e(2) j have "j \<noteq> i" by auto
      with j show ?thesis by (auto simp: tops_def intro!: exI [of _ j])
    qed
    ultimately have "weight ?w p \<le> weight w p" unfolding w e(1) by (auto simp: weight_of_def)
    with b show ?thesis by simp
  qed
qed


lemma cpu_work:
  assumes "going cfg w" "i < length (wcpus w)" "dev_at (wtm w) (dev_of w i) Running"
    and "cpu_routine k v junk i (wcpus w ! i) (wos w) = Some (c, s, g)"
  shows "work (w\<lparr>wos := s, wcpus := (wcpus w)[i := c], wtm := notify g (dev_of w i) (wtm w)\<rparr>) \<le> work w"
    (is "work ?w \<le> _")
proof -
  let ?D = "dom (procs (osys s))"
  have "finite (dom (procs (osys (wos w))))" using assms(1) by (simp add: going_def finite_procs_def)
  moreover have "?D \<subseteq> dom (procs (osys (wos w)))" using cpu_weight [OF assms] by blast
  ultimately have "sum (weight w) ?D \<le> work w" unfolding work_def by (intro sum_mono2) simp_all
  moreover have "sum (weight ?w) ?D \<le> sum (weight w) ?D" by (rule sum_mono) (use cpu_weight [OF assms] in blast)
  ultimately show ?thesis by (simp add: work_def)
qed

lemma same_work:
  assumes "procs (osys (wos w')) = procs (osys (wos w))" "wcpus w' = wcpus w" "\<And>d. d \<noteq> 0 \<Longrightarrow> done_dev (wtm w') d = done_dev (wtm w) d"
  shows "work w' = work w"
proof -
  have "done_dev (wtm w') (dev_of w' i) = done_dev (wtm w) (dev_of w i)" if "i < length (wcpus w)" for i
    using assms(2) assms(3) [of "dev_of w i"] that by (simp add: dev_of_def)
  then have "spent w' p = spent w p" for p unfolding spent_def assms(2) by blast
  moreover have "tops w' p = tops w p" for p unfolding tops_def assms(2) ..
  ultimately have "weight w' = weight w" using assms(1) by (simp add: weight_def fun_eq_iff split: option.split)
  with assms(1) show ?thesis by (simp add: work_def)
qed

text \<open>A tick of the clock.\<close>

lemma tick_work:
  assumes "going cfg w" "timer_routine (wtm w) = Some t" "clock t \<noteq> clock (wtm w)"
  shows "work (w\<lparr>wtm := t\<rparr>) \<le> work w" "i < length (wcpus w) \<Longrightarrow> cproc (wcpus w ! i) \<noteq> None \<Longrightarrow> work (w\<lparr>wtm := t\<rparr>) < work w"
proof -
  let ?w = "w\<lparr>wtm := t\<rparr>" and ?D = "dom (procs (osys (wos w)))"
  have inv: "winv w" "barrier_inv w" "ended_inv w" "stopped_idle w" "tinv (wtm w)" "finite ?D"
    using assms(1) by (simp_all add: going_def winv_def finite_procs_def)
  note tick = tick_world [OF assms(2,3) inv(1-3)]
  have fresh: "\<not> spent ?w p" for p using tick_devs(2) [OF assms(2,3) inv(5)] by (simp add: spent_def)
  have held: "spent w p \<and> tops w p" if "i < length (wcpus w)" "cproc (wcpus w ! i) = Some p" for i p
    using tick(1) [OF that(1)] that inv(4) nth_mem [OF that(1)] by (auto simp: spent_def tops_def stopped_idle_def)
  have tops: "tops ?w p = tops w p" for p by (simp add: tops_def)
  have less: "weight ?w p < weight w p" if "spent w p" "p \<in> ?D" for p
  proof -
    from that(1) held have "tops w p" by (auto simp: spent_def)
    with that fresh [of p] tops [of p] show ?thesis by (auto simp: weight_def weight_of_def)
  qed
  have le: "weight ?w p \<le> weight w p" if "p \<in> ?D" for p
  proof (cases "spent w p")
    case True
    from less [OF this that] show ?thesis by simp
  next
    case False
    with fresh [of p] tops [of p] show ?thesis by (simp add: weight_def split: option.split)
  qed
  then show "work ?w \<le> work w" by (simp add: work_def sum_mono)
  assume i: "i < length (wcpus w)" "cproc (wcpus w ! i) \<noteq> None"
  then obtain p where p: "cproc (wcpus w ! i) = Some p" by blast
  have "p \<in> ?D" using winv_one_owner [OF inv(1) i(1) p] by blast
  with less held [OF i(1) p] le inv(6) show "work ?w < work w"
    by (simp add: work_def) (rule sum_strict_mono_ex1; blast)
qed


section \<open>Every run comes to an end\<close>

lemma on_cpus_none: "\<forall>c\<in>set cs. cproc c = None \<Longrightarrow> on_cpus cs = {#}"
  by (induction cs) (simp_all add: on_cpus_def)

text \<open>The loader has ended, and every process has been executed to its end and freed.\<close>

definition finished :: "world \<Rightarrow> bool" where
  "finished w \<longleftrightarrow> ld_pc (wld w) = Ld_end \<and> procs (osys (wos w)) = Map.empty"

text \<open>What the loader has left: six for each entry, and the time it has to wait.\<close>

definition stage :: "config \<Rightarrow> world \<Rightarrow> nat" where
  "stage cfg w = 6 * (nat (num_processes cfg) - ld_i (wld w)) + (case ld_pc (wld w) of
     Ld_top \<Rightarrow> if done_dev (wtm w) 0 then 6 else 5
   | Ld_wait \<Rightarrow> 4 | Ld_init \<Rightarrow> 3 | Ld_add \<Rightarrow> 2 | Ld_queue \<Rightarrow> 1 | Ld_end \<Rightarrow> 0)"

definition delay :: "config \<Rightarrow> world \<Rightarrow> nat" where
  "delay cfg w = (if ld_pc (wld w) = Ld_wait then unat (ld_start_time cfg ! ld_i (wld w)) - unat (clock (wtm w)) else 0)"

definition progress :: "config \<Rightarrow> (world \<times> world) set" where
  "progress cfg = measures [stage cfg, delay cfg, work, slot_cost]"

lemma progressI:
  assumes "stage cfg w' \<le> stage cfg w" "stage cfg w' = stage cfg w \<Longrightarrow> delay cfg w' \<le> delay cfg w"
    and "stage cfg w' = stage cfg w \<Longrightarrow> work w' \<le> work w" "slot_cost w' < slot_cost w"
  shows "(w', w) \<in> progress cfg"
  using assms by (auto simp: progress_def in_measures)

lemma loader_stage:
  assumes "ld_routine cfg fs p mem cell rgs now l s = Some (l', s', g)" "int (loaded l) \<le> max 0 (num_processes cfg)"
  shows "l' = l \<and> g = Continue \<and> procs (osys s') = procs (osys s) \<or> l' = l \<and> ld_pc l = Ld_wait \<and> procs (osys s') = procs (osys s) \<or>
    ld_pc l = Ld_queue \<and> ld_pc l' = Ld_top \<and> ld_i l' = Suc (ld_i l) \<and> ld_i l < nat (num_processes cfg) \<or>
    ld_i l' = ld_i l \<and> ld_rank (ld_pc l') < ld_rank (ld_pc l)"
proof (cases "ld_pc l")
  case Ld_top
  with assms(1) have "ld_load cfg fs p mem cell l s = Some (l', s', g)" by (simp add: ld_routine_def)
  then show ?thesis by (cases rule: ld_load_cases) (simp_all add: Ld_top ld_rank_def)
qed (use assms in \<open>auto simp: ld_step_defs ld_rank_def loaded_def bind_eq_Some_conv case_prod_beta Let_def split: if_splits\<close>)

lemma stage_rank:
  "\<not> done_dev (wtm w) 0 \<or> ld_pc (wld w) \<noteq> Ld_top \<Longrightarrow>
     stage cfg w = 6 * (nat (num_processes cfg) - ld_i (wld w)) + ld_rank (ld_pc (wld w))"
  by (auto simp: stage_def ld_rank_def split: lpc.split)

lemma loader_progress:
  assumes "going cfg w" "num_processes cfg < 2 ^ 31" "dev_at (wtm w) 0 Running"
    and "ld_routine cfg fs p mem cell rgs now (wld w) (wos w) = Some (l, s, g)"
  shows "stage cfg (w\<lparr>wos := s, wld := l, wtm := notify g 0 (wtm w)\<rparr>) < stage cfg w \<or>
    l = wld w \<and> procs (osys s) = procs (osys (wos w)) \<and>
    stage cfg (w\<lparr>wos := s, wld := l, wtm := notify g 0 (wtm w)\<rparr>) = stage cfg w"
    (is "stage cfg ?w < _ \<or> _")
proof -
  have "int (loaded (wld w)) \<le> max 0 (num_processes cfg)" "tinv (wtm w)"
    using assms(1,2) by (simp_all add: going_def kept_inv_def pid_inv_def winv_def)
  note cases = loader_stage [OF assms(4) this(1)] and idle = running_not_done [OF this(2) assms(3)]
  from idle have old: "stage cfg w = 6 * (nat (num_processes cfg) - ld_i (wld w)) + ld_rank (ld_pc (wld w))"
    by (simp add: stage_rank)
  from cases show ?thesis
  proof (elim disjE conjE)
    assume q: "ld_pc (wld w) = Ld_queue" "ld_pc l = Ld_top" "ld_i l = Suc (ld_i (wld w))" "ld_i (wld w) < nat (num_processes cfg)"
    then obtain m where "nat (num_processes cfg) = Suc (ld_i (wld w) + m)" by (auto simp: less_iff_Suc_add)
    with q have "stage cfg ?w < stage cfg w" unfolding old by (simp add: stage_def ld_rank_def)
    then show ?thesis by simp
  next
    assume "ld_i l = ld_i (wld w)" "ld_rank (ld_pc l) < ld_rank (ld_pc (wld w))"
    moreover from this have "ld_pc l \<noteq> Ld_top" by (cases "ld_pc (wld w)") (auto simp: ld_rank_def)
    ultimately have "stage cfg ?w < stage cfg w" unfolding old by (simp add: stage_rank)
    then show ?thesis by simp
  qed (use idle in \<open>auto simp: stage_def\<close>)
qed


text \<open>A tick: the loader has waited, or starts with the next entry, or a processor has executed an instruction.\<close>

lemma tick_progress:
  assumes "going cfg w" "0 < num_cpus cfg" "num_processes cfg \<le> int MAX_QUEUE_SIZE" "\<not> finished w"
    and "timer_routine (wtm w) = Some t" "clock t \<noteq> clock (wtm w)"
  shows "(w\<lparr>wtm := t\<rparr>, w) \<in> progress cfg"
proof -
  let ?w = "w\<lparr>wtm := t\<rparr>"
  have inv: "winv w" "barrier_inv w" "ended_inv w" "tinv (wtm w)" "ld_inv cfg w" "attended w" "all_owned w"
    using assms(1-3) by (auto simp: going_def winv_def kept_inv_def)
  note tick = tick_world [OF assms(5,6) inv(1-3)] and t = tick_devs [OF assms(5,6) inv(4)]
  from tick(2) consider "ld_pc (wld w) = Ld_top" "done_dev (wtm w) 0" | "ld_pc (wld w) = Ld_wait" "done_dev (wtm w) 0"
    | "ld_pc (wld w) = Ld_end" by blast
  then show ?thesis
  proof cases
    case 1
    with t(2) [of 0] have "stage cfg ?w < stage cfg w" by (simp add: stage_def)
    then show ?thesis by (simp add: progress_def)
  next
    case 2
    from t(1) have clk: "clock t = clock (wtm w) + 1" by (metis timer_t.select_convs(1) timer_t.simps timer_t.surjective)
    from 2 inv(5) have "clock (wtm w) < ld_start_time cfg ! ld_i (wld w)" by (simp add: ld_inv_def)
    then have "unat (clock (wtm w)) < unat (ld_start_time cfg ! ld_i (wld w))" by (simp add: word_less_nat_alt)
    moreover from this unat_u64_less [of "ld_start_time cfg ! ld_i (wld w)"] have "unat (clock (wtm w) + 1) = Suc (unat (clock (wtm w)))"
      by (simp add: unat_word_ariths)
    ultimately have "delay cfg ?w < delay cfg w" using 2 by (simp add: delay_def clk)
    moreover have "stage cfg ?w = stage cfg w" using 2 by (simp add: stage_def)
    ultimately show ?thesis by (simp add: progress_def)
  next
    case 3
    have "\<exists>i < length (wcpus w). cproc (wcpus w ! i) \<noteq> None"
    proof (rule ccontr)
      assume "\<not> ?thesis"
      then have none: "cproc (wcpus w ! i) = None" if "i < length (wcpus w)" for i using that by blast
      have "\<not> busy w i" if "i < length (wcpus w)" for i
        using none [OF that] tick(1) [OF that] by (auto simp: busy_def)
      with inv(6) 3 have "waiting (sched (osys (wos w))) = {#}" by (auto simp: attended_def)
      moreover have "cproc c = None" if "c \<in> set (wcpus w)" for c using that none by (auto simp: in_set_conv_nth)
      then have "on_cpus (wcpus w) = {#}" by (simp add: on_cpus_none)
      moreover have "ld_proc (wld w) = None" using inv(5) 3 by (simp add: ld_inv_def)
      ultimately have "procs (osys (wos w)) = Map.empty" using inv(7) by (simp add: all_owned_def owners_def)
      with assms(4) 3 show False by (simp add: finished_def)
    qed
    then have "work ?w < work w" using tick_work(2) [OF assms(1,5,6)] by blast
    moreover have "stage cfg ?w = stage cfg w" "delay cfg ?w = delay cfg w" using 3 by (simp_all add: stage_def delay_def)
    ultimately show ?thesis by (simp add: progress_def)
  qed
qed

lemma step_progress:
  assumes "wstep cfg fs w a w'" "thread_step a" "\<not> finished w"
    and "going cfg w" "0 < num_cpus cfg" "num_processes cfg \<le> int MAX_QUEUE_SIZE"
  shows "(w', w) \<in> progress cfg"
proof (cases "clock (wtm w') = clock (wtm w)")
  case False
  from wstep_clock [OF assms(1) this] obtain t where t: "w' = w\<lparr>wtm := t\<rparr>" "timer_routine (wtm w) = Some t" by blast
  with tick_progress [OF assms(4-6,3) t(2)] False show ?thesis by simp
next
  case same: True
  have inv: "winv w" "barrier_inv w" using assms(4) by (simp_all add: going_def)
  from wstep_cost [OF assms(1) same inv] assms(2) have cost: "slot_cost w' < slot_cost w" by simp
  from assms(1) show ?thesis
  proof (cases rule: wstep.cases)
    case (cpu i v junk c s g)
    have "done_dev (wtm w') 0 = done_dev (wtm w) 0" using cpu(2,4) by (simp add: done_notify_other dev_of_def)
    with cpu(2) same have "stage cfg w' = stage cfg w" "delay cfg w' = delay cfg w" by (simp_all add: stage_def delay_def)
    with cpu_work [OF assms(4) cpu(4-6)] cpu(2) cost show ?thesis by (intro progressI) simp_all
  next
    case (loader p mem cell rgs l s g)
    have n: "num_processes cfg < 2 ^ 31" using assms(6) by (simp add: MAX_QUEUE_SIZE_def)
    from loader_progress [OF assms(4) n loader(4,6)] show ?thesis
    proof (elim disjE conjE)
      assume l: "l = wld w" "procs (osys s) = procs (osys (wos w))"
        "stage cfg (w\<lparr>wos := s, wld := l, wtm := notify g 0 (wtm w)\<rparr>) = stage cfg w"
      have "work w' = work w" by (rule same_work) (use loader(2) l in \<open>simp_all add: done_notify_other\<close>)
      moreover have "delay cfg w' = delay cfg w" using loader(2) l same by (simp add: delay_def)
      ultimately show ?thesis using l(3) loader(2) cost by (intro progressI) simp_all
    qed (use loader(2) in \<open>simp add: progress_def\<close>)
  next
    case (clock b t)
    then have "timer_t.clock t = timer_t.clock (wtm w)" using same by simp
    note d = done_clock_iff [OF clock(4,5) this]
    have "work w' = work w" by (rule same_work) (use clock(2) d in simp_all)
    moreover have "stage cfg w' = stage cfg w" "delay cfg w' = delay cfg w" using clock(2) d same by (simp_all add: stage_def delay_def)
    ultimately show ?thesis using cost by (intro progressI) simp_all
  next
    case (stop t)
    with assms(2) show ?thesis by (simp add: thread_step_def)
  qed
qed


section \<open>Properties\<close>

text \<open>Once finished, always finished.\<close>

lemma finished_stays:
  assumes "wstep cfg fs w a w'" "finished w"
  shows "finished w'"
  using assms(1)
proof (cases rule: wstep.cases)
  case (cpu i v junk c s g)
  have "procs (osys s) p = None" for p
  proof (cases "procs (osys s) p")
    case (Some b)
    from cpu_routine_pcs [OF cpu(6) Some] assms(2) show ?thesis by (auto simp: finished_def)
  qed
  with cpu(2) assms(2) show ?thesis by (auto simp: finished_def)
next
  case (loader p mem cell rgs l s g)
  with assms(2) show ?thesis by (simp add: finished_def ld_routine_def)
qed (use assms(2) in \<open>simp_all add: finished_def\<close>)

text \<open>
  C5: all programs finish. With at least one processor and at most 50 processes (the length of a
  queue), and whatever the programs do, no schedule of the threads can go on for ever without coming to a state in
  which the loader has loaded every process of the configuration and ended, and every process has been executed
  to its end and freed. No fairness is assumed: the barrier of the timer makes every thread take its turn
  in every slot, and a slot in which the loader neither loads nor waits for a start time is one in which a
  processor executes an instruction. (Spurious wake-ups are left out, which alone could go on for ever; a program
  that meets undefined behaviour or a file that cannot be loaded ends the run.)
\<close>
theorem programs_finish:
  assumes "0 < num_cpus cfg" "num_processes cfg \<le> int MAX_QUEUE_SIZE" "reach (world_init cfg) (wstep cfg fs) w"
  shows "\<not> (\<exists>f. f 0 = w \<and> (\<forall>n. \<not> finished (f n) \<and> (\<exists>a. thread_step a \<and> wstep cfg fs (f n) a (f (Suc n)))))"
proof
  assume "\<exists>f. f 0 = w \<and> (\<forall>n. \<not> finished (f n) \<and> (\<exists>a. thread_step a \<and> wstep cfg fs (f n) a (f (Suc n))))"
  then obtain f where f: "f 0 = w" "\<And>n. \<not> finished (f n)" "\<And>n. \<exists>a. thread_step a \<and> wstep cfg fs (f n) a (f (Suc n))"
    by blast
  have g: "going cfg (f n)" for n
  proof (induction n)
    case 0
    show ?case unfolding f(1) by (rule onward.reach_inv [OF assms(3)])
  next
    case (Suc n)
    with f(3) [of n] onward.inv_step show ?case by blast
  qed
  have "(f (Suc n), f n) \<in> progress cfg" for n
    using f(3) [of n] step_progress [OF _ _ f(2) g assms(1,2)] by blast
  moreover have "wf (progress cfg)" by (simp add: progress_def)
  ultimately show False unfolding wf_iff_no_infinite_down_chain by blast
qed

theorem programs_finish_witness:
  "\<not> (\<exists>f. f 0 = demo_boot 1 \<and> (\<forall>n. \<not> finished (f n) \<and> (\<exists>a. thread_step a \<and> wstep (demo_cfg 1) demo_fs (f n) a (f (Suc n)))))"
  by (rule programs_finish [OF _ _ reach_demo_boot]) (simp_all add: demo_cfg_def MAX_QUEUE_SIZE_def)

lemma ended_finished:
  assumes "going cfg w" "0 < num_cpus cfg" "num_processes cfg \<le> int MAX_QUEUE_SIZE" "all_ended w"
  shows "finished w"
proof -
  have inv: "attended w" "all_owned w" "ld_inv cfg w" "stopped_idle w" using assms(1-3) by (auto simp: going_def kept_inv_def)
  have none: "cproc c = None" if "c \<in> set (wcpus w)" for c using that inv(4) assms(4) by (simp add: stopped_idle_def all_ended_def)
  have "\<not> busy w i" if "i < length (wcpus w)" for i
    using none nth_mem [OF that] assms(4) by (simp add: busy_def all_ended_def)
  then have "waiting (sched (osys (wos w))) = {#}" using inv(1) assms(4) by (auto simp: attended_def all_ended_def)
  moreover have "on_cpus (wcpus w) = {#}" by (rule on_cpus_none) (use none in blast)
  ultimately show ?thesis using inv(2,3) assms(4) by (simp add: finished_def all_owned_def owners_def ld_inv_def all_ended_def)
qed

text \<open>When the threads are never stuck, every state leads to the end.\<close>

lemma leads_to_end:
  assumes "\<And>w. reach (world_init cfg) (wstep cfg fs) w \<Longrightarrow>
      (\<exists>a w'. thread_step a \<and> wstep cfg fs w a w') \<or> all_ended w \<and> phase (wtm w) = Exited"
    and "0 < num_cpus cfg" "num_processes cfg \<le> int MAX_QUEUE_SIZE" "reach (world_init cfg) (wstep cfg fs) w"
  shows "\<exists>as w'. run_of (wstep cfg fs) w as w' \<and> list_all thread_step as \<and> finished w'"
proof -
  have "wf (progress cfg)" by (simp add: progress_def)
  then show ?thesis using assms(4)
  proof (induction w rule: wf_induct_rule)
    case (less w)
    have g: "going cfg w" by (rule onward.reach_inv [OF less.prems])
    show ?case
    proof (cases "finished w")
      case True
      then show ?thesis by (intro exI [of _ "[]"] exI [of _ w]) simp
    next
      case False
      with ended_finished [OF g assms(2,3)] assms(1) [OF less.prems]
      obtain a w1 where s: "thread_step a" "wstep cfg fs w a w1" by blast
      from less.IH [OF step_progress [OF s(2,1) False g assms(2,3)] reach_step [OF less.prems s(2)]]
      obtain as w' where "run_of (wstep cfg fs) w1 as w'" "list_all thread_step as" "finished w'" by blast
      with s show ?thesis by (intro exI [of _ "a # as"] exI [of _ w']) auto
    qed
  qed
qed





end
