(* ===== verification/Pageio.thy ===== *)
theory Pageio
  imports Libmem
begin

text \<open>
  The register-based page access of \<open>src/mm-vm.c\<close> (\<open>pgread\<close>, \<open>pgwrite\<close>, which nothing calls)
  and the debug printers of lists in \<open>src/mm64.c\<close>.

  Both functions pass the address of a 4-byte \<open>int\<close> where \<open>MEMPHY_get_freefp\<close> stores 8 bytes
  when it has a frame to give, which is undefined; when it has none the \<open>int\<close> stays
  uninitialised (\<open>tgt\<close>).
\<close>

section \<open>Reading and writing through a register\<close>

text \<open>The page macros of \<open>include/mm.h\<close> on a 64-bit address.\<close>

definition PAGING_PGN64 :: "u64 \<Rightarrow> u64" where
  "PAGING_PGN64 x = drop_bit PAGING_ADDR_PGN_LOBIT (x AND ucast PAGING_PGN_MASK)"

definition PAGING_OFFST64 :: "u64 \<Rightarrow> u64" where
  "PAGING_OFFST64 x = x AND ucast PAGING_OFFST_MASK"

text \<open>The frame taken for the page that is swapped in: the victim's, and the victim moves to
  the swap device. \<open>val\<close> is the uninitialised byte of \<open>__swap_cp_page\<close>.\<close>

definition pg_victim :: "byte \<Rightarrow> cint \<Rightarrow> krnl_t \<Rightarrow> (cint \<times> krnl_t) option" where
  "pg_victim val tgt k =
     (case free_fp_list (mram k) of
        _ # _ \<Rightarrow> None
      | [] \<Rightarrow> do {
          m \<leftarrow> mm k;
          vicpgn \<leftarrow> (case fifo_pgn m of [] \<Rightarrow> None | v # _ \<Rightarrow> Some v);
          (vicpte, k) \<leftarrow> pte_get_entry k vicpgn;
          let vic_phy_fpn = PAGING_FPN vicpte;
          (case free_fp_list (active_mswp k) of
             _ # _ \<Rightarrow> None
           | [] \<Rightarrow> do {
               (_, src, dst) \<leftarrow> swap_cp_page val (mram k) (int_to_u64 vic_phy_fpn) (active_mswp k) (int_to_u64 tgt);
               (_, k) \<leftarrow> pte_set_swap (k\<lparr>mram := src, active_mswp := dst\<rparr>) vicpgn 0 (int_to_u64 tgt);
               Some (vic_phy_fpn, k) }) })"

text \<open>A page that is swapped out and not present: only \<open>pgwrite\<close> records its new frame.\<close>

definition pg_swap_in :: "bool \<Rightarrow> byte \<Rightarrow> cint \<Rightarrow> krnl_t \<Rightarrow> u64 \<Rightarrow> u32 \<Rightarrow> krnl_t option" where
  "pg_swap_in set_fpn val tgt k pgn pte = do {
     let swpfpn = PAGING_SWP pte;
     (vicfpn, k) \<leftarrow> pg_victim val tgt k;
     (_, src, dst) \<leftarrow> swap_cp_page val (active_mswp k) (ucast swpfpn) (mram k) (int_to_u64 vicfpn);
     let k = k\<lparr>active_mswp := src, mram := dst\<rparr>;
     k \<leftarrow> (if set_fpn then do { (_, k) \<leftarrow> pte_set_fpn k pgn (int_to_u64 vicfpn); Some k } else Some k);
     m \<leftarrow> mm k;
     Some (k\<lparr>mm := Some (m\<lparr>fifo_pgn := enlist_pgn_node (fifo_pgn m) pgn\<rparr>)\<rparr>) }"

text \<open>The physical address of a page's byte, when the page can be reached.\<close>

definition pg_locate :: "bool \<Rightarrow> byte \<Rightarrow> cint \<Rightarrow> krnl_t \<Rightarrow> u64 \<Rightarrow> (u64 option \<times> krnl_t) option" where
  "pg_locate set_fpn val tgt k vadr = do {
     let pgn = PAGING_PGN64 vadr;
     (pte, k) \<leftarrow> pte_get_entry k pgn;
     r \<leftarrow> (if pte AND PAGING_PTE_PRESENT_MASK = 0 then
             if pte AND PAGING_PTE_SWAPPED_MASK \<noteq> 0
             then do { k \<leftarrow> pg_swap_in set_fpn val tgt k pgn pte; Some (True, k) }
             else Some (False, k)
           else Some (True, k));
     let k = snd r;
     if \<not> fst r then Some (None, k)
     else do {
       (pte, k) \<leftarrow> pte_get_entry k pgn;
       Some (Some (ucast (PAGING_FPN pte) * of_nat PAGING_PAGESZ + PAGING_OFFST64 vadr), k) } }"

definition pgread :: "byte \<Rightarrow> cint \<Rightarrow> krnl_t \<Rightarrow> pcb_t \<Rightarrow> u32 \<Rightarrow> u64 \<Rightarrow> u32 \<Rightarrow> (int \<times> pcb_t \<times> krnl_t) option" where
  "pgread val tgt k p source offset destination = do {
     a \<leftarrow> rd (regs p) (unat source);
     (r, k) \<leftarrow> pg_locate False val tgt k (a + offset);
     case r of
       None \<Rightarrow> Some (- 1, p, k)
     | Some phyadr \<Rightarrow> do {
         (_, data, mp) \<leftarrow> MEMPHY_read (mram k) phyadr val;
         rs \<leftarrow> wr (regs p) (unat destination) (byte_to_u64 data);
         Some (0, p\<lparr>regs := rs\<rparr>, k\<lparr>mram := mp\<rparr>) } }"

definition pgwrite :: "byte \<Rightarrow> cint \<Rightarrow> krnl_t \<Rightarrow> pcb_t \<Rightarrow> byte \<Rightarrow> u32 \<Rightarrow> u64 \<Rightarrow> (int \<times> krnl_t) option" where
  "pgwrite val tgt k p data destination offset = do {
     a \<leftarrow> rd (regs p) (unat destination);
     (r, k) \<leftarrow> pg_locate True val tgt k (a + offset);
     case r of
       None \<Rightarrow> Some (- 1, k)
     | Some phyadr \<Rightarrow> do {
         (_, mp) \<leftarrow> MEMPHY_write (mram k) phyadr data;
         Some (0, k\<lparr>mram := mp\<rparr>) } }"

section \<open>Printing lists\<close>

text \<open>The result and what each line shows; a NULL list is an error.\<close>

definition print_list_fp :: "u64 list \<Rightarrow> int \<times> u64 list" where
  "print_list_fp fps = (if fps = [] then (- 1, []) else (0, fps))"

definition print_list_rg :: "vm_rg_struct list \<Rightarrow> int \<times> (u64 \<times> u64) list" where
  "print_list_rg rgs = (if rgs = [] then (- 1, []) else (0, map (\<lambda>rg. (rg_start rg, rg_end rg)) rgs))"

definition print_list_vma :: "vm_area_struct list \<Rightarrow> int \<times> (u64 \<times> u64) list" where
  "print_list_vma vmas = (if vmas = [] then (- 1, []) else (0, map (\<lambda>v. (vm_start v, vm_end v)) vmas))"

definition print_list_pgn :: "u64 list \<Rightarrow> int \<times> u64 list" where
  "print_list_pgn ps = (if ps = [] then (- 1, []) else (0, ps))"

section \<open>What they do in the running system\<close>

text \<open>Without a last table every page is absent: both functions fail and change nothing.\<close>

lemma pte_get_entry_inert: "inert k \<Longrightarrow> pte_get_entry k pgn = Some (0, k)"
  by (auto simp: inert_def pte_get_entry_def)

lemma pg_locate_inert: "inert k \<Longrightarrow> pg_locate f val tgt k vadr = Some (None, k)"
  by (simp add: pg_locate_def pte_get_entry_inert)

lemma pgread_inert:
  "inert k \<Longrightarrow> unat source < length (regs p) \<Longrightarrow> pgread val tgt k p source offset destination = Some (- 1, p, k)"
  by (simp add: pgread_def pg_locate_inert rd_in)

lemma pgwrite_inert:
  "inert k \<Longrightarrow> unat destination < length (regs p) \<Longrightarrow> pgwrite val tgt k p data destination offset = Some (- 1, k)"
  by (simp add: pgwrite_def pg_locate_inert rd_in)

text \<open>A page that is present is found at its frame, whether or not the swapped bit is set too.\<close>

lemma pg_locate_present:
  assumes "pte_get_entry k (PAGING_PGN64 vadr) = Some (pte, k)" "pte AND PAGING_PTE_PRESENT_MASK \<noteq> 0"
  shows "pg_locate f val tgt k vadr =
    Some (Some (ucast (PAGING_FPN pte) * of_nat PAGING_PAGESZ + PAGING_OFFST64 vadr), k)"
  using assms by (simp add: pg_locate_def)

text \<open>With a free frame in RAM, bringing a swapped page in stores through the wrong pointer.\<close>

lemma pg_swap_in_free_frame: "free_fp_list (mram k) \<noteq> [] \<Longrightarrow> pg_swap_in f val tgt k pgn pte = None"
  by (auto simp: pg_swap_in_def pg_victim_def split: list.splits)

end
