(* ===== verification/Mm32.thy ===== *)
theory Mm32
  imports Paging
begin

text \<open>
  The 32-bit memory manager of \<open>src/mm.c\<close>, which is compiled when \<open>MM64\<close> is not defined: there
  \<open>addr_t\<close> and the page table entries have 32 bits and the directory is one flat array. Only
  the entry operations are left of it; the rest prints that it is deprecated and returns 0.
\<close>

section \<open>Entries\<close>

text \<open>The bit macros of \<open>include/mm.h\<close> when their operands have 32 bits.\<close>

definition SETVAL32 :: "u32 \<Rightarrow> u32 \<Rightarrow> u32 \<Rightarrow> nat \<Rightarrow> u32" where
  "SETVAL32 v val m offst = (v AND NOT m) OR (push_bit offst val AND m)"

definition init_pte32 :: "u32 \<Rightarrow> int \<Rightarrow> u32 \<Rightarrow> int \<Rightarrow> int \<Rightarrow> cint \<Rightarrow> u32 \<Rightarrow> int \<times> u32" where
  "init_pte32 pte pre fpn drt swp swptyp swpoff =
     (if pre \<noteq> 0 then
        if swp = 0 then
          if fpn = 0 then (- 1, pte)
          else
            let pte = pte OR PAGING_PTE_PRESENT_MASK;
                pte = pte AND NOT PAGING_PTE_SWAPPED_MASK;
                pte = pte AND NOT PAGING_PTE_DIRTY_MASK
            in (0, SETVAL32 pte fpn PAGING_PTE_FPN_MASK PAGING_PTE_FPN_LOBIT)
        else
          let pte = pte OR PAGING_PTE_PRESENT_MASK;
              pte = pte OR PAGING_PTE_SWAPPED_MASK;
              pte = pte AND NOT PAGING_PTE_DIRTY_MASK;
              pte = SETVAL32 pte swptyp PAGING_PTE_SWPTYP_MASK PAGING_PTE_SWPTYP_LOBIT
          in (0, SETVAL32 pte swpoff PAGING_PTE_SWPOFF_MASK PAGING_PTE_SWPOFF_LOBIT)
      else (0, pte))"

definition pte_swapped32 :: "u32 \<Rightarrow> cint \<Rightarrow> u32 \<Rightarrow> u32" where
  "pte_swapped32 pte swptyp swpoff =
     (let pte = pte OR PAGING_PTE_PRESENT_MASK;
          pte = pte OR PAGING_PTE_SWAPPED_MASK;
          pte = SETVAL32 pte swptyp PAGING_PTE_SWPTYP_MASK PAGING_PTE_SWPTYP_LOBIT
      in SETVAL32 pte swpoff PAGING_PTE_SWPOFF_MASK PAGING_PTE_SWPOFF_LOBIT)"

definition pte_online32 :: "u32 \<Rightarrow> u32 \<Rightarrow> u32" where
  "pte_online32 pte fpn =
     (let pte = pte OR PAGING_PTE_PRESENT_MASK;
          pte = pte AND NOT PAGING_PTE_SWAPPED_MASK
      in SETVAL32 pte fpn PAGING_PTE_FPN_MASK PAGING_PTE_FPN_LOBIT)"

section \<open>The flat directory\<close>

text \<open>\<open>pgd[pgn]\<close> in the array that \<open>pgd\<close> points to; \<open>init_mm\<close> never sets that pointer.\<close>

definition pte_set_swap32 :: "u32 list \<Rightarrow> u32 \<Rightarrow> cint \<Rightarrow> u32 \<Rightarrow> (int \<times> u32 list) option" where
  "pte_set_swap32 pgd pgn swptyp swpoff = do {
     e \<leftarrow> rd pgd (unat pgn);
     pgd \<leftarrow> wr pgd (unat pgn) (pte_swapped32 e swptyp swpoff);
     Some (0, pgd) }"

definition pte_set_fpn32 :: "u32 list \<Rightarrow> u32 \<Rightarrow> u32 \<Rightarrow> (int \<times> u32 list) option" where
  "pte_set_fpn32 pgd pgn fpn = do {
     e \<leftarrow> rd pgd (unat pgn);
     pgd \<leftarrow> wr pgd (unat pgn) (pte_online32 e fpn);
     Some (0, pgd) }"

definition pte_set_entry32 :: "u32 list \<Rightarrow> u32 \<Rightarrow> u32 \<Rightarrow> (int \<times> u32 list) option" where
  "pte_set_entry32 pgd pgn pte_val = do { pgd \<leftarrow> wr pgd (unat pgn) pte_val; Some (0, pgd) }"

text \<open>The five indices: the macros cut the 32-bit address with 64-bit masks.\<close>

definition get_pd_from_address32 :: "u32 \<Rightarrow> u32 \<times> u32 \<times> u32 \<times> u32 \<times> u32" where
  "get_pd_from_address32 addr =
     (let a = ucast addr
      in (ucast (PAGING64_ADDR_PGD a), ucast (PAGING64_ADDR_P4D a), ucast (PAGING64_ADDR_PUD a),
          ucast (PAGING64_ADDR_PMD a), ucast (PAGING64_ADDR_PT a)))"

section \<open>Lists\<close>

text \<open>Regions are pairs of their bounds, in the order of the list.\<close>

definition init_vm_rg32 :: "u32 \<Rightarrow> u32 \<Rightarrow> u32 \<times> u32" where
  "init_vm_rg32 rg_start rg_end = (rg_start, rg_end)"

definition enlist_vm_rg_node32 :: "(u32 \<times> u32) list \<Rightarrow> u32 \<times> u32 \<Rightarrow> int \<times> (u32 \<times> u32) list" where
  "enlist_vm_rg_node32 rglist rgnode = (0, rgnode # rglist)"

text \<open>\<open>oom\<close> is whether \<open>malloc\<close> fails.\<close>

definition enlist_pgn_node32 :: "bool \<Rightarrow> u32 list \<Rightarrow> u32 \<Rightarrow> int \<times> u32 list" where
  "enlist_pgn_node32 oom plist pgn = (if oom then (- 1, plist) else (0, pgn # plist))"

section \<open>The deprecated functions\<close>

text \<open>What they return and the name they print; they touch nothing.\<close>

definition deprecated :: "string \<Rightarrow> u32 \<times> string" where
  "deprecated f = (0, f)"

definition get_pd_from_pagenum32 :: "u32 \<times> string" where "get_pd_from_pagenum32 = deprecated ''get_pd_from_pagenum''"
definition pte_get_entry32 :: "u32 \<times> string" where "pte_get_entry32 = deprecated ''pte_get_entry''"
definition vmap_pgd_memset32 :: "u32 \<times> string" where "vmap_pgd_memset32 = deprecated ''vmap_pgd_memset''"
definition vmap_page_range32 :: "u32 \<times> string" where "vmap_page_range32 = deprecated ''vmap_page_range''"
definition alloc_pages_range32 :: "u32 \<times> string" where "alloc_pages_range32 = deprecated ''alloc_pages_range''"
definition vm_map_ram32 :: "u32 \<times> string" where "vm_map_ram32 = deprecated ''vm_map_ram''"
definition swap_cp_page32 :: "u32 \<times> string" where "swap_cp_page32 = deprecated ''__swap_cp_page''"
definition init_mm32 :: "u32 \<times> string" where "init_mm32 = deprecated ''init_mm''"
definition print_list_fp32 :: "u32 \<times> string" where "print_list_fp32 = deprecated ''print_list_fp''"
definition print_list_rg32 :: "u32 \<times> string" where "print_list_rg32 = deprecated ''print_list_rg''"
definition print_list_vma32 :: "u32 \<times> string" where "print_list_vma32 = deprecated ''print_list_vma''"
definition print_list_pgn32 :: "u32 \<times> string" where "print_list_pgn32 = deprecated ''print_list_pgn''"
definition print_pgtbl32 :: "u32 \<times> string" where "print_pgtbl32 = deprecated ''print_pgtbl''"

section \<open>The two managers write the same entries\<close>

lemma ucast_SETBIT: "(ucast (SETBIT v m) :: u32) = ucast v OR m"
  by (rule bit_word_eqI) (auto simp: SETBIT_def bit_simps)

lemma ucast_CLRBIT: "(ucast (CLRBIT v m) :: u32) = ucast v AND NOT m"
  by (rule bit_word_eqI) (auto simp: CLRBIT_def bit_simps)

lemma ucast_SETVAL: "(ucast (SETVAL v val m n) :: u32) = SETVAL32 (ucast v) (ucast val) m n"
  by (rule bit_word_eqI) (auto simp: SETVAL_def SETVAL32_def bit_simps)

lemma ucast_SETVAL_int: "(ucast (SETVAL_int v val m n) :: u32) = SETVAL32 (ucast v) val m n"
  by (rule bit_word_eqI) (auto simp: SETVAL_int_def SETVAL32_def bit_simps)

lemmas ucast_entry = ucast_SETBIT ucast_CLRBIT ucast_SETVAL ucast_SETVAL_int

text \<open>
  C40: the 32-bit and the 64-bit memory manager agree on page table entries: for the same
  32-bit arguments \<open>init_pte\<close> returns the same code and, in the low 32 bits that
  \<open>pte_get_entry\<close> delivers, the same entry; and so do the updates that \<open>pte_set_fpn\<close> and
  \<open>pte_set_swap\<close> make to an entry, whatever it held.
\<close>
theorem entries_agree:
  fixes pte :: u64 and fpn swpoff :: u32
  shows "(case init_pte pte pre (ucast fpn) drt swp swptyp (ucast swpoff) of (r, e) \<Rightarrow> (r, ucast e)) =
      init_pte32 (ucast pte) pre fpn drt swp swptyp swpoff \<and>
    ucast (pte_online pte (ucast fpn)) = pte_online32 (ucast pte) fpn \<and>
    ucast (pte_swapped pte swptyp (ucast swpoff)) = pte_swapped32 (ucast pte) swptyp swpoff"
proof -
  have u: "(ucast (ucast w :: u64) :: u32) = w" for w :: u32 by (rule bit_word_eqI) (auto simp: bit_simps)
  have z: "(ucast fpn :: u64) = 0 \<longleftrightarrow> fpn = 0" using u [of fpn] by (metis unsigned_0)
  show ?thesis
    by (simp add: init_pte_def init_pte32_def pte_online_def pte_online32_def pte_swapped_def pte_swapped32_def
        ucast_entry z u Let_def)
qed

text \<open>A flat directory is a map: an update is seen at its page and nowhere else.\<close>

lemma pte_set_fpn32_get:
  assumes "unat pgn < length pgd"
  shows "\<exists>pgd'. pte_set_fpn32 pgd pgn fpn = Some (0, pgd') \<and> length pgd' = length pgd \<and>
    (\<forall>i < length pgd. pgd' ! i = (if i = unat pgn then pte_online32 (pgd ! i) fpn else pgd ! i))"
  using assms by (simp add: pte_set_fpn32_def rd_def wr_def)

end
