(* ===== verification/Locks.thy ===== *)
theory Locks
  imports Syscall
begin

text \<open>
  The two mutexes of \<open>running_list\<close>, at the level of single statements. \<open>put_proc\<close> and
  \<open>add_proc\<close> append to the list under the static \<open>queue_lock\<close> of \<open>src/sched.c\<close>; the system
  calls search it under the \<open>queue_lock\<close> of \<open>src/sys_mem.c\<close>, a different variable.

  Every statement of \<open>enqueue\<close>, \<open>dequeue\<close> and of the search loop is a step, and a step of one
  thread may come between any two steps of another one that holds another mutex. The mutex of a
  critical section is a parameter of the step relation. Sections that take the same mutex, as all the
  appends do and all the searches do, are the atomic operations of \<open>Queue\<close> and \<open>Syscall\<close>; a search and
  an append, which take different ones, are not.
\<close>

section \<open>Critical sections\<close>

text \<open>What a thread does: append a process, or search for a process number.\<close>

datatype task = Append pref | Search u32

text \<open>The statements: of the search loop (\<open>list_size = size\<close>, the loop test, the test of
  \<open>proc\<close>), of \<open>dequeue\<close>, of \<open>enqueue\<close>, and the unlocking.\<close>

datatype stmt = Read_size | Loop_test | Deq_empty | Deq_head | Deq_shift nat | Deq_dec | Deq_clear
  | Check_pid | Enq_full | Enq_store | Enq_inc | Unlock

text \<open>The local variables: the process in hand, the loop counter \<open>i\<close>, \<open>list_size\<close>, \<open>caller\<close>, and
  the number searched for (none when the section only appends).\<close>

record cs_t =
  at_stmt :: stmt
  in_hand :: "pref option"
  cnt :: nat
  list_size :: nat
  found :: "pref option"
  wanted :: "u32 option"

fun enter :: "task \<Rightarrow> cs_t" where
  "enter (Append p) = \<lparr>at_stmt = Enq_full, in_hand = Some p, cnt = 0, list_size = 0, found = None, wanted = None\<rparr>"
| "enter (Search pd) = \<lparr>at_stmt = Read_size, in_hand = None, cnt = 0, list_size = 0, found = None, wanted = Some pd\<rparr>"

text \<open>After \<open>enqueue\<close>: the search goes round its loop, an append is over.\<close>

definition after_enqueue :: "cs_t \<Rightarrow> cs_t" where
  "after_enqueue c = (if wanted c = None then c\<lparr>at_stmt := Unlock\<rparr> else c\<lparr>at_stmt := Loop_test, cnt := Suc (cnt c)\<rparr>)"

text \<open>One statement. \<open>size--\<close> of an empty list would make the next statement write in front of the
  array.\<close>

definition exec_stmt :: "pcb_heap \<Rightarrow> cs_t \<Rightarrow> pref queue_t \<Rightarrow> (cs_t \<times> pref queue_t) option" where
  "exec_stmt h c q = (case at_stmt c of
     Read_size \<Rightarrow> Some (c\<lparr>list_size := qsize q, at_stmt := Loop_test\<rparr>, q)
   | Loop_test \<Rightarrow>
       Some (c\<lparr>at_stmt := if cnt c < list_size c \<and> found c = None then Deq_empty else Unlock\<rparr>, q)
   | Deq_empty \<Rightarrow>
       Some (if empty q then c\<lparr>in_hand := None, at_stmt := Check_pid\<rparr> else c\<lparr>at_stmt := Deq_head\<rparr>, q)
   | Deq_head \<Rightarrow> do { x \<leftarrow> rd (qproc q) 0; Some (c\<lparr>in_hand := x, at_stmt := Deq_shift 1\<rparr>, q) }
   | Deq_shift i \<Rightarrow>
       if i < qsize q then do {
         x \<leftarrow> rd (qproc q) i;
         a \<leftarrow> wr (qproc q) (i - 1) x;
         Some (c\<lparr>at_stmt := Deq_shift (Suc i)\<rparr>, q\<lparr>qproc := a\<rparr>) }
       else Some (c\<lparr>at_stmt := Deq_dec\<rparr>, q)
   | Deq_dec \<Rightarrow> if qsize q = 0 then None else Some (c\<lparr>at_stmt := Deq_clear\<rparr>, q\<lparr>qsize := qsize q - 1\<rparr>)
   | Deq_clear \<Rightarrow> do { a \<leftarrow> wr (qproc q) (qsize q) None; Some (c\<lparr>at_stmt := Check_pid\<rparr>, q\<lparr>qproc := a\<rparr>) }
   | Check_pid \<Rightarrow>
       (case in_hand c of
          None \<Rightarrow> Some (c\<lparr>cnt := Suc (cnt c), at_stmt := Loop_test\<rparr>, q)
        | Some p \<Rightarrow> do {
            b \<leftarrow> h p;
            Some (c\<lparr>found := if wanted c = Some (pid b) then Some p else found c, at_stmt := Enq_full\<rparr>, q) })
   | Enq_full \<Rightarrow> Some (if MAX_QUEUE_SIZE \<le> qsize q then after_enqueue c else c\<lparr>at_stmt := Enq_store\<rparr>, q)
   | Enq_store \<Rightarrow> do { a \<leftarrow> wr (qproc q) (qsize q) (in_hand c); Some (c\<lparr>at_stmt := Enq_inc\<rparr>, q\<lparr>qproc := a\<rparr>) }
   | Enq_inc \<Rightarrow> Some (after_enqueue c, q\<lparr>qsize := Suc (qsize q)\<rparr>)
   | Unlock \<Rightarrow> None)"

section \<open>Threads and mutexes\<close>

text \<open>A thread is in front of its critical section, in it, or behind it with a result.\<close>

datatype where_cs = Outside | Inside cs_t | Done_cs "pref option"

record locks_t =
  shared :: "pref queue_t"
  holder :: "nat \<Rightarrow> nat option"
  threads :: "(task \<times> where_cs) list"

inductive lstep :: "pcb_heap \<Rightarrow> (task \<Rightarrow> nat) \<Rightarrow> locks_t \<Rightarrow> nat \<Rightarrow> locks_t \<Rightarrow> bool"
  for h :: pcb_heap and mutex :: "task \<Rightarrow> nat" where
  lock: "i < length (threads s) \<Longrightarrow> threads s ! i = (t, Outside) \<Longrightarrow> holder s (mutex t) = None \<Longrightarrow>
     lstep h mutex s i (s\<lparr>holder := (holder s)(mutex t := Some i), threads := (threads s)[i := (t, Inside (enter t))]\<rparr>)"
| exec: "i < length (threads s) \<Longrightarrow> threads s ! i = (t, Inside c) \<Longrightarrow> exec_stmt h c (shared s) = Some (c', q) \<Longrightarrow>
     lstep h mutex s i (s\<lparr>shared := q, threads := (threads s)[i := (t, Inside c')]\<rparr>)"
| unlock: "i < length (threads s) \<Longrightarrow> threads s ! i = (t, Inside c) \<Longrightarrow> at_stmt c = Unlock \<Longrightarrow>
     lstep h mutex s i (s\<lparr>holder := (holder s)(mutex t := None), threads := (threads s)[i := (t, Done_cs (found c))]\<rparr>)"

definition locks_init :: "pref queue_t \<Rightarrow> locks_t \<Rightarrow> bool" where
  "locks_init q s \<longleftrightarrow> shared s = q \<and> holder s = (\<lambda>_. None) \<and> (\<forall>(t, w)\<in>set (threads s). w = Outside)"

text \<open>The mutexes of the code: 0 is the one of \<open>sched.c\<close>, 1 the one of \<open>sys_mem.c\<close>.\<close>

fun queue_lock :: "task \<Rightarrow> nat" where
  "queue_lock (Append p) = 0"
| "queue_lock (Search pd) = 1"

section \<open>What is left of a critical section\<close>

text \<open>The atomic operation a critical section stands for.\<close>

fun atomic :: "pcb_heap \<Rightarrow> task \<Rightarrow> pref queue_t \<Rightarrow> (pref option \<times> pref queue_t) option" where
  "atomic h (Append p) q = Some (None, enqueue q (Some p))"
| "atomic h (Search pd) q = find_loop h pd (qsize q) q"

text \<open>\<open>rest\<close> is the result when the section runs on alone from the statement it is at.\<close>

definition loop_rest :: "pcb_heap \<Rightarrow> cs_t \<Rightarrow> nat \<Rightarrow> pref queue_t \<Rightarrow> (pref option \<times> pref queue_t) option" where
  "loop_rest h c i q = (case wanted c of
     None \<Rightarrow> Some (found c, q)
   | Some pd \<Rightarrow> if found c = None then find_loop h pd (list_size c - i) q else Some (found c, q))"

definition check_rest :: "pcb_heap \<Rightarrow> cs_t \<Rightarrow> pref option \<Rightarrow> pref queue_t \<Rightarrow> (pref option \<times> pref queue_t) option" where
  "check_rest h c x q = (case x of
     None \<Rightarrow> loop_rest h c (Suc (cnt c)) q
   | Some p \<Rightarrow> do {
       b \<leftarrow> h p;
       loop_rest h (c\<lparr>found := if wanted c = Some (pid b) then Some p else found c\<rparr>) (Suc (cnt c)) (enqueue q (Some p)) })"

definition rest :: "pcb_heap \<Rightarrow> cs_t \<Rightarrow> pref queue_t \<Rightarrow> (pref option \<times> pref queue_t) option" where
  "rest h c q = (case at_stmt c of
     Read_size \<Rightarrow> loop_rest h (c\<lparr>list_size := qsize q\<rparr>) (cnt c) q
   | Loop_test \<Rightarrow> loop_rest h c (cnt c) q
   | Deq_empty \<Rightarrow> loop_rest h c (cnt c) q
   | Deq_head \<Rightarrow> loop_rest h c (cnt c) q
   | Deq_shift i \<Rightarrow> check_rest h c (in_hand c)
       (q\<lparr>qsize := qsize q - 1, qproc := (shift_loop (qproc q) i (qsize q))[qsize q - 1 := None]\<rparr>)
   | Deq_dec \<Rightarrow> check_rest h c (in_hand c) (q\<lparr>qsize := qsize q - 1, qproc := (qproc q)[qsize q - 1 := None]\<rparr>)
   | Deq_clear \<Rightarrow> check_rest h c (in_hand c) (q\<lparr>qproc := (qproc q)[qsize q := None]\<rparr>)
   | Check_pid \<Rightarrow> check_rest h c (in_hand c) q
   | Enq_full \<Rightarrow> loop_rest h c (Suc (cnt c)) (enqueue q (in_hand c))
   | Enq_store \<Rightarrow> loop_rest h c (Suc (cnt c)) (q\<lparr>qproc := (qproc q)[qsize q := in_hand c], qsize := Suc (qsize q)\<rparr>)
   | Enq_inc \<Rightarrow> loop_rest h c (Suc (cnt c)) (q\<lparr>qsize := Suc (qsize q)\<rparr>)
   | Unlock \<Rightarrow> Some (found c, q))"

text \<open>The array bounds, and what holds between the statements of a section that runs alone.\<close>

definition cs_ok :: "cs_t \<Rightarrow> pref queue_t \<Rightarrow> bool" where
  "cs_ok c q \<longleftrightarrow> length (qproc q) = MAX_QUEUE_SIZE \<and> qsize q \<le> MAX_QUEUE_SIZE \<and> (case at_stmt c of
     Read_size \<Rightarrow> wanted c \<noteq> None \<and> found c = None \<and> cnt c = 0
   | Loop_test \<Rightarrow> wanted c \<noteq> None
   | Deq_empty \<Rightarrow> wanted c \<noteq> None \<and> found c = None \<and> cnt c < list_size c
   | Deq_head \<Rightarrow> wanted c \<noteq> None \<and> found c = None \<and> cnt c < list_size c \<and> 0 < qsize q
   | Deq_shift i \<Rightarrow> wanted c \<noteq> None \<and> found c = None \<and> 0 < qsize q \<and> 0 < i
   | Deq_dec \<Rightarrow> wanted c \<noteq> None \<and> found c = None \<and> 0 < qsize q
   | Deq_clear \<Rightarrow> wanted c \<noteq> None \<and> found c = None \<and> qsize q < MAX_QUEUE_SIZE
   | Check_pid \<Rightarrow> wanted c \<noteq> None \<and> found c = None
   | Enq_full \<Rightarrow> in_hand c \<noteq> None
   | Enq_store \<Rightarrow> in_hand c \<noteq> None \<and> qsize q < MAX_QUEUE_SIZE
   | Enq_inc \<Rightarrow> qsize q < MAX_QUEUE_SIZE
   | Unlock \<Rightarrow> True)"

lemma loop_rest_simps [simp]:
  "loop_rest h (c\<lparr>at_stmt := a\<rparr>) i q = loop_rest h c i q"
  "loop_rest h (c\<lparr>cnt := n\<rparr>) i q = loop_rest h c i q"
  "loop_rest h (c\<lparr>in_hand := x\<rparr>) i q = loop_rest h c i q"
  by (auto simp: loop_rest_def split: option.split)

lemma check_rest_simps [simp]:
  "check_rest h (c\<lparr>at_stmt := a\<rparr>) x q = check_rest h c x q"
  "check_rest h (c\<lparr>in_hand := y\<rparr>) x q = check_rest h c x q"
proof -
  have e: "c\<lparr>at_stmt := a, found := f\<rparr> = c\<lparr>found := f, at_stmt := a\<rparr>"
    "c\<lparr>in_hand := y, found := f\<rparr> = c\<lparr>found := f, in_hand := y\<rparr>" for f by simp_all
  show "check_rest h (c\<lparr>at_stmt := a\<rparr>) x q = check_rest h c x q"
    "check_rest h (c\<lparr>in_hand := y\<rparr>) x q = check_rest h c x q"
    by (simp_all add: check_rest_def e cong: if_cong split: option.split)
qed

lemma after_enqueue_rest: "rest h (after_enqueue c) q = loop_rest h c (Suc (cnt c)) q"
  by (auto simp: after_enqueue_def rest_def loop_rest_def split: option.split)

lemma after_enqueue_ok:
  "length (qproc q) = MAX_QUEUE_SIZE \<Longrightarrow> qsize q \<le> MAX_QUEUE_SIZE \<Longrightarrow> cs_ok (after_enqueue c) q"
  by (simp add: after_enqueue_def cs_ok_def)

text \<open>The search loop takes one more process.\<close>

lemma loop_rest_empty:
  assumes "empty q" "wanted c \<noteq> None" "found c = None" "cnt c < list_size c"
  shows "loop_rest h c (cnt c) q = check_rest h c None q"
proof -
  obtain n where n: "list_size c - cnt c = Suc n" "list_size c - Suc (cnt c) = n"
    using assms(4) by (metis Suc_diff_Suc)
  have "dequeue q = (None, q)" using assms(1) by (simp add: dequeue_def)
  with n assms show ?thesis by (auto simp: loop_rest_def check_rest_def)
qed

lemma loop_rest_head:
  assumes "0 < qsize q" "wanted c \<noteq> None" "found c = None" "cnt c < list_size c"
  shows "loop_rest h c (cnt c) q = check_rest h c (qproc q ! 0)
    (q\<lparr>qsize := qsize q - 1, qproc := (shift_loop (qproc q) 1 (qsize q))[qsize q - 1 := None]\<rparr>)"
proof -
  obtain n where n: "list_size c - cnt c = Suc n" "list_size c - Suc (cnt c) = n"
    using assms(4) by (metis Suc_diff_Suc)
  obtain pd where pd: "wanted c = Some pd" using assms(2) by blast
  define q1 where "q1 = q\<lparr>qsize := qsize q - 1, qproc := (shift_loop (qproc q) 1 (qsize q))[qsize q - 1 := None]\<rparr>"
  have d: "dequeue q = (qproc q ! 0, q1)" using assms(1) by (simp add: q1_def dequeue_def empty_def Let_def)
  have "loop_rest h c (cnt c) q = check_rest h c (qproc q ! 0) q1"
  proof (cases "qproc q ! 0")
    case None
    with n d pd assms(3) show ?thesis by (simp add: loop_rest_def check_rest_def)
  next
    case (Some p)
    with n d pd assms(3) show ?thesis by (cases "h p") (auto simp: check_rest_def loop_rest_def Let_def)
  qed
  then show ?thesis by (simp only: q1_def)
qed

lemma exec_stmt_rest:
  assumes "cs_ok c q" "exec_stmt h c q = Some (c', q')"
  shows "cs_ok c' q' \<and> rest h c' q' = rest h c q"
proof (cases "at_stmt c")
  case Read_size
  with assms show ?thesis by (auto simp: exec_stmt_def cs_ok_def rest_def)
next
  case Loop_test
  with assms show ?thesis
    by (auto simp: exec_stmt_def cs_ok_def rest_def loop_rest_def split: if_splits)
next
  case Deq_empty
  with assms loop_rest_empty [of q c h] show ?thesis
    by (auto simp: exec_stmt_def cs_ok_def rest_def empty_def split: if_splits)
next
  case Deq_head
  with assms loop_rest_head [of q c h] show ?thesis
    by (auto simp: exec_stmt_def cs_ok_def rest_def bind_eq_Some_conv c_access)
next
  case (Deq_shift i)
  with assms shift_loop.simps [of "qproc q" i "qsize q"] show ?thesis
    by (auto simp: exec_stmt_def cs_ok_def rest_def bind_eq_Some_conv c_access split: if_splits)
next
  case Deq_dec
  with assms show ?thesis
    by (auto simp: exec_stmt_def cs_ok_def rest_def MAX_QUEUE_SIZE_def split: if_splits)
next
  case Deq_clear
  with assms show ?thesis by (auto simp: exec_stmt_def cs_ok_def rest_def bind_eq_Some_conv c_access)
next
  case Check_pid
  with assms show ?thesis
    by (auto simp: exec_stmt_def cs_ok_def rest_def check_rest_def bind_eq_Some_conv split: option.splits)
next
  case Enq_full
  with assms after_enqueue_rest [of h c q] after_enqueue_ok [of q c] show ?thesis
    by (auto simp: exec_stmt_def cs_ok_def rest_def enqueue_def split: if_splits)
next
  case Enq_store
  with assms show ?thesis by (auto simp: exec_stmt_def cs_ok_def rest_def bind_eq_Some_conv c_access)
next
  case Enq_inc
  with assms after_enqueue_rest [of h c q'] after_enqueue_ok [of q' c] show ?thesis
    by (auto simp: exec_stmt_def cs_ok_def rest_def)
next
  case Unlock
  with assms show ?thesis by (simp add: exec_stmt_def)
qed

text \<open>A statement is undefined only when the operation is: the number of a freed process is read.\<close>

lemma exec_stmt_None:
  assumes "cs_ok c q" "exec_stmt h c q = None" "at_stmt c \<noteq> Unlock"
  shows "rest h c q = None"
proof (cases "at_stmt c")
  case Check_pid
  with assms show ?thesis
    by (auto simp: exec_stmt_def cs_ok_def rest_def check_rest_def bind_eq_None_conv split: option.splits)
qed (use assms in \<open>auto simp: exec_stmt_def cs_ok_def bind_eq_None_conv c_access MAX_QUEUE_SIZE_def split: if_splits\<close>)

definition fits :: "pref queue_t \<Rightarrow> bool" where
  "fits q \<longleftrightarrow> length (qproc q) = MAX_QUEUE_SIZE \<and> qsize q \<le> MAX_QUEUE_SIZE"

lemma cs_ok_fits: "cs_ok c q \<Longrightarrow> fits q"
  by (simp add: cs_ok_def fits_def)

lemma enter_ok: "fits q \<Longrightarrow> cs_ok (enter t) q \<and> rest h (enter t) q = atomic h t q"
  by (cases t) (simp_all add: fits_def cs_ok_def rest_def loop_rest_def)

lemma rest_Unlock: "at_stmt c = Unlock \<Longrightarrow> rest h c q = Some (found c, q)"
  by (simp add: rest_def)

section \<open>With one mutex\<close>

text \<open>A history: the operations in the order of their critical sections, with their results.\<close>

primrec serial :: "pcb_heap \<Rightarrow> (task \<times> pref option) list \<Rightarrow> pref queue_t \<Rightarrow> pref queue_t option" where
  "serial h [] q = Some q"
| "serial h (x # xs) q = do { (r, q) \<leftarrow> atomic h (fst x) q; if r = snd x then serial h xs q else None }"

lemma serial_snoc:
  "serial h xs q = Some q1 \<Longrightarrow> atomic h t q1 = Some (r, q2) \<Longrightarrow> serial h (xs @ [(t, r)]) q = Some q2"
  by (induction xs arbitrary: q) (auto simp: bind_eq_Some_conv split: if_splits)

fun outcome :: "task \<times> where_cs \<Rightarrow> (task \<times> pref option) multiset" where
  "outcome (t, Done_cs r) = {#(t, r)#}"
| "outcome (t, w) = {#}"

definition results :: "locks_t \<Rightarrow> (task \<times> pref option) multiset" where
  "results s = sum_list (map outcome (threads s))"

lemma results_update:
  "i < length (threads s) \<Longrightarrow> sum_list (map outcome ((threads s)[i := x])) + outcome (threads s ! i) = results s + outcome x"
  using sum_update [of i "threads s" outcome x] by (simp add: results_def)

text \<open>
  The invariant: the completed sections are a serial history; when the mutex is free its
  result is the shared list, and when it is held, what the holder has left to do on the shared
  list is what its operation does on the result of the history.
\<close>

definition only_inside :: "locks_t \<Rightarrow> nat option \<Rightarrow> bool" where
  "only_inside s x \<longleftrightarrow> (\<forall>j < length (threads s). Some j \<noteq> x \<longrightarrow> (\<forall>c. snd (threads s ! j) \<noteq> Inside c))"

definition serial_inv :: "pcb_heap \<Rightarrow> pref queue_t \<Rightarrow> nat \<Rightarrow> locks_t \<Rightarrow> bool" where
  "serial_inv h q0 m s \<longleftrightarrow> only_inside s (holder s m) \<and> (fits q0 \<longrightarrow> fits (shared s) \<and>
     (\<exists>hs q1. serial h hs q0 = Some q1 \<and> mset hs = results s \<and> (case holder s m of
        None \<Rightarrow> shared s = q1
      | Some i \<Rightarrow> i < length (threads s) \<and> (\<exists>t c. threads s ! i = (t, Inside c) \<and>
          cs_ok c (shared s) \<and> rest h c (shared s) = atomic h t q1))))"

lemma inside_holder: "only_inside s x \<Longrightarrow> i < length (threads s) \<Longrightarrow> threads s ! i = (t, Inside c) \<Longrightarrow> x = Some i"
  unfolding only_inside_def by (metis snd_conv)

lemma lstep_serial:
  assumes "lstep h (\<lambda>_. m) s i s'" "serial_inv h q0 m s"
  shows "serial_inv h q0 m s'"
  using assms(1)
proof (cases rule: lstep.cases)
  case (lock t)
  have "results s' = results s" using results_update [of i s "(t, Inside (enter t))"] lock by (simp add: results_def)
  with assms(2) lock enter_ok [of "shared s" t h] show ?thesis
    by (auto simp: serial_inv_def only_inside_def nth_list_update)
next
  case (exec t c c' q)
  have "holder s m = Some i" using assms(2) inside_holder exec(2,3) unfolding serial_inv_def by blast
  moreover have "results s' = results s" using results_update [of i s "(t, Inside c')"] exec by (simp add: results_def)
  ultimately show ?thesis
    using assms(2) exec exec_stmt_rest [of c "shared s" h c' q] cs_ok_fits [of c' q]
    by (fastforce simp: serial_inv_def only_inside_def nth_list_update)
next
  case (unlock t c)
  have "holder s m = Some i" using assms(2) inside_holder unlock(2,3) unfolding serial_inv_def by blast
  moreover have "results s' = add_mset (t, found c) (results s)"
    using results_update [of i s "(t, Done_cs (found c))"] unlock by (simp add: results_def)
  ultimately show ?thesis
    using assms(2) unlock rest_Unlock [of c h "shared s"] serial_snoc [of h _ q0 _ t "found c" "shared s"]
    by (fastforce simp: serial_inv_def only_inside_def nth_list_update)
qed

lemma init_serial: "locks_init q0 s \<Longrightarrow> serial_inv h q0 m s"
proof -
  assume i: "locks_init q0 s"
  then have out: "snd (threads s ! j) = Outside" if "j < length (threads s)" for j
    using nth_mem [OF that] by (auto simp: locks_init_def)
  have none: "\<forall>x\<in>set (threads s). outcome x = {#}" using i by (auto simp: locks_init_def)
  have "\<forall>x\<in>set xs. outcome x = {#} \<Longrightarrow> sum_list (map outcome xs) = {#}" for xs by (induction xs) auto
  with none have "results s = {#}" by (simp add: results_def)
  with i out show ?thesis
    by (auto simp: serial_inv_def only_inside_def locks_init_def intro!: exI [of _ "[]"])
qed

interpretation serialised: step_invariant "locks_init q0" "lstep h (\<lambda>_. m)" "serial_inv h q0 m"
  by unfold_locales (auto intro: init_serial lstep_serial)

text \<open>Threads that take the same mutex move as if there were no other.\<close>

definition same_mutex :: "(task \<Rightarrow> nat) \<Rightarrow> nat \<Rightarrow> locks_t \<Rightarrow> bool" where
  "same_mutex mutex m s \<longleftrightarrow> (\<forall>x\<in>set (threads s). mutex (fst x) = m)"

lemma same_mutexD: "same_mutex mutex m s \<Longrightarrow> i < length (threads s) \<Longrightarrow> threads s ! i = (t, w) \<Longrightarrow> mutex t = m"
  unfolding same_mutex_def by (metis fst_conv nth_mem)

lemma lstep_same:
  assumes "same_mutex mutex m s"
  shows "lstep h mutex s i s' \<longleftrightarrow> lstep h (\<lambda>_. m) s i s'"
proof
  assume "lstep h mutex s i s'"
  then show "lstep h (\<lambda>_. m) s i s'"
  proof (cases rule: lstep.cases)
    case (lock t)
    with same_mutexD [OF assms lock(2,3)] lstep.lock [of i s t "\<lambda>_. m" h] show ?thesis by simp
  next
    case (exec t c c' q)
    with lstep.exec [of i s t c h c' q "\<lambda>_. m"] show ?thesis by simp
  next
    case (unlock t c)
    with same_mutexD [OF assms unlock(2,3)] lstep.unlock [of i s t c h "\<lambda>_. m"] show ?thesis by simp
  qed
next
  assume "lstep h (\<lambda>_. m) s i s'"
  then show "lstep h mutex s i s'"
  proof (cases rule: lstep.cases)
    case (lock t)
    with same_mutexD [OF assms lock(2,3)] lstep.lock [of i s t mutex h] show ?thesis by simp
  next
    case (exec t c c' q)
    with lstep.exec [of i s t c h c' q mutex] show ?thesis by simp
  next
    case (unlock t c)
    with same_mutexD [OF assms unlock(2,3)] lstep.unlock [of i s t c h mutex] show ?thesis by simp
  qed
qed

lemma lstep_tasks: "lstep h mutex s i s' \<Longrightarrow> map fst (threads s') = map fst (threads s)"
  by (erule lstep.cases) (auto simp: map_update list_update_same_conv)

lemma same_mutex_map: "same_mutex mutex m s \<longleftrightarrow> list_all (\<lambda>t. mutex t = m) (map fst (threads s))"
  by (simp add: same_mutex_def list_all_iff)

lemma same_mutex_tasks: "map fst (threads s') = map fst (threads s) \<Longrightarrow> same_mutex mutex m s' = same_mutex mutex m s"
  unfolding same_mutex_map by simp

lemma reach_same:
  assumes "reach init (lstep h mutex) s" "same_mutex mutex m s"
  shows "reach init (lstep h (\<lambda>_. m)) s"
  using assms
proof (induction rule: reach.induct)
  case (reach_init s)
  then show ?case by (intro reach.reach_init)
next
  case (reach_step s a s')
  then have "same_mutex mutex m s" using same_mutex_tasks [OF lstep_tasks] by blast
  with reach_step lstep_same [of mutex m s h a s'] show ?case by (blast intro: reach.reach_step)
qed

section \<open>With the mutexes of the code\<close>

text \<open>The step of a thread as a function, to run the threads in a given order.\<close>

definition advance :: "pcb_heap \<Rightarrow> (task \<Rightarrow> nat) \<Rightarrow> nat \<Rightarrow> locks_t \<Rightarrow> locks_t option" where
  "advance h mutex i s = do {
     (t, w) \<leftarrow> rd (threads s) i;
     case w of
       Outside \<Rightarrow> if holder s (mutex t) = None
         then Some (s\<lparr>holder := (holder s)(mutex t := Some i), threads := (threads s)[i := (t, Inside (enter t))]\<rparr>)
         else None
     | Inside c \<Rightarrow>
         if at_stmt c = Unlock
         then Some (s\<lparr>holder := (holder s)(mutex t := None), threads := (threads s)[i := (t, Done_cs (found c))]\<rparr>)
         else do { (c', q) \<leftarrow> exec_stmt h c (shared s); Some (s\<lparr>shared := q, threads := (threads s)[i := (t, Inside c')]\<rparr>) }
     | Done_cs r \<Rightarrow> None }"

lemma advance_step: "advance h mutex i s = Some s' \<Longrightarrow> lstep h mutex s i s'"
  by (cases "threads s ! i")
     (auto simp: advance_def bind_eq_Some_conv rd_Some split: where_cs.splits if_splits intro: lstep.intros)

primrec advance_all :: "pcb_heap \<Rightarrow> (task \<Rightarrow> nat) \<Rightarrow> nat list \<Rightarrow> locks_t \<Rightarrow> locks_t option" where
  "advance_all h mutex [] s = Some s"
| "advance_all h mutex (i # is) s = do { s \<leftarrow> advance h mutex i s; advance_all h mutex is s }"

lemma advance_all_reach:
  "advance_all h mutex as s = Some s' \<Longrightarrow> reach init (lstep h mutex) s \<Longrightarrow> reach init (lstep h mutex) s'"
proof (induction as arbitrary: s)
  case Nil
  then show ?case by simp
next
  case (Cons i as)
  then show ?case by (auto simp: bind_eq_Some_conv intro: reach_step advance_step)
qed

text \<open>A list with one process, a search for it, and another process being put back; the append
  stores its process before the search closes the gap, and counts it afterwards.\<close>

definition one_queued :: "pref \<Rightarrow> pref queue_t" where
  "one_queued p = enqueue zero_queue (Some p)"

definition race_start :: "pref \<Rightarrow> u32 \<Rightarrow> pref \<Rightarrow> locks_t" where
  "race_start p pd r = \<lparr>shared = one_queued p, holder = (\<lambda>_. None), threads = [(Search pd, Outside), (Append r, Outside)]\<rparr>"

definition race_order :: "nat list" where
  "race_order = [0, 0, 0, 0, 0, 0, 1, 1, 1, 0, 0, 0, 1, 1, 0, 0, 0, 0, 0]"

lemma race_result:
  assumes "h p = Some b"
  shows "\<exists>q f. advance_all h queue_lock race_order (race_start p (pid b) r) =
      Some \<lparr>shared = q, holder = f, threads = [(Search (pid b), Done_cs (Some p)), (Append r, Done_cs None)]\<rparr> \<and>
    take 2 (qproc q) = [None, Some p] \<and> Some r \<notin> set (drop 2 (qproc q))"
  using assms
  by (simp add: race_order_def race_start_def one_queued_def advance_def exec_stmt_def enqueue_def zero_queue_def
      MAX_QUEUE_SIZE_def rd_def wr_def empty_def after_enqueue_def Let_def eval_nat_numeral)

text \<open>In either order of the two operations both processes are in the list.\<close>

lemma mset_pair: "mset xs = {#x, y#} \<Longrightarrow> xs = [x, y] \<or> xs = [y, x]"
proof -
  assume m: "mset xs = {#x, y#}"
  then obtain u v where "xs = [u, v]"
    by (metis length_Suc_conv length_0_conv size_mset size_add_mset size_empty)
  with m show ?thesis by (auto simp: add_eq_conv_diff split: if_splits)
qed

lemma race_serial:
  assumes "h p = Some b"
  shows "serial h [(Search (pid b), Some p), (Append r, None)] (one_queued p) = Some q \<Longrightarrow> Some r \<in> set (qproc q)"
    and "serial h [(Append r, None), (Search (pid b), Some p)] (one_queued p) = Some q \<Longrightarrow> Some r \<in> set (qproc q)"
  using assms
  by (auto simp: one_queued_def enqueue_def dequeue_def zero_queue_def MAX_QUEUE_SIZE_def empty_def Let_def
      shift_loop.simps eval_nat_numeral split: if_splits)

section \<open>Properties\<close>

text \<open>Where a section is stuck under one mutex, its operation is undefined.\<close>

lemma stuck_undefined:
  assumes "serial_inv h q0 m s" "fits q0" "i < length (threads s)" "threads s ! i = (t, Inside c)"
    and "\<nexists>j s'. lstep h (\<lambda>_. m) s j s'"
  shows "\<exists>hs q1. serial h hs q0 = Some q1 \<and> atomic h t q1 = None"
proof -
  have "holder s m = Some i" using assms(1,3,4) inside_holder unfolding serial_inv_def by blast
  with assms(1,2,4) obtain hs q1 where q1: "serial h hs q0 = Some q1" "cs_ok c (shared s)" "rest h c (shared s) = atomic h t q1"
    by (auto simp: serial_inv_def)
  have "at_stmt c \<noteq> Unlock" using assms(5) lstep.unlock [OF assms(3,4)] by blast
  moreover have "exec_stmt h c (shared s) = None"
    using assms(5) lstep.exec [OF assms(3,4)] by (metis not_None_eq surj_pair)
  ultimately have "rest h c (shared s) = None" using exec_stmt_None [OF q1(2)] by blast
  with q1 show ?thesis by metis
qed

text \<open>
  C8: the critical sections that share a mutex of the code are atomic. put_proc and add_proc append to the running list
  under one mutex, the system calls search it under another one. While only threads of one of these two kinds are
  at work, any number of them, then however their statements interleave, whenever the mutex is free the list and the answers of
  the completed searches are those of the operations enqueue and find_loop executed one after the
  other in some order; and a thread in its critical section is stuck only where that operation itself is undefined (it
  reads a freed process). (With threads of both kinds this is false, as the next property shows.)
\<close>
theorem one_mutex_serialises:
  assumes "reach (locks_init q0) (lstep h queue_lock) s" "wf_queue q0" "\<forall>x\<in>set (threads s). queue_lock (fst x) = m"
  shows "(holder s m = None \<longrightarrow> (\<exists>hs. mset hs = results s \<and> serial h hs q0 = Some (shared s))) \<and>
    (\<forall>i t c. i < length (threads s) \<and> threads s ! i = (t, Inside c) \<and> (\<nexists>j s'. lstep h queue_lock s j s') \<longrightarrow>
      (\<exists>hs q1. serial h hs q0 = Some q1 \<and> atomic h t q1 = None))"
proof -
  have same: "same_mutex queue_lock m s" using assms(3) by (simp add: same_mutex_def)
  have inv: "serial_inv h q0 m s" by (rule serialised.reach_inv [OF reach_same [OF assms(1) same]])
  have fit: "fits q0" using assms(2) by (simp add: wf_queue_def fits_def)
  from inv fit have "holder s m = None \<longrightarrow> (\<exists>hs. mset hs = results s \<and> serial h hs q0 = Some (shared s))"
    by (auto simp: serial_inv_def)
  with stuck_undefined [OF inv fit] lstep_same [OF same] show ?thesis by metis
qed

text \<open>Two processors put a process back; the second one waits for the mutex.\<close>

theorem one_mutex_serialises_witness:
  "\<exists>(s :: locks_t) hs. threads s = [(Append 7, Outside), (Append 9, Done_cs None)] \<and> mset hs = {#(Append 9, None)#} \<and>
     serial demo_heap hs (one_queued 0) = Some (shared s)"
proof -
  let ?s = "(race_start 0 4 9)\<lparr>threads := [(Append 7, Outside), (Append 9, Outside)]\<rparr>"
  have "\<exists>q f. advance_all demo_heap queue_lock [1, 1, 1, 1, 1] ?s =
      Some \<lparr>shared = q, holder = f, threads = [(Append 7, Outside), (Append 9, Done_cs None)]\<rparr> \<and> f 0 = None"
    by (simp add: race_start_def one_queued_def advance_def exec_stmt_def enqueue_def zero_queue_def
        MAX_QUEUE_SIZE_def rd_def wr_def after_enqueue_def Let_def eval_nat_numeral)
  then obtain q f where a: "advance_all demo_heap queue_lock [1, 1, 1, 1, 1] ?s =
      Some \<lparr>shared = q, holder = f, threads = [(Append 7, Outside), (Append 9, Done_cs None)]\<rparr>" "f 0 = None" by blast
  have "reach (locks_init (one_queued 0)) (lstep demo_heap queue_lock) ?s"
    by (rule reach_init) (simp add: locks_init_def race_start_def)
  from one_mutex_serialises [OF advance_all_reach [OF a(1) this], of 0] a(2)
  obtain hs where "mset hs = {#(Append 9, None)#}" "serial demo_heap hs (one_queued 0) = Some q"
    by (auto simp: results_def one_queued_def)
  then show ?thesis
    by (intro exI [of _ "\<lparr>shared = q, holder = f, threads = [(Append 7, Outside), (Append 9, Done_cs None)]\<rparr>"] exI [of _ hs]) simp
qed

text \<open>
  C9: with the two mutexes of the code a process is lost. There is a run of a system call that
  searches the running list for its caller while another processor puts a process back, after
  which both calls have returned normally and the list, which had room, does not contain the
  process that was put back: the append stored it where the search was about to close the gap,
  and the search overwrote it. No order of the two operations gives that list.
\<close>
theorem two_mutexes_lose_process:
  assumes "h p = Some b" "p \<noteq> r"
  shows "\<exists>s. reach (locks_init (one_queued p)) (lstep h queue_lock) s \<and>
    threads s = [(Search (pid b), Done_cs (Some p)), (Append r, Done_cs None)] \<and> Some r \<notin> set (qproc (shared s)) \<and>
    \<not> (\<exists>hs. mset hs = results s \<and> serial h hs (one_queued p) = Some (shared s))"
proof -
  obtain q f where a: "advance_all h queue_lock race_order (race_start p (pid b) r) =
      Some \<lparr>shared = q, holder = f, threads = [(Search (pid b), Done_cs (Some p)), (Append r, Done_cs None)]\<rparr>"
    "take 2 (qproc q) = [None, Some p]" "Some r \<notin> set (drop 2 (qproc q))"
    using race_result [of h p b r, OF assms(1)] by blast
  let ?s = "\<lparr>shared = q, holder = f, threads = [(Search (pid b), Done_cs (Some p)), (Append r, Done_cs None)]\<rparr>"
  have "reach (locks_init (one_queued p)) (lstep h queue_lock) (race_start p (pid b) r)"
    by (rule reach_init) (simp add: locks_init_def race_start_def)
  from advance_all_reach [OF a(1) this] have 1: "reach (locks_init (one_queued p)) (lstep h queue_lock) ?s" .
  have "set (qproc q) = set (take 2 (qproc q)) \<union> set (drop 2 (qproc q))" by (metis append_take_drop_id set_append)
  then have gone: "Some r \<notin> set (qproc q)" using a(2,3) assms(2) by simp
  have "Some r \<in> set (qproc q')" if hs: "mset hs = results ?s" "serial h hs (one_queued p) = Some q'" for hs q'
  proof -
    have "hs = [(Search (pid b), Some p), (Append r, None)] \<or> hs = [(Append r, None), (Search (pid b), Some p)]"
      by (rule mset_pair) (use hs(1) in \<open>simp add: results_def\<close>)
    with hs(2) race_serial [of h p b r q', OF assms(1)] show ?thesis by blast
  qed
  with gone have "\<not> (\<exists>hs. mset hs = results ?s \<and> serial h hs (one_queued p) = Some (shared ?s))"
    by (metis locks_t.select_convs(1))
  with 1 gone show ?thesis by (intro exI [of _ ?s]) simp
qed

theorem two_mutexes_lose_process_witness:
  "\<exists>s :: locks_t. threads s = [(Search (pid (the (demo_heap 0))), Done_cs (Some 0)), (Append 9, Done_cs None)] \<and>
     Some 9 \<notin> set (qproc (shared s))"
  using two_mutexes_lose_process [of demo_heap 0 "the (demo_heap 0)" 9] unfolding demo_heap_def by auto

end
