(* ===== verification/Standalone.thy ===== *)
theory Standalone
  imports Cpu Loader
begin

text \<open>
  \<open>src/paging.c\<close>, the \<open>main\<close> of the program \<open>mem\<close> of the Makefile, which the simulator does not
  link: it loads one process, runs it to its end and prints the legacy memory. Nothing there sets
  \<open>proc->krnl\<close>, so every instruction but CALC follows an uninitialised pointer.
\<close>

section \<open>main\<close>

definition run_bare :: "sys_t \<Rightarrow> pref \<Rightarrow> (int \<times> sys_t) option" where
  "run_bare s proc = do {
     p \<leftarrow> procs s proc;
     if csize (code p) \<le> pc p then run 0 zero_rg s proc
     else do {
       ins \<leftarrow> rd (ctext (code p)) (unat (pc p));
       if opcode ins = CALC then run 0 zero_rg s proc else None } }"

primrec main_loop :: "nat \<Rightarrow> sys_t \<Rightarrow> pref \<Rightarrow> sys_t option" where
  "main_loop 0 s proc = Some s"
| "main_loop (Suc n) s proc = do { (_, s) \<leftarrow> run_bare s proc; main_loop n s proc }"

text \<open>\<open>proc\<close> is the address of the process, \<open>mem\<close> and \<open>cell\<close> what \<open>malloc\<close> left there, \<open>s\<close> the state of the
  parts that are not reached. \<open>Inl\<close> is an exit of \<open>load\<close>; the legacy memory is all zero.\<close>

definition paging_main :: "(string \<Rightarrow> string option) \<Rightarrow> pcb_t \<Rightarrow> (nat \<Rightarrow> inst_t) \<Rightarrow> sys_t \<Rightarrow> pref \<Rightarrow>
    (int + int \<times> (nat \<times> mem_stat \<times> (nat \<times> byte) list) list) option" where
  "paging_main fs mem cell s proc = do {
     r \<leftarrow> load fs mem cell 1 ''input/proc/m0s'';
     case r of
       Inl e \<Rightarrow> Some (Inl e)
     | Inr (b, _) \<Rightarrow> do {
         _ \<leftarrow> main_loop (unat (csize (code b))) (s\<lparr>procs := [proc \<mapsto> b]\<rparr>) proc;
         Some (Inr (0, dump init_mem)) } }"

section \<open>What it does\<close>

abbreviation calcs :: "inst_t list \<Rightarrow> bool" where
  "calcs \<equiv> list_all (\<lambda>ins. opcode ins = CALC)"

lemma main_loop_defined:
  assumes "procs s proc = Some p" "unat (csize (code p)) = length (ctext (code p))"
    and "unat (pc p) + n = unat (csize (code p))"
  shows "(main_loop n s proc \<noteq> None) \<longleftrightarrow> calcs (drop (unat (pc p)) (ctext (code p)))"
  using assms
proof (induction n arbitrary: s p)
  case 0
  then show ?case by simp
next
  case (Suc n)
  have lt: "pc p < csize (code p)" using Suc.prems(3) by (simp add: word_less_nat_alt)
  have i: "unat (pc p) < length (ctext (code p))" using Suc.prems(2,3) by linarith
  let ?p = "p\<lparr>pc := pc p + 1\<rparr>"
  let ?ins = "ctext (code p) ! unat (pc p)"
  have d: "drop (unat (pc p)) (ctext (code p)) = ?ins # drop (Suc (unat (pc p))) (ctext (code p))"
    using i by (simp add: Cons_nth_drop_Suc)
  show ?case
  proof (cases "opcode ?ins = CALC")
    case True
    have u: "unat (pc p + 1) = Suc (unat (pc p))"
      using Suc.prems(3) unat_u32_less [of "csize (code p)"] by (simp add: unat_word_ariths)
    have "run_bare s proc = Some (0, set_pcb proc ?p s)"
      using run_calc [OF Suc.prems(1) lt i True] Suc.prems(1) lt i True by (simp add: run_bare_def rd_in not_le)
    moreover have "(main_loop n (set_pcb proc ?p s) proc \<noteq> None) \<longleftrightarrow> calcs (drop (unat (pc ?p)) (ctext (code ?p)))"
      by (rule Suc.IH) (use Suc.prems(2,3) u in \<open>simp_all add: set_pcb_def\<close>)
    ultimately show ?thesis using u d True by simp
  next
    case False
    moreover have "\<not> csize (code p) \<le> pc p" using lt by simp
    ultimately show ?thesis using Suc.prems(1) i d by (simp add: run_bare_def rd_in)
  qed
qed

lemma dump_zero [simp]: "dump init_mem = []"
  by (simp add: dump_def init_mem_def filter_empty_conv)

text \<open>
  For a file in the program format the test returns 0 and shows an empty memory when every
  instruction is CALC, and is undefined otherwise.
\<close>
lemma paging_main_outcome:
  assumes "fs ''input/proc/m0s'' = Some (show_prog prior ts)" "length ts < 2 ^ 32"
  shows "paging_main fs mem cell s proc = (if calcs ts then Some (Inr (0, [])) else None)"
proof -
  obtain p where p: "load fs mem cell 1 ''input/proc/m0s'' = Some (Inr (p, 1 + 1))" "pc p = 0"
      "unat (csize (code p)) = length ts" "map opcode (ctext (code p)) = map opcode ts"
    using load_show_prog [of fs "''input/proc/m0s''" prior ts mem cell 1, OF assms] by auto
  have l: "length (ctext (code p)) = length ts" using p(4) by (metis length_map)
  have "calcs xs = list_all ((=) CALC) (map opcode xs)" for xs by (induction xs) auto
  with p(4) have c: "calcs (ctext (code p)) = calcs ts" by simp
  have "(main_loop (length ts) (s\<lparr>procs := [proc \<mapsto> p]\<rparr>) proc \<noteq> None) \<longleftrightarrow> calcs ts"
    using main_loop_defined [of "s\<lparr>procs := [proc \<mapsto> p]\<rparr>" proc p "length ts"] p(2,3) l c by simp
  with p(1,3) show ?thesis by (auto simp: paging_main_def)
qed

text \<open>Without the file the test exits with status 1.\<close>

lemma paging_main_no_file: "fs ''input/proc/m0s'' = None \<Longrightarrow> paging_main fs mem cell s proc = Some (Inl 1)"
  by (simp add: paging_main_def load_def)

end
