(* ===== verification/Spec2Isabelle.thy ===== *)
theory Spec2Isabelle
  imports Admission Completion Pageio Mm32 Locks Standalone
begin

text \<open>
  A verification library for the operating system simulator of this repository (\<open>src/\<close>,
  \<open>include/\<close>): a multi-level-queue scheduler, a paging memory manager with a RAM and a swap
  device, system calls, and the timer, processor and loader threads that drive them.

  \<^bold>\<open>The program.\<close> \<open>main\<close> (\<open>src/os.c\<close>) reads a configuration, attaches one timer device for the
  loader and one for each processor, initialises the memory devices and the scheduler, and
  starts the threads. The loader thread parses a program (\<open>src/loader.c\<close>) into a process, waits for
  its start time, gives the one kernel structure a fresh \<open>mm\<close> (\<open>init_mm\<close>) and adds the process
  to the scheduler (\<open>src/sched.c\<close>, on the queues of \<open>src/queue.c\<close>). A processor thread fetches
  a process, runs an instruction per time slot (\<open>src/cpu.c\<close>) and puts the process back at the end
  of its slice. ALLOC, FREE, READ and WRITE go to the memory library (\<open>src/libmem.c\<close>), which
  keeps the regions of an area, grows it by a system call (\<open>src/libstd.c\<close>, \<open>src/syscall.c\<close>,
  \<open>src/sys_*.c\<close>, \<open>src/mm-vm.c\<close>) and reaches bytes through the page tables (\<open>src/mm64.c\<close>) of
  a memory device (\<open>src/mm-memphy.c\<close>). The timer (\<open>src/timer.c\<close>) is the barrier at which all
  threads meet once per slot.

  \<^bold>\<open>Theories and sources\<close>, each in the order of the code and importing what it calls:

  \<^item> \<open>Prelude\<close>: C scalars (\<open>addr_t\<close> is \<open>u64\<close>, \<open>int\<close> in bit arithmetic is \<open>cint\<close>, a 32-bit
    word read with \<open>sint\<close>, \<open>BYTE\<close> is \<open>byte\<close>), array access \<open>rd\<close> and \<open>wr\<close>, runs of a step relation.
  \<^item> \<open>Queue\<close>: \<open>queue.h\<close>, \<open>queue.c\<close>. \<open>queue_t\<close> is the array of 50 slots and \<open>size\<close>; \<open>contents\<close>
    abstracts it to a list.
  \<^item> \<open>Process\<close>: the instructions and the control block of \<open>common.h\<close>. A process is a reference
    \<open>pref\<close> into a heap \<open>procs\<close>, so a freed process is a missing entry.
  \<^item> \<open>Sched\<close>: \<open>sched.c\<close>; \<open>sched_t\<close> holds its static variables. The functions of the \<open>#else\<close> branch
    carry the suffix \<open>_nomlq\<close>.
  \<^item> \<open>Layout\<close>: the macros of \<open>bitops.h\<close>, \<open>mm.h\<close> and \<open>mm64.h\<close>. \<open>Paging\<close>: the entry and address
    arithmetic of \<open>mm64.c\<close>. \<open>Memphy\<close>: \<open>mm-memphy.c\<close> and \<open>__swap_cp_page\<close>.
  \<^item> \<open>Pagetable\<close>: the five-level directory of \<open>mm64.c\<close>; the tables that \<open>calloc\<close> returns are the
    list \<open>tables\<close> and an address \<open>a\<close> other than 0 is the table number \<open>a - 1\<close>.
  \<^item> \<open>Vm\<close>: mapping, frame allocation, \<open>init_mm\<close> (\<open>mm64.c\<close>) and the areas of \<open>mm-vm.c\<close>.
    \<open>Pageio\<close>: \<open>pgread\<close>, \<open>pgwrite\<close> and the list printers. \<open>Mm32\<close>: \<open>mm.c\<close>, the manager
    compiled without \<open>MM64\<close>.
  \<^item> \<open>Scanf\<close>: the part of \<open>fscanf\<close>, \<open>sscanf\<close> and \<open>fgets\<close> that the program uses, on the
    characters of a file.
  \<^item> \<open>Syscall\<close>: \<open>syscall.tbl\<close>, \<open>syscall.c\<close>, \<open>sys_listsyscall.c\<close>, \<open>sys_mem.c\<close>,
    \<open>sys_xxxhandler.c\<close>, \<open>libstd.c\<close>; \<open>sys_t\<close> is the state all of it shares.
  \<^item> \<open>Locks\<close>: \<open>enqueue\<close>, \<open>dequeue\<close> and the search of \<open>sys_mem.c\<close> on \<open>running_list\<close> again,
    a step per statement, under the mutexes of \<open>sched.c\<close> and \<open>sys_mem.c\<close>.
  \<^item> \<open>Libmem\<close>: \<open>libmem.c\<close>. \<open>Mem\<close>: the legacy \<open>mem.c\<close>. \<open>Cpu\<close>: \<open>cpu.c\<close>.
  \<^item> \<open>Timer\<close>: \<open>timer.c\<close> as a step relation \<open>tstep\<close>. \<open>Loader\<close>: \<open>loader.c\<close>. \<open>Config\<close>:
    \<open>read_config\<close> of \<open>os.c\<close>. \<open>Standalone\<close>: \<open>paging.c\<close>, the test program \<open>mem\<close>.
  \<^item> \<open>Os\<close>: \<open>cpu_routine\<close>, \<open>ld_routine\<close> and \<open>main\<close> of \<open>os.c\<close> as the step relation \<open>wstep\<close> of the
    whole program; \<open>Owners\<close>, \<open>Custody\<close> and \<open>Simulation\<close>: its invariants and the properties of its
    runs.
  \<^item> \<open>Pace\<close>: how fast the programs run. \<open>Admission\<close>: the order in which they are loaded.
    \<open>Liveness\<close>: the end of a time slot, and which threads have ended.
  \<^item> \<open>Progress\<close> and \<open>Growth\<close>: the programs for which \<open>run\<close> is defined, and what an instruction
    adds. \<open>Threads\<close>: what makes all threads defined and free of deadlock, as a contract on the programs;
    \<open>Single\<close> and \<open>Local\<close>: two kinds of configurations that meet it. \<open>Completion\<close>: the programs come to
    their end.

  \<^bold>\<open>Conventions.\<close> An error that the C code reports is a value: a return code, \<open>None\<close> for a NULL
  result, \<open>Inl\<close> of an exit status. Undefined behaviour (a NULL dereference, an access outside
  an array, a read of freed memory) is \<open>None\<close> of the outermost option, so \<open>f x = Some y\<close> in a
  conclusion says that the call is defined and returns. What an uninitialised variable holds is
  an argument (\<open>junk\<close>, \<open>v\<close>, \<open>data\<close>, \<open>tgt\<close>, \<open>cell\<close>, \<open>mem\<close>) over which the properties
  quantify. Printing is a list of events or of the values shown, without its wording.

  \<^bold>\<open>Contracts\<close> are locales. Each is interpreted on the code's own functions, in the theory that
  provides them:

  \<^item> \<open>bounded_fifo\<close>, by \<open>fifo\<close> in \<open>Queue\<close>: what the scheduler may rely on in a queue.
  \<^item> \<open>byte_store\<close> and \<open>frame_pool\<close>, by \<open>ram\<close> and \<open>pool\<close> in \<open>Memphy\<close>: a device as
    addressable bytes and as a stack of free frames.
  \<^item> \<open>page_map\<close>, by \<open>dir\<close> in \<open>Pagetable\<close>: the directory as a map from page numbers to entries
    with a budget of tables; \<open>Vm\<close> and \<open>Libmem\<close> reason about that map.
  \<^item> \<open>sched_relation\<close>, by \<open>queues\<close> in \<open>Cpu\<close> and \<open>ready\<close> in \<open>Owners\<close>: a relation between system
    states that every instruction keeps because it touches the scheduler only through the
    rotation of \<open>running_list\<close>.
  \<^item> \<open>step_invariant\<close>, by \<open>barrier\<close> in \<open>Timer\<close>, \<open>program\<close> in \<open>Owners\<close>, \<open>kept\<close> in \<open>Custody\<close>, \<open>slots\<close> and \<open>slices\<close>
    in \<open>Simulation\<close>, \<open>stopped\<close> in \<open>Pace\<close>, \<open>ended\<close> in \<open>Liveness\<close>, \<open>finitely\<close> in \<open>Threads\<close>, \<open>onward\<close> in \<open>Completion\<close>,
    \<open>serialised\<close> in \<open>Locks\<close>: an invariant of a step relation holds in every reachable state.
  \<^item> \<open>safe_kernel\<close>, by \<open>single\<close> in \<open>Single\<close> and \<open>alone\<close> in \<open>Local\<close>: a condition on instructions and
    on the kernel that \<open>run\<close>, the allocation of an \<open>mm\<close> and \<open>init_mm\<close> keep, and under which \<open>run\<close> is defined; when
    the configuration has one process, \<open>run\<close> may rely on being alone. It gives a \<open>step_invariant\<close> of the whole program (\<open>always\<close>), that no thread meets undefined
    behaviour, and that there is no deadlock.

  \<^bold>\<open>What the lemmas show.\<close> \<open>Queue\<close> refines a bounded FIFO. \<open>Sched\<close> computes the exact dispatch
  sequence of two busy levels and shows that a third one is never served. The page directory
  refines a map, on which mapping, allocation, page access and releasing a process are
  described completely. \<open>Libmem\<close> accounts for the free list cell by cell and shows that an
  allocation the free list cannot serve overlaps the previous one. \<open>Timer\<close>
  shows that the clock advances only when every device has arrived, that no wake-up is lost
  and that devices stay in step. \<open>Locks\<close> shows that the sections that take the same mutex of the code, the appends
  among themselves and the searches among themselves, are the atomic operations the other theories take them
  for, and that a process put back during a search is lost. \<open>Loader\<close> and \<open>Config\<close> parse back every text that a printer
  writes. \<open>Simulation\<close> shows over all interleavings that a process has one owner, that none is lost while
  the queues have room, that every comparison of a search, at whatever moment it is made, can succeed for its caller only,
  that a process executes at most one time slot of instructions between two dispatches, and that no page is ever present in an
  address space that is initialised, and what follows from the defects of the code:
  an idle processor never stops, a finished process stays listed, and a loaded process
  replaces the memory of those that run. \<open>Progress\<close> gives the operands under which every instruction
  is defined when it runs alone. Two theories show that no thread meets undefined behaviour and that the
  threads do not deadlock, in every state the program can reach: \<open>Single\<close> for one process with any such instructions but ALLOC,
  because then nobody else uses what an instruction uses, and \<open>Local\<close> for any number of processes that only compute and
  make the system calls that print, which use nothing that is shared. For other configurations this is false: see the
  races below. \<open>Pace\<close> shows that a slot of the clock lets
  a process execute at most one instruction, on any number of processors, and \<open>Admission\<close> that the loader
  takes the processes of the configuration in order, each once and not before its start time, and that each has
  the priority and the program of its entry. \<open>Liveness\<close>
  shows that no schedule of the threads can hold the clock for ever, and \<open>Completion\<close> that none can
  keep the programs from ending: a measure of the entries to load, the time to wait, the instructions to execute and
  the steps to the end of the slot decreases with each step of a thread. For the configurations of \<open>Single\<close> and \<open>Local\<close> a run to
  the end exists from every reachable state.

  \<^bold>\<open>Bounds.\<close> \<open>calloc\<close> fails after \<open>MAX_TABLES = 2^52 - 1\<close> tables, as many 4 KiB tables as 64 bits
  can address; \<open>room\<close> is how many are left, and one page needs at most 4, so an instruction of a program
  whose areas stay below \<open>B\<close> pages needs at most \<open>4 * B\<close>. A queue holds 50 processes.
  Loops over a list are primitive recursive in the list, loops with a counter in the counter. The loop of
  a processor is cut into \<open>cpu_iter n\<close>, and \<open>cpu_iteration_ends\<close> shows that 5 steps always reach
  its end; \<open>timer_n n\<close> iterates the timer, and \<open>timer_round_completes\<close> shows that 2 n + 3 steps
  are a full round over \<open>n\<close> devices. With \<open>n\<close> processors a slot takes at most 12 n + 16 steps of
  threads (\<open>slot_ends\<close>). The area of a process of \<open>Single\<close> has at most \<open>PAGES = 2^17\<close> pages, because then the fewer than
  \<open>2^32\<close> instructions of its program cannot use up the tables. A pointer has 8 bytes (\<open>SIZEOF_POINTER\<close>, for the
  \<open>sizeof(path)\<close> of the loader).

  \<^bold>\<open>Granularity.\<close> A step of the whole program is a stretch of one thread with at most one
  critical section of the scheduler or the timer, so threads interleave at the locks. Within the barrier a step is one critical
  section, with lost signals and spurious wake-ups. Where the code takes no lock, or locks that do not exclude each other:

  \<^item> The loader replaces \<open>krnl->mm\<close> by \<open>malloc\<close> and then fills it by \<open>init_mm\<close>, without a lock. These are two steps
    (\<open>ld_waiting\<close>, \<open>ld_memory\<close>) between which \<open>mm\<close> is \<open>None\<close>, so that an instruction of another thread that uses it
    there is undefined. \<open>init_mm\<close> itself is one step; what an instruction would find halfway through it is no better defined.
  \<^item> An instruction is one step, although the memory library and the system calls take different locks, and the access to
    memory and the printing at the end of a call none. The properties that exclude undefined behaviour are therefore about
    configurations in which an instruction uses nothing that another thread changes meanwhile, which they state as well.
  \<^item> Two mutexes of the same name guard \<open>running_list\<close> and do not exclude each other. What that can do to the list is explored
    statement by statement in \<open>Locks\<close>; the whole program takes each operation on the list for one step. The property of
    the search for a caller (\<open>syscall_finds_its_caller\<close>) is about single comparisons made at any two moments of a run.
  \<^item> The area that \<open>init_mm\<close> makes has an uninitialised pointer behind its first free region. The model takes it for
    any finite list of regions (\<open>rgs\<close>), which ALLOC, the only instruction that follows it, needs it to be; the properties that exclude
    undefined behaviour of the whole program leave ALLOC out.

  \<^bold>\<open>Not modelled.\<close> The wording of \<open>printf\<close>, the flushing of files and the creation, initialisation and
  destruction of threads, mutexes and condition variables have no state here. \<open>malloc\<close> succeeds
  except where the code tests its result; \<open>calloc\<close> of tables fails at the bound above. The variants without
  \<open>MM_PAGING\<close> and with \<open>MM_FIXED_MEMSZ\<close> are outside the configuration; three macros
  (\<open>Layout\<close>) name others that do not exist. \<open>pgalloc\<close> and \<open>pgfree_data\<close> have empty bodies, and \<open>finish_scheduler\<close> is declared
  but never defined.
\<close>

end
